(* ===== verification/Tf_Prelude.thy ===== *)
theory Tf_Prelude
  imports Main "HOL-Library.Word" "HOL-Library.Char_ord" "HOL-Library.List_Lexorder"
begin

text \<open>
  Shared ground of the development.  Rust collections are represented as follows.

  \<^item> \<open>BTreeMap<K, V>\<close> and \<open>serde_json::Map\<close> (built without \<open>preserve_order\<close>, hence a
    \<open>BTreeMap\<close>): an association list that is strictly sorted by key, the order in
    which the Rust map iterates.  \<open>String\<close> keys compare bytewise, which is the
    lexicographic order of \<^typ>\<open>string\<close> over the character codes.
  \<^item> \<open>HashSet<T>\<close> that is iterated: a duplicate-free list, whose order stands for one
    admissible iteration order.  A set that is only tested for membership is a
    HOL set.
  \<^item> \<open>HashMap<K, V>\<close>: a HOL map where it is only looked up, an association list with
    distinct keys where it is iterated.
  \<^item> \<open>Result<T, E>\<close>: the sum type \<^typ>\<open>'e + 't\<close> with \<^const>\<open>Inl\<close> the error.
  \<^item> a \<open>Vec\<close> used as a stack: a list with the top of the stack at the head.
\<close>

section \<open>Sorted maps\<close>

type_synonym ('k, 'v) btree = "('k \<times> 'v) list"

named_theorems bt_simps \<open>lookup, update and order laws of sorted maps\<close>

fun bt_get :: "'k \<Rightarrow> ('k, 'v) btree \<Rightarrow> 'v option" where
  "bt_get k [] = None"
| "bt_get k ((k', v) # m) = (if k = k' then Some v else bt_get k m)"

fun bt_insert :: "'k::linorder \<Rightarrow> 'v \<Rightarrow> ('k, 'v) btree \<Rightarrow> ('k, 'v) btree" where
  "bt_insert k v [] = [(k, v)]"
| "bt_insert k v ((k', v') # m) =
    (if k = k' then (k, v) # m
     else if k < k' then (k, v) # (k', v') # m
     else (k', v') # bt_insert k v m)"

fun bt_remove :: "'k \<Rightarrow> ('k, 'v) btree \<Rightarrow> ('k, 'v) btree" where
  "bt_remove k [] = []"
| "bt_remove k ((k', v') # m) = (if k = k' then m else (k', v') # bt_remove k m)"

definition bt_keys :: "('k, 'v) btree \<Rightarrow> 'k list" where
  "bt_keys m = map fst m"

definition bt_wf :: "('k::linorder, 'v) btree \<Rightarrow> bool" where
  "bt_wf m \<longleftrightarrow> sorted_wrt (<) (bt_keys m)"

definition bt_from_list :: "('k::linorder \<times> 'v) list \<Rightarrow> ('k, 'v) btree" where
  "bt_from_list kvs = fold (\<lambda>(k, v) m. bt_insert k v m) kvs []"

lemma bt_get_insert [simp, bt_simps]:
  "bt_get k (bt_insert k' v m) = (if k = k' then Some v else bt_get k m)"
  by (induction m) auto

lemma bt_keys_simps [simp]:
  "bt_keys [] = []" "bt_keys (e # m) = fst e # bt_keys m"
  by (simp_all add: bt_keys_def)

lemma bt_get_None_iff: "bt_get k m = None \<longleftrightarrow> k \<notin> set (bt_keys m)"
  by (induction m) (auto split: if_splits)

lemma bt_get_map_of: "bt_get k m = map_of m k"
  by (induction m) auto

lemma bt_get_Some_in_set: "bt_get k m = Some v \<Longrightarrow> (k, v) \<in> set m"
  by (induction m) (auto split: if_splits)

lemma set_bt_keys_insert [simp]:
  "set (bt_keys (bt_insert k v m)) = insert k (set (bt_keys m))"
  by (induction m rule: bt_insert.induct) (simp_all add: insert_commute)

lemma bt_wf_Nil [simp]: "bt_wf []"
  by (simp add: bt_wf_def)

lemma bt_wf_Cons [bt_simps]:
  "bt_wf ((k, v) # m) \<longleftrightarrow> (\<forall>k' \<in> set (bt_keys m). k < k') \<and> bt_wf m"
  by (simp add: bt_wf_def)

lemma bt_wf_insert [simp, intro]:
  assumes "bt_wf m"
  shows "bt_wf (bt_insert k v m)"
  using assms
proof (induction k v m rule: bt_insert.induct)
  case (2 k v a b m)
  consider "k = a" | "k < a" "k \<noteq> a" | "a < k" "\<not> k < a" "k \<noteq> a"
    by (cases k a rule: linorder_cases) auto
  then show ?case
  proof cases
    case 1
    with 2 show ?thesis by (simp add: bt_wf_Cons)
  next
    case k: 2
    have "\<forall>x \<in> set (bt_keys m). k < x"
      using "2.prems" less_trans [OF k(1)] by (simp add: bt_wf_Cons)
    with k "2.prems" show ?thesis by (simp add: bt_wf_Cons)
  next
    case k: 3
    with 2 show ?thesis by (simp add: bt_wf_Cons)
  qed
qed (simp add: bt_wf_Cons)

lemma bt_wf_distinct: "bt_wf m \<Longrightarrow> distinct (bt_keys m)"
  by (induction m) (auto simp: bt_wf_Cons)

lemma bt_get_eq_iff_in: "bt_wf m \<Longrightarrow> bt_get k m = Some v \<longleftrightarrow> (k, v) \<in> set m"
  using bt_wf_distinct [of m] by (simp add: bt_get_map_of bt_keys_def)

lemma bt_get_below:
  fixes k :: "'k::linorder"
  assumes "\<forall>k' \<in> set (bt_keys m). k < k'"
  shows "bt_get k m = None"
  using assms by (auto simp: bt_get_None_iff)

text \<open>Two sorted maps with the same lookups are the same list: this is what makes
  equality of JSON objects extensional.\<close>

lemma bt_head_le:
  assumes "bt_wf ((k, v) # m)" "bt_get k' ((k, v) # m) \<noteq> None"
  shows "k \<le> k'"
proof (rule ccontr)
  assume "\<not> k \<le> k'"
  then have "k' < k" by simp
  then have "\<forall>x \<in> set (bt_keys m). k' < x"
    using assms(1) less_trans [OF \<open>k' < k\<close>] by (simp add: bt_wf_Cons)
  then have "bt_get k' m = None" by (rule bt_get_below)
  with \<open>k' < k\<close> assms(2) show False by (auto split: if_splits)
qed

lemma bt_ext:
  assumes "bt_wf m" "bt_wf m'" "\<And>k. bt_get k m = bt_get k m'"
  shows "m = m'"
  using assms
proof (induction m arbitrary: m')
  case Nil
  show ?case
  proof (cases m')
    case (Cons e n)
    with Nil.prems(3) [of "fst e"] show ?thesis by (cases e) simp
  qed simp
next
  case (Cons e m)
  obtain k v where e: "e = (k, v)" by (cases e)
  from Cons.prems(3) [of k] obtain k' v' n where m': "m' = (k', v') # n"
    by (cases m') (auto simp: e)
  have "k \<le> k'"
    using Cons.prems(1) Cons.prems(3) [of k'] unfolding e m' by (intro bt_head_le) auto
  moreover have "k' \<le> k"
    using Cons.prems(2) Cons.prems(3) [of k] unfolding e m'
    by (intro bt_head_le) (auto dest: sym)
  ultimately have k: "k' = k" by simp
  from Cons.prems(3) [of k] have v: "v' = v" by (simp add: e m' k)
  have "m = n"
  proof (rule Cons.IH)
    show "bt_wf m" "bt_wf n" using Cons.prems(1,2) by (simp_all add: e m' bt_wf_Cons)
    fix x
    show "bt_get x m = bt_get x n"
      using Cons.prems(1,2) Cons.prems(3) [of x] unfolding e m' k bt_wf_Cons
      by (cases "x = k") (simp_all add: bt_get_below)
  qed
  then show ?case by (simp add: e m' k v)
qed

lemma bt_insert_commute:
  assumes "bt_wf m" "k \<noteq> k'"
  shows "bt_insert k v (bt_insert k' v' m) = bt_insert k' v' (bt_insert k v m)"
  using assms by (intro bt_ext bt_wf_insert) auto

lemma bt_insert_overwrite: "bt_insert k v (bt_insert k v' m) = bt_insert k v m"
  by (induction m) auto

lemma bt_wf_remove [simp, intro]: "bt_wf m \<Longrightarrow> bt_wf (bt_remove k m)"
proof (induction m)
  case (Cons e m)
  have sub: "set (bt_keys (bt_remove k m)) \<subseteq> set (bt_keys m)"
    by (induction m) (auto split: if_splits)
  show ?case
    using Cons sub by (cases e) (auto simp: bt_wf_Cons subset_iff)
qed simp

lemma bt_get_remove:
  "bt_wf m \<Longrightarrow> bt_get k (bt_remove k' m) = (if k = k' then None else bt_get k m)"
proof (induction m)
  case (Cons e m)
  then show ?case
    by (cases e, cases "k = fst e"; cases "k' = fst e") (simp_all add: bt_wf_Cons bt_get_below)
qed simp

section \<open>Iterated hash sets\<close>

type_synonym 'a hset = "'a list"

definition hs_insert :: "'a \<Rightarrow> 'a hset \<Rightarrow> 'a hset" where
  "hs_insert x xs = (if x \<in> set xs then xs else xs @ [x])"

definition hs_collect :: "'a list \<Rightarrow> 'a hset" where
  "hs_collect xs = fold hs_insert xs []"

lemma set_hs_insert [simp]: "set (hs_insert x xs) = insert x (set xs)"
  by (auto simp: hs_insert_def)

lemma distinct_hs_insert [simp, intro]: "distinct xs \<Longrightarrow> distinct (hs_insert x xs)"
  by (simp add: hs_insert_def)

lemma set_fold_hs_insert: "set (fold hs_insert xs ys) = set xs \<union> set ys"
  by (induction xs arbitrary: ys) auto

lemma distinct_fold_hs_insert: "distinct ys \<Longrightarrow> distinct (fold hs_insert xs ys)"
  by (induction xs arbitrary: ys) auto

lemma set_hs_collect [simp]: "set (hs_collect xs) = set xs"
  by (simp add: hs_collect_def set_fold_hs_insert)

lemma fold_hs_insert_distinct: "distinct (ys @ xs) \<Longrightarrow> fold hs_insert xs ys = ys @ xs"
  by (induction xs arbitrary: ys) (auto simp: hs_insert_def)

lemma hs_collect_distinct [simp]: "distinct xs \<Longrightarrow> hs_collect xs = xs"
  using fold_hs_insert_distinct [of "[]" xs] by (simp add: hs_collect_def)

lemma distinct_hs_collect [simp, intro]: "distinct (hs_collect xs)"
  by (simp add: hs_collect_def distinct_fold_hs_insert)

section \<open>Hash maps that are iterated\<close>

fun hm_insert :: "'k \<Rightarrow> 'v \<Rightarrow> ('k \<times> 'v) list \<Rightarrow> ('k \<times> 'v) list" where
  "hm_insert k v [] = [(k, v)]"
| "hm_insert k v ((k', v') # m) =
    (if k = k' then (k, v) # m else (k', v') # hm_insert k v m)"

lemma bt_get_hm_insert [simp]:
  "bt_get k (hm_insert k' v m) = (if k = k' then Some v else bt_get k m)"
  by (induction m) auto

lemma set_keys_hm_insert [simp]:
  "set (bt_keys (hm_insert k v m)) = insert k (set (bt_keys m))"
  by (induction m rule: hm_insert.induct) (simp_all add: insert_commute)

lemma distinct_hm_insert [simp, intro]:
  "distinct (bt_keys m) \<Longrightarrow> distinct (bt_keys (hm_insert k v m))"
  by (induction m) auto

definition hm_wf :: "('k \<times> 'v) list \<Rightarrow> bool" where
  "hm_wf m \<longleftrightarrow> distinct (bt_keys m)"

lemma hm_wf_Nil [simp, intro]: "hm_wf []"
  by (simp add: hm_wf_def)

lemma hm_wf_insert [simp, intro]: "hm_wf m \<Longrightarrow> hm_wf (hm_insert k v m)"
  by (simp add: hm_wf_def distinct_hm_insert)

lemma hm_get_iff_in: "hm_wf m \<Longrightarrow> (k, v) \<in> set m \<longleftrightarrow> bt_get k m = Some v"
  by (simp add: hm_wf_def bt_get_map_of bt_keys_def)

lemma set_keys_remove_subset: "set (bt_keys (bt_remove k m)) \<subseteq> set (bt_keys m)"
  by (induction m) (auto split: if_splits)

lemma hm_wf_remove [simp, intro]: "hm_wf m \<Longrightarrow> hm_wf (bt_remove k m)"
  unfolding hm_wf_def
proof (induction m)
  case (Cons e m)
  then show ?case using set_keys_remove_subset [of k m] by (cases e) auto
qed simp

lemma hm_get_remove [simp]:
  "hm_wf m \<Longrightarrow> bt_get k (bt_remove k' m) = (if k = k' then None else bt_get k m)"
proof (induction m)
  case (Cons e m)
  then show ?case by (cases e) (auto simp: hm_wf_def bt_get_None_iff)
qed simp

text \<open>The contract both map representations meet, with the law of building a map from a list
  of bindings: the last binding of a key wins.\<close>

locale keyed_map =
  fixes ins :: "'k \<Rightarrow> 'v \<Rightarrow> ('k \<times> 'v) list \<Rightarrow> ('k \<times> 'v) list"
    and wf :: "('k \<times> 'v) list \<Rightarrow> bool"
  assumes wf_empty: "wf []"
    and wf_ins: "wf m \<Longrightarrow> wf (ins k v m)"
    and get_ins: "bt_get x (ins k v m) = (if x = k then Some v else bt_get x m)"
    and in_iff_get: "wf m \<Longrightarrow> (k, v) \<in> set m \<longleftrightarrow> bt_get k m = Some v"
begin

lemma wf_build: "wf m \<Longrightarrow> wf (fold (\<lambda>(k, v). ins k v) kvs m)"
  by (induction kvs arbitrary: m) (auto simp: wf_ins)

lemma get_build:
  "bt_get x (fold (\<lambda>(k, v). ins k v) kvs m) =
    (case map_of (rev kvs) x of Some v \<Rightarrow> Some v | None \<Rightarrow> bt_get x m)"
  by (induction kvs arbitrary: m) (auto simp: get_ins map_add_def split: option.split)

lemma values_build:
  "snd ` set (fold (\<lambda>(k, v). ins k v) kvs []) = ran (map_of (rev kvs))"
proof -
  have "(k, v) \<in> set (fold (\<lambda>(k, v). ins k v) kvs []) \<longleftrightarrow> map_of (rev kvs) k = Some v" for k v
    by (subst in_iff_get [OF wf_build [OF wf_empty]])
       (auto simp: get_build split: option.split)
  then show ?thesis by (force simp: ran_def)
qed

end

interpretation hm: keyed_map hm_insert hm_wf
  by unfold_locales (simp_all add: hm_get_iff_in)

interpretation bt: keyed_map bt_insert bt_wf
  by unfold_locales (simp_all add: bt_wf_insert bt_get_eq_iff_in)

section \<open>Adjacency of an edge list\<close>

text \<open>The successors of a node in an edge list, in edge order and with repetitions.\<close>

definition adj :: "('a \<times> 'a) list \<Rightarrow> 'a \<Rightarrow> 'a list" where
  "adj es x = map snd (filter (\<lambda>e. fst e = x) es)"

lemma set_adj [simp]: "set (adj es x) = {y. (x, y) \<in> set es}"
  by (force simp: adj_def)

lemma adj_Nil_iff: "adj es x = [] \<longleftrightarrow> x \<notin> fst ` set es"
  by (auto simp: adj_def filter_empty_conv)

lemma closed_rtrancl:
  assumes "(x, y) \<in> r\<^sup>*" "x \<in> C" "\<And>a b. a \<in> C \<Longrightarrow> (a, b) \<in> r \<Longrightarrow> b \<in> C"
  shows "y \<in> C"
  using assms by (induction rule: rtrancl_induct) auto

end
