(* ===== verification/Tf_Json.thy ===== *)
theory Tf_Json
  imports Tf_Prelude
begin

text \<open>
  The JSON values every part of the program passes around (\<open>serde_json::Value\<close>), the
  accessors the source uses on them, and the item type of \<open>data.rs\<close> together with its
  derived serialisation.  A number is one of the three cases of
  \<open>serde_json::Number\<close>: an unsigned 64-bit integer, a negative signed one, or a finite
  double given by its bit pattern.
\<close>

section \<open>Values\<close>

datatype number =
    PosInt "64 word"
  | NegInt "64 word"
  | Float "64 word"

datatype json =
    JNull
  | JBool bool
  | JNumber number
  | JString string
  | JArray "json list"
  | JObject "(string \<times> json) list"

type_synonym jmap = "(string, json) btree"

fun as_object :: "json \<Rightarrow> jmap option" where
  "as_object (JObject m) = Some m"
| "as_object _ = None"

fun as_array :: "json \<Rightarrow> json list option" where
  "as_array (JArray xs) = Some xs"
| "as_array _ = None"

fun as_str :: "json \<Rightarrow> string option" where
  "as_str (JString s) = Some s"
| "as_str _ = None"

fun as_bool :: "json \<Rightarrow> bool option" where
  "as_bool (JBool b) = Some b"
| "as_bool _ = None"

fun as_u64 :: "json \<Rightarrow> 64 word option" where
  "as_u64 (JNumber (PosInt n)) = Some n"
| "as_u64 _ = None"

definition is_object :: "json \<Rightarrow> bool" where
  "is_object v \<longleftrightarrow> as_object v \<noteq> None"

definition is_string :: "json \<Rightarrow> bool" where
  "is_string v \<longleftrightarrow> as_str v \<noteq> None"

fun is_number :: "json \<Rightarrow> bool" where
  "is_number (JNumber n) = True"
| "is_number _ = False"

definition is_boolean :: "json \<Rightarrow> bool" where
  "is_boolean v \<longleftrightarrow> as_bool v \<noteq> None"

text \<open>\<open>Value::get\<close> with a string index: only an object has members.\<close>

fun jget :: "string \<Rightarrow> json \<Rightarrow> json option" where
  "jget k (JObject m) = bt_get k m"
| "jget k _ = None"

definition jnat :: "nat \<Rightarrow> json" where
  "jnat n = JNumber (PosInt (of_nat n))"

definition jobj :: "(string \<times> json) list \<Rightarrow> json" where
  "jobj kvs = JObject (bt_from_list kvs)"

text \<open>Every object of a value is a sorted map.\<close>

fun json_wf :: "json \<Rightarrow> bool" where
  "json_wf (JArray xs) \<longleftrightarrow> (\<forall>x \<in> set xs. json_wf x)"
| "json_wf (JObject m) \<longleftrightarrow> bt_wf m \<and> (\<forall>kv \<in> set m. json_wf (snd kv))"
| "json_wf _ \<longleftrightarrow> True"

lemma json_wf_bt_get: "json_wf (JObject m) \<Longrightarrow> bt_get k m = Some v \<Longrightarrow> json_wf v"
  by (force dest: bt_get_Some_in_set)

lemma json_wf_jget: "json_wf v \<Longrightarrow> jget k v = Some w \<Longrightarrow> json_wf w"
  by (cases v) (auto dest: json_wf_bt_get [rotated] simp del: json_wf.simps(2))

lemma in_set_bt_insert: "kv \<in> set (bt_insert k v m) \<Longrightarrow> kv = (k, v) \<or> kv \<in> set m"
  by (induction m) (auto split: if_splits)

lemma json_wf_insert:
  "json_wf (JObject m) \<Longrightarrow> json_wf v \<Longrightarrow> json_wf (JObject (bt_insert k v m))"
  by (auto dest: in_set_bt_insert)

lemma bt_from_list_simps [simp]:
  "bt_from_list [] = []"
  "bt_from_list (kvs @ [kv]) = bt_insert (fst kv) (snd kv) (bt_from_list kvs)"
  by (simp_all add: bt_from_list_def case_prod_unfold)

lemma bt_wf_from_list [simp, intro]: "bt_wf (bt_from_list kvs)"
  by (induction kvs rule: rev_induct) simp_all

lemma json_wf_jobj: "(\<And>kv. kv \<in> set kvs \<Longrightarrow> json_wf (snd kv)) \<Longrightarrow> json_wf (jobj kvs)"
proof (induction kvs rule: rev_induct)
  case Nil
  then show ?case by (simp add: jobj_def)
next
  case (snoc kv kvs)
  then show ?case unfolding jobj_def bt_from_list_simps by (intro json_wf_insert) auto
qed

section \<open>Decimal rendering\<close>

text \<open>The decimal digits \<open>format!("{}", n)\<close> prints for an unsigned integer.\<close>

definition digit :: "nat \<Rightarrow> char" where
  "digit d = char_of (48 + d)"

fun show_nat :: "nat \<Rightarrow> string" where
  "show_nat n = (if n < 10 then [digit n] else show_nat (n div 10) @ [digit (n mod 10)])"

declare show_nat.simps [simp del]

fun read_nat :: "string \<Rightarrow> nat \<Rightarrow> nat" where
  "read_nat [] acc = acc"
| "read_nat (c # cs) acc = read_nat cs (10 * acc + (of_char c - 48))"

lemma read_nat_append: "read_nat (xs @ ys) acc = read_nat ys (read_nat xs acc)"
  by (induction xs arbitrary: acc) auto

lemma of_char_digit: "d < 10 \<Longrightarrow> (of_char (digit d) :: nat) = 48 + d"
  by (simp add: digit_def)

lemma read_show_nat: "read_nat (show_nat n) 0 = n"
proof (induction n rule: show_nat.induct)
  case (1 n)
  show ?case
  proof (cases "n < 10")
    case True
    then show ?thesis by (subst show_nat.simps) (simp add: of_char_digit)
  next
    case False
    with 1 show ?thesis
      by (subst show_nat.simps) (simp add: read_nat_append of_char_digit)
  qed
qed

lemma digit_eval:
  "digit 0 = CHR ''0''" "digit 1 = CHR ''1''" "digit 2 = CHR ''2''" "digit 3 = CHR ''3''"
  "digit 4 = CHR ''4''" "digit 5 = CHR ''5''" "digit 6 = CHR ''6''" "digit 7 = CHR ''7''"
  "digit 8 = CHR ''8''" "digit 9 = CHR ''9''"
  by code_simp+

lemmas show_nat_eval = show_nat.simps digit_eval digit_eval(2) [unfolded One_nat_def]

lemma show_nat_inject [simp]: "show_nat m = show_nat n \<longleftrightarrow> m = n"
  by (metis read_show_nat)

lemma show_nat_digits: "c \<in> set (show_nat n) \<Longrightarrow> \<exists>d < 10. c = digit d"
proof (induction n rule: show_nat.induct)
  case (1 n)
  show ?case
  proof (cases "n < 10")
    case True
    with "1.prems" show ?thesis by (subst (asm) show_nat.simps) auto
  next
    case False
    have "n mod 10 < 10" by simp
    then have "\<exists>d < 10. digit (n mod 10) = digit d" by blast
    with "1.prems" "1.IH" False show ?thesis by (subst (asm) show_nat.simps) auto
  qed
qed

lemma show_nat_no_hash: "CHR ''#'' \<notin> set (show_nat n)"
proof
  assume "CHR ''#'' \<in> set (show_nat n)"
  then obtain d where d: "d < 10" "CHR ''#'' = digit d" using show_nat_digits by blast
  then have "(of_char (CHR ''#'') :: nat) = 48 + d" by (simp add: of_char_digit)
  then show False by simp
qed

section \<open>Items\<close>

record item =
  item_json :: json
  item_binary :: "json option"
  item_paired :: "64 word option"

definition item_new :: "json \<Rightarrow> item" where
  "item_new v = \<lparr>item_json = v, item_binary = None, item_paired = None\<rparr>"

definition paired_with :: "nat \<Rightarrow> item \<Rightarrow> item" where
  "paired_with i it = it\<lparr>item_paired := Some (of_nat i)\<rparr>"

text \<open>The derived \<open>Serialize\<close>: absent options are skipped.\<close>

definition item_to_value :: "item \<Rightarrow> json" where
  "item_to_value it = jobj
    ([(''json'', item_json it)]
     @ (case item_binary it of None \<Rightarrow> [] | Some b \<Rightarrow> [(''binary'', b)])
     @ (case item_paired it of None \<Rightarrow> [] | Some p \<Rightarrow> [(''paired_item'', JNumber (PosInt p))]))"

text \<open>The derived \<open>Deserialize\<close>.  An \<open>Option\<close> field reads \<open>null\<close> as absent, an unknown key
  is ignored, and a sequence is read positionally with the trailing defaulted fields
  optional, as serde's derive does for every struct.\<close>

fun opt_value :: "json option \<Rightarrow> json option" where
  "opt_value (Some JNull) = None"
| "opt_value v = v"

fun opt_usize :: "json option \<Rightarrow> 64 word option option" where
  "opt_usize None = Some None"
| "opt_usize (Some JNull) = Some None"
| "opt_usize (Some v) = map_option Some (as_u64 v)"

definition mk_item :: "json \<Rightarrow> json option \<Rightarrow> json option \<Rightarrow> item option" where
  "mk_item v b p = map_option
     (\<lambda>p'. \<lparr>item_json = v, item_binary = opt_value b, item_paired = p'\<rparr>) (opt_usize p)"

fun item_from_value :: "json \<Rightarrow> item option" where
  "item_from_value (JObject m) =
     (case bt_get ''json'' m of
        None \<Rightarrow> None
      | Some v \<Rightarrow> mk_item v (bt_get ''binary'' m) (bt_get ''paired_item'' m))"
| "item_from_value (JArray [v]) = mk_item v None None"
| "item_from_value (JArray [v, b]) = mk_item v (Some b) None"
| "item_from_value (JArray [v, b, p]) = mk_item v (Some b) (Some p)"
| "item_from_value _ = None"

definition items_to_value :: "item list \<Rightarrow> json" where
  "items_to_value its = JArray (map item_to_value its)"

definition items_from_values :: "json list \<Rightarrow> item list" where
  "items_from_values vs = List.map_filter item_from_value vs"

lemma opt_value_Some: "v \<noteq> JNull \<Longrightarrow> opt_value (Some v) = Some v"
  by (cases v) simp_all

lemma item_roundtrip:
  assumes "item_binary it \<noteq> Some JNull"
  shows "item_from_value (item_to_value it) = Some it"
proof (cases it)
  case (fields v b p)
  with assms show ?thesis
    by (cases b; cases p)
       (auto simp: item_to_value_def jobj_def bt_from_list_def mk_item_def opt_value_Some)
qed

definition item_ok :: "item \<Rightarrow> bool" where
  "item_ok it \<longleftrightarrow> item_binary it \<noteq> Some JNull"

lemma items_roundtrip:
  assumes "\<And>it. it \<in> set its \<Longrightarrow> item_ok it"
  shows "items_from_values (map item_to_value its) = its"
  using assms
  by (induction its)
     (auto simp: items_from_values_def List.map_filter_def item_roundtrip item_ok_def)

end
