(* ===== verification/Tf_Command.thy ===== *)
theory Tf_Command
  imports Tf_Json "HOL-Library.Multiset"
begin

text \<open>
  What a node of the state-graph runtime returns, and how updates are folded:
  \<open>graph/command/\<close> (results, commands, routing targets, interrupts), \<open>graph/error.rs\<close> and
  the reducers of \<open>graph/reducer/\<close>.
\<close>

section \<open>Errors\<close>

datatype graph_error =
    MissingStart
  | MissingNode string
  | MissingEdgeTarget string
  | MissingRoute string string
  | RecursionLimit nat
  | SubAgentDepth nat
  | NodeVisitLimit string nat
  | Validation string
  | Timeout string
  | Cancelled
  | GraphErr string
  | Interrupted string string
  | InvalidConcurrentUpdate string
  | CheckpointErr string
  | ResumeErr string
  | Serialization string

section \<open>Results and commands\<close>

datatype route_target =
    RNode string
  | RSend string json

fun target_node :: "route_target \<Rightarrow> string" where
  "target_node (RNode n) = n"
| "target_node (RSend n _) = n"

fun target_send_arg :: "route_target \<Rightarrow> json option" where
  "target_send_arg (RNode _) = None"
| "target_send_arg (RSend _ arg) = Some arg"

record 'u command =
  cmd_update :: "'u option"
  cmd_goto :: "route_target list"
  cmd_resume :: "json option"

record interrupt =
  interrupt_id :: string
  interrupt_node :: string
  interrupt_payload :: json

datatype 'u node_result =
    NUpdate 'u
  | NCommand "'u command"
  | NInterrupt interrupt

definition command_new :: "'u command" where
  "command_new = \<lparr>cmd_update = None, cmd_goto = [], cmd_resume = None\<rparr>"

definition command_goto :: "string list \<Rightarrow> 'u command" where
  "command_goto ts = command_new\<lparr>cmd_goto := map RNode ts\<rparr>"

definition command_send :: "(string \<times> json) list \<Rightarrow> 'u command" where
  "command_send sends = command_new\<lparr>cmd_goto := map (\<lambda>(n, arg). RSend n arg) sends\<rparr>"

definition command_route :: "route_target list \<Rightarrow> 'u command" where
  "command_route ts = command_new\<lparr>cmd_goto := ts\<rparr>"

definition command_update :: "'u \<Rightarrow> 'u command" where
  "command_update u = command_new\<lparr>cmd_update := Some u\<rparr>"

definition command_resume :: "json \<Rightarrow> 'u command" where
  "command_resume v = command_new\<lparr>cmd_resume := Some v\<rparr>"

definition with_update :: "'u \<Rightarrow> 'u command \<Rightarrow> 'u command" where
  "with_update u c = c\<lparr>cmd_update := Some u\<rparr>"

definition with_goto :: "string list \<Rightarrow> 'u command \<Rightarrow> 'u command" where
  "with_goto ts c = c\<lparr>cmd_goto := cmd_goto c @ map RNode ts\<rparr>"

definition with_sends :: "(string \<times> json) list \<Rightarrow> 'u command \<Rightarrow> 'u command" where
  "with_sends sends c = c\<lparr>cmd_goto := cmd_goto c @ map (\<lambda>(n, arg). RSend n arg) sends\<rparr>"

definition with_resume :: "json \<Rightarrow> 'u command \<Rightarrow> 'u command" where
  "with_resume v c = c\<lparr>cmd_resume := Some v\<rparr>"

section \<open>Reducers\<close>

text \<open>A state reducer merges one update into the committed state, or fails.\<close>

type_synonym ('s, 'u) reducer = "'s \<Rightarrow> 'u \<Rightarrow> graph_error + 's"

definition overwrite_reduce :: "'a \<Rightarrow> 'a \<Rightarrow> graph_error + 'a" where
  "overwrite_reduce current upd = Inr upd"

definition append_reduce :: "'a list \<Rightarrow> 'a list \<Rightarrow> graph_error + 'a list" where
  "append_reduce current upd = Inr (current @ upd)"

definition set_union_reduce :: "'a list \<Rightarrow> 'a list \<Rightarrow> graph_error + 'a list" where
  "set_union_reduce current upd = Inr (fold hs_insert upd current)"

definition min_reduce :: "'a::ord \<Rightarrow> 'a \<Rightarrow> graph_error + 'a" where
  "min_reduce current upd = Inr (if upd < current then upd else current)"

definition max_reduce :: "'a::ord \<Rightarrow> 'a \<Rightarrow> graph_error + 'a" where
  "max_reduce current upd = Inr (if current < upd then upd else current)"

text \<open>Folding a list of updates in order, stopping at the first failure: what the executor
  does with the branch updates of one super-step.\<close>

fun reduce_all :: "('s, 'u) reducer \<Rightarrow> 's \<Rightarrow> 'u list \<Rightarrow> graph_error + 's" where
  "reduce_all red s [] = Inr s"
| "reduce_all red s (u # us) = (case red s u of Inl e \<Rightarrow> Inl e | Inr s' \<Rightarrow> reduce_all red s' us)"

lemma reduce_all_append:
  "reduce_all red s (us @ vs) =
    (case reduce_all red s us of Inl e \<Rightarrow> Inl e | Inr s' \<Rightarrow> reduce_all red s' vs)"
  by (induction us arbitrary: s) (auto split: sum.splits)

text \<open>A reducer whose updates commute gives a super-step whose result does not depend on the
  order in which its branches are folded.\<close>

locale commuting_reducer =
  fixes red :: "('s, 'u) reducer" and good :: "'u \<Rightarrow> bool" and ok :: "'u \<Rightarrow> 'u \<Rightarrow> bool"
    and inv :: "'s \<Rightarrow> bool"
  assumes total: "inv s \<Longrightarrow> good u \<Longrightarrow> \<exists>s'. red s u = Inr s' \<and> inv s'"
    and commute: "inv s \<Longrightarrow> good u \<Longrightarrow> good v \<Longrightarrow> ok u v \<Longrightarrow>
      reduce_all red s [u, v] = reduce_all red s [v, u]"
begin

lemma reduce_all_total:
  "inv s \<Longrightarrow> \<forall>u \<in> set us. good u \<Longrightarrow> \<exists>s'. reduce_all red s us = Inr s' \<and> inv s'"
proof (induction us arbitrary: s)
  case (Cons u us)
  from total [OF Cons.prems(1), of u] Cons.prems(2) obtain s' where "red s u = Inr s'" "inv s'" by auto
  with Cons show ?case by simp
qed auto

lemma reduce_all_move:
  assumes "inv s" "good u" "\<And>v. v \<in> set us \<Longrightarrow> good v \<and> ok u v"
  shows "reduce_all red s (u # us @ vs) = reduce_all red s (us @ u # vs)"
  using assms(1,3)
proof (induction us arbitrary: s)
  case (Cons v us)
  have v: "good v" "ok u v" using Cons.prems(2) by auto
  obtain s' where s': "red s v = Inr s'" "inv s'" using total [OF Cons.prems(1) v(1)] by blast
  have "reduce_all red s ([u, v] @ us @ vs) = reduce_all red s ([v, u] @ us @ vs)"
    unfolding reduce_all_append commute [OF Cons.prems(1) assms(2) v] ..
  also have "\<dots> = reduce_all red s' (u # us @ vs)" by (simp add: s'(1))
  also have "\<dots> = reduce_all red s' (us @ u # vs)" using Cons s' by simp
  finally show ?case by (simp add: s'(1))
qed simp

lemma reduce_all_perm:
  assumes "inv s" "mset us = mset vs" "\<forall>u \<in> set us. good u" "pairwise ok (set us)" "distinct us"
  shows "reduce_all red s us = reduce_all red s vs"
  using assms
proof (induction us arbitrary: s vs)
  case (Cons u us)
  from Cons.prems(2) have "u \<in> set vs" by (metis list.set_intros(1) set_mset_mset)
  then obtain p q where vs: "vs = p @ u # q" by (auto simp: in_set_conv_decomp)
  have mset: "mset us = mset (p @ q)" using Cons.prems(2) by (simp add: vs)
  have "good v \<and> ok u v" if "v \<in> set p" for v
  proof -
    have "v \<in> set us" using mset that by (metis UnCI set_append set_mset_mset)
    with Cons.prems(3-5) show ?thesis by (auto simp: pairwise_def)
  qed
  then have move: "reduce_all red s (u # p @ q) = reduce_all red s vs"
    unfolding vs by (intro reduce_all_move [OF Cons.prems(1)]) (use Cons.prems(3) in auto)
  obtain s' where s': "red s u = Inr s'" "inv s'" using total [OF Cons.prems(1), of u] Cons.prems(3) by auto
  have "pairwise ok (set us)" "distinct us" "\<forall>u \<in> set us. good u"
    using Cons.prems(3-5) by (auto simp: pairwise_insert)
  with Cons.IH [OF s'(2) mset] have "reduce_all red s' us = reduce_all red s' (p @ q)" by simp
  then have "reduce_all red s (u # us) = reduce_all red s (u # p @ q)" by (simp add: s'(1))
  with move show ?case by simp
qed simp

end

end
