(* ===== verification/Tf_Recursion.thy ===== *)
theory Tf_Recursion
  imports Tf_Command
begin

text \<open>
  The recursion limits of the runtime, \<open>graph/recursion/types.rs\<close>: the frame stack of nested
  runs, the super-step cap and the per-node visit cap.  Counts are \<open>nat\<close>; they only ever
  count up from zero by one and are compared with a configured limit.
\<close>

section \<open>State and operations\<close>

record recursion_frame =
  fr_graph_id :: string
  fr_node_id :: "string option"
  fr_run_id :: string
  fr_task_id :: "string option"
  fr_namespace :: "string list"
  fr_depth :: nat
  fr_parent :: "string option"

record recursion_policy =
  max_depth :: nat
  max_visits_per_node :: "nat option"
  max_total_steps :: nat

definition default_policy :: recursion_policy where
  "default_policy = \<lparr>max_depth = 25, max_visits_per_node = None, max_total_steps = 1000\<rparr>"

record recursion_stack =
  rs_frames :: "recursion_frame list"
  rs_policy :: recursion_policy

definition stack_new :: "recursion_policy \<Rightarrow> recursion_stack" where
  "stack_new p = \<lparr>rs_frames = [], rs_policy = p\<rparr>"

definition stack_with_frames ::
  "recursion_frame list \<Rightarrow> recursion_policy \<Rightarrow> recursion_stack" where
  "stack_with_frames fs p = \<lparr>rs_frames = fs, rs_policy = p\<rparr>"

definition stack_depth :: "recursion_stack \<Rightarrow> nat" where
  "stack_depth st = length (rs_frames st)"

definition stack_push :: "recursion_frame \<Rightarrow> recursion_stack \<Rightarrow> graph_error + recursion_stack" where
  "stack_push fr st =
    (if max_depth (rs_policy st) < length (rs_frames st) + 1
     then Inl (SubAgentDepth (max_depth (rs_policy st)))
     else Inr (st\<lparr>rs_frames := rs_frames st @ [fr]\<rparr>))"

definition stack_pop :: "recursion_stack \<Rightarrow> recursion_frame option \<times> recursion_stack" where
  "stack_pop st =
    (if rs_frames st = [] then (None, st)
     else (Some (last (rs_frames st)), st\<lparr>rs_frames := butlast (rs_frames st)\<rparr>))"

definition check_total_steps :: "recursion_stack \<Rightarrow> nat \<Rightarrow> graph_error + unit" where
  "check_total_steps st steps =
    (if max_total_steps (rs_policy st) \<le> steps
     then Inl (RecursionLimit (max_total_steps (rs_policy st))) else Inr ())"

type_synonym visit_counts = "string \<Rightarrow> nat option"

definition record_node_visit ::
  "recursion_stack \<Rightarrow> string \<Rightarrow> visit_counts \<Rightarrow> (graph_error + unit) \<times> visit_counts" where
  "record_node_visit st n counts =
    (case max_visits_per_node (rs_policy st) of
       None \<Rightarrow> (Inr (), counts)
     | Some m \<Rightarrow>
         let count = (case counts n of None \<Rightarrow> 0 | Some c \<Rightarrow> c) + 1;
             counts' = counts(n \<mapsto> count)
         in (if m < count then Inl (NodeVisitLimit n m) else Inr (), counts'))"

text \<open>Recording the visits of a whole super-step, in order, stopping at the first refusal.\<close>

fun record_visits ::
  "recursion_stack \<Rightarrow> string list \<Rightarrow> visit_counts \<Rightarrow> (graph_error + unit) \<times> visit_counts" where
  "record_visits st [] counts = (Inr (), counts)"
| "record_visits st (n # ns) counts =
    (case record_node_visit st n counts of
       (Inl e, counts') \<Rightarrow> (Inl e, counts')
     | (Inr _, counts') \<Rightarrow> record_visits st ns counts')"

section \<open>The bounds\<close>

text \<open>A push either fails with the depth error at exactly the
  configured depth and leaves the stack alone, or yields a stack no deeper than
  \<open>max_depth\<close> from which the next pop returns the pushed frame and the original stack.\<close>

theorem push_pop_bounded:
  "case stack_push fr st of
     Inl e \<Rightarrow> e = SubAgentDepth (max_depth (rs_policy st)) \<and> max_depth (rs_policy st) \<le> stack_depth st
   | Inr st' \<Rightarrow> stack_depth st' = stack_depth st + 1 \<and> stack_depth st' \<le> max_depth (rs_policy st)
       \<and> stack_pop st' = (Some fr, st)"
  by (auto simp: stack_push_def stack_depth_def stack_pop_def)

definition visits :: "visit_counts \<Rightarrow> string \<Rightarrow> nat" where
  "visits counts n = (case counts n of None \<Rightarrow> 0 | Some c \<Rightarrow> c)"

lemma visits_empty [simp]: "visits (\<lambda>_. None) n = 0"
  by (simp add: visits_def)

lemma record_node_visit_limited:
  "max_visits_per_node (rs_policy st) = Some m \<Longrightarrow>
    record_node_visit st n counts =
      (if m < visits counts n + 1 then Inl (NodeVisitLimit n m) else Inr (),
       counts(n \<mapsto> visits counts n + 1))"
  by (simp add: record_node_visit_def visits_def Let_def)

lemma visits_upd [simp]:
  "visits (counts(n \<mapsto> c)) k = (if k = n then c else visits counts k)"
  "visits (\<lambda>a. if a = n then Some c else counts a) k = (if k = n then c else visits counts k)"
  by (simp_all add: visits_def)

lemma record_visits_count:
  assumes "max_visits_per_node (rs_policy st) = Some m"
    and "record_visits st ns counts = (Inr (), counts')"
  shows "visits counts' n = visits counts n + count_list ns n
    \<and> (n \<in> set ns \<longrightarrow> visits counts' n \<le> m)"
  using assms(2)
proof (induction ns arbitrary: counts)
  case (Cons k ks)
  from Cons.prems assms(1) have step: "record_visits st ks (counts(k \<mapsto> visits counts k + 1)) = (Inr (), counts')"
    and le: "visits counts k + 1 \<le> m"
    by (auto simp: record_node_visit_limited split: if_splits)
  from Cons.IH [OF step] le show ?case
    by (cases "n = k"; cases "n \<in> set ks") (auto simp: count_list_0_iff)
qed simp

lemma record_visits_unlimited:
  "max_visits_per_node (rs_policy st) = None \<Longrightarrow> record_visits st ns counts = (Inr (), counts)"
  by (induction ns) (simp_all add: record_node_visit_def)

lemma record_visits_iff:
  assumes "max_visits_per_node (rs_policy st) = Some m"
  shows "fst (record_visits st ns counts) = Inr () \<longleftrightarrow>
    (\<forall>n \<in> set ns. visits counts n + count_list ns n \<le> m)"
proof (induction ns arbitrary: counts)
  case (Cons k ks)
  have rec: "record_node_visit st k counts =
      (if m < visits counts k + 1 then Inl (NodeVisitLimit k m) else Inr (),
       counts(k \<mapsto> visits counts k + 1))"
    by (rule record_node_visit_limited [OF assms])
  show ?case
  proof (cases "m < visits counts k + 1")
    case True
    then show ?thesis by (auto simp: rec)
  next
    case False
    have "fst (record_visits st (k # ks) counts) = Inr () \<longleftrightarrow>
        (\<forall>n \<in> set ks. visits (counts(k \<mapsto> visits counts k + 1)) n + count_list ks n \<le> m)"
      using False by (simp add: rec Cons.IH)
    also have "\<dots> \<longleftrightarrow> (\<forall>n \<in> set (k # ks). visits counts n + count_list (k # ks) n \<le> m)"
      using False by (cases "k \<in> set ks") (auto simp: count_list_0_iff)
    finally show ?thesis .
  qed
qed simp

end
