(* ===== verification/Tf_Builder.thy ===== *)
theory Tf_Builder
  imports Tf_Recursion
begin

text \<open>
  The graph builder of the runtime, \<open>graph/builder/\<close>: the mutable topology, every builder
  operation, and \<open>compile\<close>, which checks the topology and freezes it into a compiled graph
  (\<open>graph/compiled/\<close>).  A node handler together with its timeout wrapper is a function of
  the state snapshot and the node context; the attached journal, event sink and status
  store only observe a run and have no field here.
\<close>

section \<open>Checks in sequence\<close>

fun for_each :: "('a \<Rightarrow> 'e + unit) \<Rightarrow> 'a list \<Rightarrow> 'e + unit" where
  "for_each f [] = Inr ()"
| "for_each f (x # xs) = (case f x of Inl e \<Rightarrow> Inl e | Inr _ \<Rightarrow> for_each f xs)"

lemma for_each_ok: "for_each f xs = Inr () \<longleftrightarrow> (\<forall>x \<in> set xs. f x = Inr ())"
  by (induction xs) (auto split: sum.split)

fun and_then :: "'e + unit \<Rightarrow> 'e + 'a \<Rightarrow> 'e + 'a" where
  "and_then (Inl e) r = Inl e"
| "and_then (Inr _) r = r"

lemma and_then_ok: "and_then c r = Inr x \<longleftrightarrow> c = Inr () \<and> r = Inr x"
  by (cases c) auto

definition reject_if :: "bool \<Rightarrow> 'e \<Rightarrow> 'e + unit" where
  "reject_if b e = (if b then Inl e else Inr ())"

lemma reject_if_ok [simp]: "reject_if b e = Inr () \<longleftrightarrow> \<not> b"
  by (simp add: reject_if_def)

section \<open>State\<close>

abbreviation START :: string where "START \<equiv> ''__start__''"
abbreviation END :: string where "END \<equiv> ''__end__''"

record fork_id =
  fork_branch_index :: nat
  fork_node :: string

record node_context =
  ctx_node_id :: string
  ctx_run_id :: string
  ctx_thread_id :: "string option"
  ctx_step :: nat
  ctx_resume :: "json option"
  ctx_fork :: "fork_id option"
  ctx_send_arg :: "json option"
  ctx_root_run_id :: "string option"
  ctx_frames :: "recursion_frame list"

type_synonym ('s, 'u) handler = "'s \<Rightarrow> node_context \<Rightarrow> graph_error + 'u node_result"

record node_meta =
  nm_kind :: "string option"
  nm_interrupt :: bool
  nm_deferred :: bool
  nm_subgraph :: bool
  command_destinations :: "string list"
  command_fanout :: bool
  nm_metadata :: "(string, string) btree"

definition default_meta :: node_meta where
  "default_meta = \<lparr>nm_kind = None, nm_interrupt = False, nm_deferred = False,
     nm_subgraph = False, command_destinations = [], command_fanout = False, nm_metadata = []\<rparr>"

record 's branch =
  router :: "'s \<Rightarrow> string"
  routes :: "(string \<times> string) list"

record barrier_relief =
  relief_source :: string
  relief_node :: string
  barrier_node :: string

record graph_defaults =
  gd_recursion_limit :: "nat option"
  gd_parallel :: "bool option"
  gd_max_concurrency :: "nat option"
  gd_node_timeout :: "nat option"

record ('s, 'u) graph_builder =
  gb_graph_id :: string
  gb_name :: "string option"
  gb_nodes :: "(string \<times> ('s, 'u) handler) list"
  gb_edges :: "(string \<times> string) list"
  gb_branches :: "(string \<times> 's branch) list"
  gb_command_nodes :: "string hset"
  gb_waiting :: "(string \<times> string hset) list"
  gb_barrier_reliefs :: "barrier_relief list"
  gb_reducer :: "('s, 'u) reducer option"
  gb_recursion_limit :: nat
  gb_parallel :: bool
  gb_max_concurrency :: "nat option"
  gb_node_concurrency :: "string \<Rightarrow> nat option"
  gb_node_timeout :: "nat option"
  gb_node_meta :: "(string \<times> node_meta) list"

datatype durability_mode = DSync | DAsync | DExit

record ('s, 'u) compiled_graph =
  cg_graph_id :: string
  cg_name :: "string option"
  cg_nodes :: "(string \<times> ('s, 'u) handler) list"
  cg_edges :: "(string \<times> string) list"
  cg_branches :: "(string \<times> 's branch) list"
  cg_command_nodes :: "string hset"
  cg_waiting :: "(string \<times> string hset) list"
  cg_barrier_reliefs :: "barrier_relief list"
  cg_node_meta :: "(string \<times> node_meta) list"
  cg_entry :: string
  cg_reducer :: "('s, 'u) reducer"
  cg_recursion_limit :: nat
  cg_recursion_policy :: recursion_policy
  cg_recursion_frames :: "recursion_frame list"
  cg_recursion_node :: "string option"
  cg_checkpointer :: bool
  cg_namespace :: "string list"
  cg_parallel :: bool
  cg_max_concurrency :: "nat option"
  cg_node_concurrency :: "string \<Rightarrow> nat option"
  cg_node_timeout :: "nat option"
  cg_run_deadline :: "nat option"
  cg_durability :: durability_mode

section \<open>Builder operations\<close>

text \<open>\<open>new\<close> takes the generated graph id, drawn from a process-wide counter, as an argument.\<close>

definition builder_new :: "string \<Rightarrow> ('s, 'u) graph_builder" where
  "builder_new gid = \<lparr>gb_graph_id = gid, gb_name = None, gb_nodes = [], gb_edges = [],
     gb_branches = [], gb_command_nodes = [], gb_waiting = [], gb_barrier_reliefs = [],
     gb_reducer = None, gb_recursion_limit = 50, gb_parallel = False,
     gb_max_concurrency = None, gb_node_concurrency = (\<lambda>_. None), gb_node_timeout = None,
     gb_node_meta = []\<rparr>"

definition set_defaults :: "graph_defaults \<Rightarrow> ('s, 'u) graph_builder \<Rightarrow> ('s, 'u) graph_builder" where
  "set_defaults d b =
    b\<lparr>gb_recursion_limit :=
        (case gd_recursion_limit d of Some l \<Rightarrow> l | None \<Rightarrow> gb_recursion_limit b),
      gb_parallel := (case gd_parallel d of Some p \<Rightarrow> p | None \<Rightarrow> gb_parallel b),
      gb_max_concurrency :=
        (case gd_max_concurrency d of Some m \<Rightarrow> Some m | None \<Rightarrow> gb_max_concurrency b),
      gb_node_timeout :=
        (case gd_node_timeout d of Some t \<Rightarrow> Some t | None \<Rightarrow> gb_node_timeout b)\<rparr>"

definition with_max_concurrency :: "nat \<Rightarrow> ('s, 'u) graph_builder \<Rightarrow> ('s, 'u) graph_builder" where
  "with_max_concurrency n b = b\<lparr>gb_max_concurrency := (if n > 0 then Some n else None)\<rparr>"

definition with_node_concurrency ::
  "string \<Rightarrow> nat \<Rightarrow> ('s, 'u) graph_builder \<Rightarrow> ('s, 'u) graph_builder" where
  "with_node_concurrency nd n b =
    b\<lparr>gb_node_concurrency := (gb_node_concurrency b)(nd := (if n = 0 then None else Some n))\<rparr>"

definition with_node_timeout :: "nat \<Rightarrow> ('s, 'u) graph_builder \<Rightarrow> ('s, 'u) graph_builder" where
  "with_node_timeout t b = b\<lparr>gb_node_timeout := Some t\<rparr>"

definition with_parallel :: "bool \<Rightarrow> ('s, 'u) graph_builder \<Rightarrow> ('s, 'u) graph_builder" where
  "with_parallel p b = b\<lparr>gb_parallel := p\<rparr>"

definition with_graph_id :: "string \<Rightarrow> ('s, 'u) graph_builder \<Rightarrow> ('s, 'u) graph_builder" where
  "with_graph_id gid b = b\<lparr>gb_graph_id := gid\<rparr>"

definition with_name :: "string \<Rightarrow> ('s, 'u) graph_builder \<Rightarrow> ('s, 'u) graph_builder" where
  "with_name nm b = b\<lparr>gb_name := Some nm\<rparr>"

definition with_recursion_limit :: "nat \<Rightarrow> ('s, 'u) graph_builder \<Rightarrow> ('s, 'u) graph_builder" where
  "with_recursion_limit l b = b\<lparr>gb_recursion_limit := l\<rparr>"

definition set_reducer ::
  "('s, 'u) reducer \<Rightarrow> ('s, 'u) graph_builder \<Rightarrow> ('s, 'u) graph_builder" where
  "set_reducer r b = b\<lparr>gb_reducer := Some r\<rparr>"

definition add_node ::
  "string \<Rightarrow> ('s, 'u) handler \<Rightarrow> ('s, 'u) graph_builder \<Rightarrow> ('s, 'u) graph_builder" where
  "add_node nd h b = b\<lparr>gb_nodes := hm_insert nd h (gb_nodes b)\<rparr>"

definition add_edge ::
  "string \<Rightarrow> string \<Rightarrow> ('s, 'u) graph_builder \<Rightarrow> ('s, 'u) graph_builder" where
  "add_edge src tgt b = b\<lparr>gb_edges := hm_insert src tgt (gb_edges b)\<rparr>"

fun add_sequence :: "string list \<Rightarrow> ('s, 'u) graph_builder \<Rightarrow> ('s, 'u) graph_builder" where
  "add_sequence (x # y # ns) b = add_sequence (y # ns) (add_edge x y b)"
| "add_sequence _ b = b"

definition add_waiting_edge ::
  "string \<Rightarrow> string \<Rightarrow> ('s, 'u) graph_builder \<Rightarrow> ('s, 'u) graph_builder" where
  "add_waiting_edge src tgt b =
    b\<lparr>gb_edges := hm_insert src tgt (gb_edges b),
      gb_waiting := hm_insert tgt
        (hs_insert src (case bt_get tgt (gb_waiting b) of Some ps \<Rightarrow> ps | None \<Rightarrow> []))
        (gb_waiting b)\<rparr>"

definition add_barrier_relief ::
  "string \<Rightarrow> string \<Rightarrow> string \<Rightarrow> ('s, 'u) graph_builder \<Rightarrow> ('s, 'u) graph_builder" where
  "add_barrier_relief src relief barrier b =
    b\<lparr>gb_barrier_reliefs := gb_barrier_reliefs b @
        [\<lparr>relief_source = src, relief_node = relief, barrier_node = barrier\<rparr>]\<rparr>"

definition set_entry :: "string \<Rightarrow> ('s, 'u) graph_builder \<Rightarrow> ('s, 'u) graph_builder" where
  "set_entry nd b = add_edge START nd b"

definition set_finish :: "string \<Rightarrow> ('s, 'u) graph_builder \<Rightarrow> ('s, 'u) graph_builder" where
  "set_finish nd b = add_edge nd END b"

definition add_conditional_edges ::
  "string \<Rightarrow> ('s \<Rightarrow> string) \<Rightarrow> (string \<times> string) list \<Rightarrow>
    ('s, 'u) graph_builder \<Rightarrow> ('s, 'u) graph_builder" where
  "add_conditional_edges src rt table b =
    b\<lparr>gb_branches := hm_insert src
        \<lparr>router = rt, routes = fold (\<lambda>(k, v). hm_insert k v) table []\<rparr> (gb_branches b)\<rparr>"

definition mark_command_routing ::
  "string \<Rightarrow> ('s, 'u) graph_builder \<Rightarrow> ('s, 'u) graph_builder" where
  "mark_command_routing nd b = b\<lparr>gb_command_nodes := hs_insert nd (gb_command_nodes b)\<rparr>"

definition edit_meta ::
  "string \<Rightarrow> (node_meta \<Rightarrow> node_meta) \<Rightarrow> ('s, 'u) graph_builder \<Rightarrow> ('s, 'u) graph_builder" where
  "edit_meta nd f b =
    b\<lparr>gb_node_meta := hm_insert nd
        (f (case bt_get nd (gb_node_meta b) of Some m \<Rightarrow> m | None \<Rightarrow> default_meta))
        (gb_node_meta b)\<rparr>"

definition with_command_destinations ::
  "string \<Rightarrow> string list \<Rightarrow> ('s, 'u) graph_builder \<Rightarrow> ('s, 'u) graph_builder" where
  "with_command_destinations nd dests b =
    edit_meta nd (\<lambda>m. m\<lparr>command_destinations := dests\<rparr>) (mark_command_routing nd b)"

definition with_unconditional_fanout ::
  "string \<Rightarrow> string list \<Rightarrow> ('s, 'u) graph_builder \<Rightarrow> ('s, 'u) graph_builder" where
  "with_unconditional_fanout nd dests b =
    edit_meta nd (\<lambda>m. m\<lparr>command_fanout := True\<rparr>) (with_command_destinations nd dests b)"

definition with_node_kind ::
  "string \<Rightarrow> string \<Rightarrow> ('s, 'u) graph_builder \<Rightarrow> ('s, 'u) graph_builder" where
  "with_node_kind nd k b = edit_meta nd (\<lambda>m. m\<lparr>nm_kind := Some k\<rparr>) b"

definition with_node_metadata ::
  "string \<Rightarrow> string \<Rightarrow> string \<Rightarrow> ('s, 'u) graph_builder \<Rightarrow> ('s, 'u) graph_builder" where
  "with_node_metadata nd k v b =
    edit_meta nd (\<lambda>m. m\<lparr>nm_metadata := bt_insert k v (nm_metadata m)\<rparr>) b"

definition mark_subgraph :: "string \<Rightarrow> ('s, 'u) graph_builder \<Rightarrow> ('s, 'u) graph_builder" where
  "mark_subgraph nd b = edit_meta nd (\<lambda>m. m\<lparr>nm_subgraph := True\<rparr>) b"

definition mark_interrupt :: "string \<Rightarrow> ('s, 'u) graph_builder \<Rightarrow> ('s, 'u) graph_builder" where
  "mark_interrupt nd b = edit_meta nd (\<lambda>m. m\<lparr>nm_interrupt := True\<rparr>) b"

definition mark_deferred :: "string \<Rightarrow> ('s, 'u) graph_builder \<Rightarrow> ('s, 'u) graph_builder" where
  "mark_deferred nd b = edit_meta nd (\<lambda>m. m\<lparr>nm_deferred := True\<rparr>) b"

section \<open>Compilation\<close>

definition require_node :: "('s, 'u) graph_builder \<Rightarrow> string \<Rightarrow> graph_error + unit" where
  "require_node b n = reject_if (bt_get n (gb_nodes b) = None) (MissingNode n)"

definition check_edge :: "('s, 'u) graph_builder \<Rightarrow> string \<times> string \<Rightarrow> graph_error + unit" where
  "check_edge b e = (let (src, tgt) = e in
    and_then (reject_if (tgt = START) (Validation ''START cannot be an edge target'')) (
    and_then (reject_if (src = END) (Validation ''END cannot be an edge source'')) (
    and_then (if src = START then Inr () else require_node b src)
             (if tgt = END then Inr () else require_node b tgt))))"

definition check_branch :: "('s, 'u) graph_builder \<Rightarrow> string \<times> 's branch \<Rightarrow> graph_error + unit" where
  "check_branch b e = (let (src, br) = e in
    and_then (require_node b src) (
    and_then (reject_if (bt_get src (gb_edges b) \<noteq> None) (Validation
      (''node `'' @ src @ ''` has both a static edge and conditional edges'')))
    (for_each (\<lambda>(_, tgt). if tgt = END then Inr () else require_node b tgt) (routes br))))"

definition check_waiting :: "('s, 'u) graph_builder \<Rightarrow> string \<times> string hset \<Rightarrow> graph_error + unit" where
  "check_waiting b e = (let (tgt, srcs) = e in
    and_then (require_node b tgt) (for_each (require_node b) srcs))"

definition check_command_node :: "('s, 'u) graph_builder \<Rightarrow> string \<Rightarrow> graph_error + unit" where
  "check_command_node b n =
    and_then (require_node b n)
      (reject_if (bt_get n (gb_edges b) \<noteq> None \<or> bt_get n (gb_branches b) \<noteq> None) (Validation
        (''node `'' @ n @ ''` declares command routing but also has static/conditional edges'')))"

definition from_parts ::
  "('s, 'u) graph_builder \<Rightarrow> string \<Rightarrow> ('s, 'u) reducer \<Rightarrow> ('s, 'u) compiled_graph" where
  "from_parts b entry red = \<lparr>cg_graph_id = gb_graph_id b, cg_name = gb_name b,
     cg_nodes = gb_nodes b, cg_edges = gb_edges b, cg_branches = gb_branches b,
     cg_command_nodes = gb_command_nodes b, cg_waiting = gb_waiting b,
     cg_barrier_reliefs = gb_barrier_reliefs b, cg_node_meta = gb_node_meta b,
     cg_entry = entry, cg_reducer = red, cg_recursion_limit = gb_recursion_limit b,
     cg_recursion_policy = default_policy, cg_recursion_frames = [], cg_recursion_node = None,
     cg_checkpointer = False, cg_namespace = [], cg_parallel = gb_parallel b,
     cg_max_concurrency = gb_max_concurrency b, cg_node_concurrency = gb_node_concurrency b,
     cg_node_timeout = gb_node_timeout b, cg_run_deadline = None, cg_durability = DSync\<rparr>"

definition compile :: "('s, 'u) graph_builder \<Rightarrow> graph_error + ('s, 'u) compiled_graph" where
  "compile b = (case gb_reducer b of
     None \<Rightarrow> Inl (Validation
       ''no state reducer set; call set_reducer (or GraphBuilder::overwrite)'')
   | Some red \<Rightarrow> (case bt_get START (gb_edges b) of
       None \<Rightarrow> Inl MissingStart
     | Some entry \<Rightarrow>
         and_then (reject_if (entry = END) (Validation ''START cannot route directly to END'')) (
         and_then (require_node b entry) (
         and_then (for_each (check_edge b) (gb_edges b)) (
         and_then (for_each (check_branch b) (gb_branches b)) (
         and_then (for_each (check_waiting b) (gb_waiting b)) (
         and_then (for_each (check_command_node b) (gb_command_nodes b))
           (Inr (from_parts b entry red)))))))))"

section \<open>Builders that the operations can make\<close>

inductive built :: "('s, 'u) graph_builder \<Rightarrow> bool" where
  built_new: "built (builder_new gid)"
| built_defaults: "built b \<Longrightarrow> built (set_defaults d b)"
| built_max_concurrency: "built b \<Longrightarrow> built (with_max_concurrency n b)"
| built_node_concurrency: "built b \<Longrightarrow> built (with_node_concurrency nd n b)"
| built_node_timeout: "built b \<Longrightarrow> built (with_node_timeout t b)"
| built_parallel: "built b \<Longrightarrow> built (with_parallel p b)"
| built_graph_id: "built b \<Longrightarrow> built (with_graph_id gid b)"
| built_name: "built b \<Longrightarrow> built (with_name nm b)"
| built_recursion_limit: "built b \<Longrightarrow> built (with_recursion_limit l b)"
| built_reducer: "built b \<Longrightarrow> built (set_reducer r b)"
| built_node: "built b \<Longrightarrow> built (add_node nd h b)"
| built_edge: "built b \<Longrightarrow> built (add_edge src tgt b)"
| built_waiting_edge: "built b \<Longrightarrow> built (add_waiting_edge src tgt b)"
| built_relief: "built b \<Longrightarrow> built (add_barrier_relief src rl bar b)"
| built_conditional: "built b \<Longrightarrow> built (add_conditional_edges src rt table b)"
| built_command: "built b \<Longrightarrow> built (mark_command_routing nd b)"
| built_destinations: "built b \<Longrightarrow> built (with_command_destinations nd dests b)"
| built_fanout: "built b \<Longrightarrow> built (with_unconditional_fanout nd dests b)"
| built_kind: "built b \<Longrightarrow> built (with_node_kind nd k b)"
| built_metadata: "built b \<Longrightarrow> built (with_node_metadata nd k v b)"
| built_subgraph: "built b \<Longrightarrow> built (mark_subgraph nd b)"
| built_interrupt: "built b \<Longrightarrow> built (mark_interrupt nd b)"
| built_deferred: "built b \<Longrightarrow> built (mark_deferred nd b)"

lemma built_sequence: "built b \<Longrightarrow> built (add_sequence ns b)"
  by (induction ns b rule: add_sequence.induct) (auto intro: built_edge)

lemma built_entry: "built b \<Longrightarrow> built (set_entry nd b)"
  by (simp add: set_entry_def built_edge)

lemma built_finish: "built b \<Longrightarrow> built (set_finish nd b)"
  by (simp add: set_finish_def built_edge)

text \<open>Keys are unique, and a barrier never has an empty predecessor set: what routing relies
  on.\<close>

definition waiting_wf :: "(string \<times> string hset) list \<Rightarrow> bool" where
  "waiting_wf w \<longleftrightarrow> hm_wf w \<and> (\<forall>t ps. bt_get t w = Some ps \<longrightarrow> ps \<noteq> [] \<and> distinct ps)"

definition branches_wf :: "(string \<times> 's branch) list \<Rightarrow> bool" where
  "branches_wf brs \<longleftrightarrow> hm_wf brs \<and> (\<forall>s br. bt_get s brs = Some br \<longrightarrow> hm_wf (routes br))"

definition builder_wf :: "('s, 'u) graph_builder \<Rightarrow> bool" where
  "builder_wf b \<longleftrightarrow> hm_wf (gb_nodes b) \<and> hm_wf (gb_edges b) \<and> branches_wf (gb_branches b)
    \<and> waiting_wf (gb_waiting b) \<and> distinct (gb_command_nodes b) \<and> hm_wf (gb_node_meta b)"

lemma hs_insert_not_Nil [simp]: "hs_insert x xs \<noteq> []"
  by (auto simp: hs_insert_def)

lemma waiting_wf_add:
  "waiting_wf w \<Longrightarrow>
    waiting_wf (hm_insert t (hs_insert s (case bt_get t w of Some ps \<Rightarrow> ps | None \<Rightarrow> [])) w)"
  by (auto simp: waiting_wf_def split: option.split)

lemma branches_wf_add:
  "branches_wf brs \<Longrightarrow>
    branches_wf (hm_insert s \<lparr>router = rt, routes = fold (\<lambda>(k, v). hm_insert k v) table []\<rparr> brs)"
  by (auto simp: branches_wf_def hm.wf_build)

lemmas builder_defs = builder_new_def set_defaults_def with_max_concurrency_def
  with_node_concurrency_def with_node_timeout_def with_parallel_def with_graph_id_def
  with_name_def with_recursion_limit_def set_reducer_def add_node_def add_edge_def
  add_waiting_edge_def add_barrier_relief_def add_conditional_edges_def
  mark_command_routing_def edit_meta_def with_command_destinations_def
  with_unconditional_fanout_def with_node_kind_def with_node_metadata_def
  mark_subgraph_def mark_interrupt_def mark_deferred_def

lemma built_wf: "built b \<Longrightarrow> builder_wf b"
proof (induction rule: built.induct)
  case (built_new gid)
  then show ?case
    by (simp add: builder_new_def builder_wf_def waiting_wf_def branches_wf_def)
qed (simp_all add: builder_defs builder_wf_def waiting_wf_add branches_wf_add)

section \<open>What compilation accepts\<close>

definition registered :: "('s, 'u) compiled_graph \<Rightarrow> string \<Rightarrow> bool" where
  "registered c n \<longleftrightarrow> bt_get n (cg_nodes c) \<noteq> None"

definition edges_ok :: "('s, 'u) compiled_graph \<Rightarrow> bool" where
  "edges_ok c \<longleftrightarrow> (\<forall>s t. bt_get s (cg_edges c) = Some t \<longrightarrow>
     (s = START \<or> registered c s) \<and> s \<noteq> END \<and> (t = END \<or> registered c t) \<and> t \<noteq> START)"

definition branches_ok :: "('s, 'u) compiled_graph \<Rightarrow> bool" where
  "branches_ok c \<longleftrightarrow> (\<forall>s br. bt_get s (cg_branches c) = Some br \<longrightarrow>
     registered c s \<and> bt_get s (cg_edges c) = None
     \<and> (\<forall>r t. bt_get r (routes br) = Some t \<longrightarrow> t = END \<or> registered c t))"

definition waiting_ok :: "('s, 'u) compiled_graph \<Rightarrow> bool" where
  "waiting_ok c \<longleftrightarrow> (\<forall>t ps. bt_get t (cg_waiting c) = Some ps \<longrightarrow>
     registered c t \<and> (\<forall>p \<in> set ps. registered c p))"

definition commands_ok :: "('s, 'u) compiled_graph \<Rightarrow> bool" where
  "commands_ok c \<longleftrightarrow> (\<forall>n \<in> set (cg_command_nodes c). registered c n
     \<and> bt_get n (cg_edges c) = None \<and> bt_get n (cg_branches c) = None)"

definition graph_ok :: "('s, 'u) compiled_graph \<Rightarrow> bool" where
  "graph_ok c \<longleftrightarrow> bt_get START (cg_edges c) = Some (cg_entry c) \<and> cg_entry c \<noteq> END
     \<and> edges_ok c \<and> branches_ok c \<and> waiting_ok c \<and> commands_ok c"

lemma from_parts_sel [simp]:
  "cg_nodes (from_parts b e r) = gb_nodes b" "cg_edges (from_parts b e r) = gb_edges b"
  "cg_branches (from_parts b e r) = gb_branches b"
  "cg_command_nodes (from_parts b e r) = gb_command_nodes b"
  "cg_waiting (from_parts b e r) = gb_waiting b"
  "cg_barrier_reliefs (from_parts b e r) = gb_barrier_reliefs b"
  "cg_node_meta (from_parts b e r) = gb_node_meta b"
  "cg_entry (from_parts b e r) = e" "cg_reducer (from_parts b e r) = r"
  "cg_recursion_limit (from_parts b e r) = gb_recursion_limit b"
  "cg_recursion_policy (from_parts b e r) = default_policy"
  by (simp_all add: from_parts_def)

lemma require_node_ok [simp]: "require_node b n = Inr () \<longleftrightarrow> bt_get n (gb_nodes b) \<noteq> None"
  by (simp add: require_node_def)

lemma registered_from_parts [simp]:
  "registered (from_parts b e r) n \<longleftrightarrow> bt_get n (gb_nodes b) \<noteq> None"
  by (simp add: registered_def)

lemma for_each_map:
  "hm_wf m \<Longrightarrow> for_each f m = Inr () \<longleftrightarrow> (\<forall>k v. bt_get k m = Some v \<longrightarrow> f (k, v) = Inr ())"
  by (auto simp: for_each_ok hm_get_iff_in)

lemma check_edges_ok:
  assumes "hm_wf (gb_edges b)"
  shows "for_each (check_edge b) (gb_edges b) = Inr () \<longleftrightarrow> edges_ok (from_parts b e r)"
proof -
  have "check_edge b (s, t) = Inr () \<longleftrightarrow>
      (s = START \<or> bt_get s (gb_nodes b) \<noteq> None) \<and> s \<noteq> END
      \<and> (t = END \<or> bt_get t (gb_nodes b) \<noteq> None) \<and> t \<noteq> START" for s t
    unfolding check_edge_def by (cases "s = START"; cases "t = END") (auto simp: and_then_ok)
  with assms show ?thesis by (simp add: for_each_map edges_ok_def)
qed

lemma check_branches_ok:
  assumes "branches_wf (gb_branches b)"
  shows "for_each (check_branch b) (gb_branches b) = Inr () \<longleftrightarrow> branches_ok (from_parts b e r)"
proof -
  have "check_branch b (s, br) = Inr () \<longleftrightarrow> bt_get s (gb_nodes b) \<noteq> None
      \<and> bt_get s (gb_edges b) = None
      \<and> (\<forall>k t. bt_get k (routes br) = Some t \<longrightarrow> t = END \<or> bt_get t (gb_nodes b) \<noteq> None)"
    if "hm_wf (routes br)" for s br
    using that by (simp add: check_branch_def and_then_ok for_each_map) blast
  with assms show ?thesis
    by (simp add: for_each_map branches_ok_def branches_wf_def)
qed

lemma check_waiting_ok:
  assumes "waiting_wf (gb_waiting b)"
  shows "for_each (check_waiting b) (gb_waiting b) = Inr () \<longleftrightarrow> waiting_ok (from_parts b e r)"
proof -
  have "check_waiting b (t, ps) = Inr () \<longleftrightarrow> bt_get t (gb_nodes b) \<noteq> None
      \<and> (\<forall>p \<in> set ps. bt_get p (gb_nodes b) \<noteq> None)" for t ps
    by (simp add: check_waiting_def and_then_ok for_each_ok)
  with assms show ?thesis by (simp add: for_each_map waiting_ok_def waiting_wf_def)
qed

lemma check_commands_ok:
  "for_each (check_command_node b) (gb_command_nodes b) = Inr () \<longleftrightarrow> commands_ok (from_parts b e r)"
  by (simp add: for_each_ok commands_ok_def check_command_node_def and_then_ok)

lemma compile_Inr:
  assumes "builder_wf b"
  shows "compile b = Inr c \<longleftrightarrow>
    (\<exists>r e. gb_reducer b = Some r \<and> bt_get START (gb_edges b) = Some e
      \<and> c = from_parts b e r \<and> graph_ok c)"
proof -
  have "compile b = Inr c \<longleftrightarrow>
    (\<exists>r e. gb_reducer b = Some r \<and> bt_get START (gb_edges b) = Some e
      \<and> e \<noteq> END \<and> bt_get e (gb_nodes b) \<noteq> None \<and> edges_ok (from_parts b e r)
      \<and> branches_ok (from_parts b e r) \<and> waiting_ok (from_parts b e r)
      \<and> commands_ok (from_parts b e r) \<and> from_parts b e r = c)"
    using assms unfolding builder_wf_def compile_def
    by (simp add: and_then_ok check_edges_ok [symmetric] check_branches_ok [symmetric]
        check_waiting_ok [symmetric] check_commands_ok [symmetric] split: option.split)
  moreover have "bt_get e (gb_nodes b) \<noteq> None"
    if "edges_ok (from_parts b e r)" "bt_get START (gb_edges b) = Some e" "e \<noteq> END" for e r
    using that unfolding edges_ok_def by auto
  ultimately show ?thesis unfolding graph_ok_def by auto
qed

lemma compiled_ok:
  "built b \<Longrightarrow> compile b = Inr c \<Longrightarrow> graph_ok c \<and> waiting_wf (cg_waiting c)"
  using compile_Inr [OF built_wf] built_wf [of b] by (auto simp: builder_wf_def)


section \<open>Configuring a compiled graph\<close>

definition with_checkpointer :: "('s, 'u) compiled_graph \<Rightarrow> ('s, 'u) compiled_graph" where
  "with_checkpointer c = c\<lparr>cg_checkpointer := True\<rparr>"

definition with_durability :: "durability_mode \<Rightarrow> ('s, 'u) compiled_graph \<Rightarrow> ('s, 'u) compiled_graph" where
  "with_durability d c = c\<lparr>cg_durability := d\<rparr>"

definition with_run_deadline :: "nat \<Rightarrow> ('s, 'u) compiled_graph \<Rightarrow> ('s, 'u) compiled_graph" where
  "with_run_deadline d c = c\<lparr>cg_run_deadline := Some d\<rparr>"

definition with_namespace :: "string list \<Rightarrow> ('s, 'u) compiled_graph \<Rightarrow> ('s, 'u) compiled_graph" where
  "with_namespace ns c = c\<lparr>cg_namespace := ns\<rparr>"

definition with_recursion_policy ::
  "recursion_policy \<Rightarrow> ('s, 'u) compiled_graph \<Rightarrow> ('s, 'u) compiled_graph" where
  "with_recursion_policy p c = c\<lparr>cg_recursion_policy := p\<rparr>"

definition with_recursion_frames ::
  "recursion_frame list \<Rightarrow> ('s, 'u) compiled_graph \<Rightarrow> ('s, 'u) compiled_graph" where
  "with_recursion_frames fs c = c\<lparr>cg_recursion_frames := fs\<rparr>"

definition with_recursion_node :: "string \<Rightarrow> ('s, 'u) compiled_graph \<Rightarrow> ('s, 'u) compiled_graph" where
  "with_recursion_node n c = c\<lparr>cg_recursion_node := Some n\<rparr>"

lemmas config_defs = with_checkpointer_def with_durability_def with_run_deadline_def with_namespace_def
  with_recursion_policy_def with_recursion_frames_def with_recursion_node_def

text \<open>The compiled graphs a program can hold.\<close>

inductive runnable :: "('s, 'u) compiled_graph \<Rightarrow> bool" where
  runnable_compiled: "built b \<Longrightarrow> compile b = Inr c \<Longrightarrow> runnable c"
| runnable_checkpointer: "runnable c \<Longrightarrow> runnable (with_checkpointer c)"
| runnable_durability: "runnable c \<Longrightarrow> runnable (with_durability d c)"
| runnable_deadline: "runnable c \<Longrightarrow> runnable (with_run_deadline t c)"
| runnable_namespace: "runnable c \<Longrightarrow> runnable (with_namespace ns c)"
| runnable_policy: "runnable c \<Longrightarrow> runnable (with_recursion_policy p c)"
| runnable_frames: "runnable c \<Longrightarrow> runnable (with_recursion_frames fs c)"
| runnable_node: "runnable c \<Longrightarrow> runnable (with_recursion_node n c)"

lemma runnable_ok: "runnable c \<Longrightarrow> graph_ok c"
proof (induction rule: runnable.induct)
  case (runnable_compiled b c)
  then show ?case using compiled_ok by blast
qed (simp_all add: config_defs graph_ok_def edges_ok_def branches_ok_def waiting_ok_def commands_ok_def
    registered_def)

section \<open>A sample graph\<close>

definition sample_handler :: "('s, 'u) handler" where
  "sample_handler s ctx = Inr (NCommand command_new)"

definition sample_builder :: "(json, json) graph_builder" where
  "sample_builder = set_finish ''b'' (add_sequence [''a'', ''b''] (set_entry ''a''
     (add_node ''b'' sample_handler (add_node ''a'' sample_handler
       (set_reducer overwrite_reduce (builder_new ''g''))))))"

lemma sample_built: "built sample_builder"
  unfolding sample_builder_def
  by (intro built_finish built_sequence built_entry built_node built_reducer built_new)

lemmas sample_simps = sample_builder_def builder_new_def set_reducer_def add_node_def
  set_entry_def set_finish_def add_edge_def


end
