(* ===== verification/Tf_Model.thy ===== *)
theory Tf_Model
  imports Tf_Json
begin

text \<open>
  The workflow definition of \<open>model/\<close>: node kinds, nodes, edges, declared inputs, agent
  definitions and the graph with its lookup methods (\<open>model/mod.rs\<close>,
  \<open>model/node_kind.rs\<close>, \<open>model/agent.rs\<close>, \<open>model/inputs.rs\<close>).  The input part proves
  what \<open>resolve_inputs\<close> promises its callers.
\<close>

section \<open>Node kinds\<close>

datatype node_kind =
    Trigger | Agent | ToolCall | HttpRequest | Code | Shell | Condition | Switch | Merge
  | SplitOut | Loop | Transform | OutputParser | SubWorkflow | Memory | Dedup | Spawn
  | Scatter | Gather | Approval | Gate | Void

datatype trigger_kind =
    Manual | Schedule | Webhook | AppEvent | Form | ExecuteByWorkflow | ChatMessage
  | Evaluation | System

text \<open>The \<open>snake_case\<close> wire name of a kind, as its serde derive prints it.\<close>

fun kind_name :: "node_kind \<Rightarrow> string" where
  "kind_name Trigger = ''trigger''"
| "kind_name Agent = ''agent''"
| "kind_name ToolCall = ''tool_call''"
| "kind_name HttpRequest = ''http_request''"
| "kind_name Code = ''code''"
| "kind_name Shell = ''shell''"
| "kind_name Condition = ''condition''"
| "kind_name Switch = ''switch''"
| "kind_name Merge = ''merge''"
| "kind_name SplitOut = ''split_out''"
| "kind_name Loop = ''loop''"
| "kind_name Transform = ''transform''"
| "kind_name OutputParser = ''output_parser''"
| "kind_name SubWorkflow = ''sub_workflow''"
| "kind_name Memory = ''memory''"
| "kind_name Dedup = ''dedup''"
| "kind_name Spawn = ''spawn''"
| "kind_name Scatter = ''scatter''"
| "kind_name Gather = ''gather''"
| "kind_name Approval = ''approval''"
| "kind_name Gate = ''gate''"
| "kind_name Void = ''void''"

section \<open>Agent definitions\<close>

record agent_limits =
  max_steps :: "32 word option"
  max_tool_calls :: "32 word option"
  agent_timeout_secs :: "32 word option"
  tool_timeout_secs :: "32 word option"

fun lower_bound :: "32 word option \<Rightarrow> 32 word option \<Rightarrow> 32 word option" where
  "lower_bound (Some a) (Some b) = Some (min a b)"
| "lower_bound a None = a"
| "lower_bound None b = b"

definition narrowed_by :: "agent_limits \<Rightarrow> agent_limits \<Rightarrow> agent_limits" where
  "narrowed_by self other =
    \<lparr>max_steps = lower_bound (max_steps self) (max_steps other),
     max_tool_calls = lower_bound (max_tool_calls self) (max_tool_calls other),
     agent_timeout_secs = lower_bound (agent_timeout_secs self) (agent_timeout_secs other),
     tool_timeout_secs = lower_bound (tool_timeout_secs self) (tool_timeout_secs other)\<rparr>"

record tool_grant =
  slug :: string
  connection_ref :: "string option"

definition ends_with :: "string \<Rightarrow> string \<Rightarrow> bool" where
  "ends_with suf s \<longleftrightarrow> length suf \<le> length s \<and> drop (length s - length suf) s = suf"

definition starts_with :: "string \<Rightarrow> string \<Rightarrow> bool" where
  "starts_with pre s \<longleftrightarrow> take (length pre) s = pre"

definition strip_suffix :: "string \<Rightarrow> string \<Rightarrow> string option" where
  "strip_suffix suf s = (if ends_with suf s then Some (take (length s - length suf) s) else None)"

definition is_pattern :: "tool_grant \<Rightarrow> bool" where
  "is_pattern g \<longleftrightarrow> ends_with ''.*'' (slug g)"

definition covers :: "tool_grant \<Rightarrow> string \<Rightarrow> bool" where
  "covers g s =
    (case strip_suffix ''*'' (slug g) of
       Some prefix \<Rightarrow> starts_with prefix s
     | None \<Rightarrow> slug g = s)"

datatype context_source_kind =
    CtxText json
  | CtxItems
  | CtxMemory string string "32 word option"
  | CtxFlavour string
  | CtxHost string json

record context_source =
  ctx_label :: "string option"
  ctx_kind :: context_source_kind
  ctx_optional :: bool

definition label_or_index :: "context_source \<Rightarrow> nat \<Rightarrow> string" where
  "label_or_index src i =
    (case ctx_label src of
       Some l \<Rightarrow> l
     | None \<Rightarrow>
        (case ctx_kind src of
           CtxHost s _ \<Rightarrow> s
         | CtxFlavour s \<Rightarrow> s
         | CtxMemory scope _ _ \<Rightarrow> ''memory:'' @ scope
         | CtxText _ \<Rightarrow> ''context_'' @ show_nat i
         | CtxItems \<Rightarrow> ''context_'' @ show_nat i))"

record agent_definition =
  agent_id :: string
  agent_name :: string
  agent_description :: string
  agent_instructions :: "string option"
  agent_model :: "string option"
  agent_provider :: "string option"
  agent_working_dir :: "string option"
  agent_limits_of :: agent_limits
  agent_tools :: "tool_grant list"
  agent_context :: "context_source list"
  agent_metadata :: jmap

section \<open>Declared inputs\<close>

datatype input_type = InString | InNumber | InBoolean | InJson

fun input_type_as_str :: "input_type \<Rightarrow> string" where
  "input_type_as_str InString = ''string''"
| "input_type_as_str InNumber = ''number''"
| "input_type_as_str InBoolean = ''boolean''"
| "input_type_as_str InJson = ''json''"

fun accepts :: "input_type \<Rightarrow> json \<Rightarrow> bool" where
  "accepts InString v = is_string v"
| "accepts InNumber v = is_number v"
| "accepts InBoolean v = is_boolean v"
| "accepts InJson v = True"

record workflow_input =
  input_name :: string
  input_ty :: input_type
  input_description :: "string option"
  input_required :: bool
  input_default :: "json option"

definition is_ascii_alphabetic :: "char \<Rightarrow> bool" where
  "is_ascii_alphabetic c \<longleftrightarrow> (CHR ''A'' \<le> c \<and> c \<le> CHR ''Z'') \<or> (CHR ''a'' \<le> c \<and> c \<le> CHR ''z'')"

definition is_ascii_alphanumeric :: "char \<Rightarrow> bool" where
  "is_ascii_alphanumeric c \<longleftrightarrow> is_ascii_alphabetic c \<or> (CHR ''0'' \<le> c \<and> c \<le> CHR ''9'')"

fun is_valid_input_name :: "string \<Rightarrow> bool" where
  "is_valid_input_name [] = False"
| "is_valid_input_name (c # cs) =
    ((is_ascii_alphabetic c \<or> c = CHR ''_'')
     \<and> list_all (\<lambda>c. is_ascii_alphanumeric c \<or> c = CHR ''_'') cs)"

datatype input_error =
    Missing string
  | TypeMismatch string string string
  | Unknown string

fun json_type_name :: "json \<Rightarrow> string" where
  "json_type_name JNull = ''null''"
| "json_type_name (JBool _) = ''boolean''"
| "json_type_name (JNumber _) = ''number''"
| "json_type_name (JString _) = ''string''"
| "json_type_name (JArray _) = ''array''"
| "json_type_name (JObject _) = ''object''"

text \<open>One turn of the declaration loop: the value an input resolves to.\<close>

definition resolve_input :: "workflow_input \<Rightarrow> jmap \<Rightarrow> input_error + json" where
  "resolve_input inp supplied =
    (case bt_get (input_name inp) supplied of
       Some v \<Rightarrow>
         if accepts (input_ty inp) v then Inr v
         else Inl (TypeMismatch (input_name inp) (input_type_as_str (input_ty inp)) (json_type_name v))
     | None \<Rightarrow>
         (case input_default inp of
            Some d \<Rightarrow> Inr d
          | None \<Rightarrow> if input_required inp then Inl (Missing (input_name inp)) else Inr JNull))"

fun resolve_declared ::
  "workflow_input list \<Rightarrow> jmap \<Rightarrow> jmap \<Rightarrow> input_error + jmap" where
  "resolve_declared [] supplied resolved = Inr resolved"
| "resolve_declared (inp # rest) supplied resolved =
    (case resolve_input inp supplied of
       Inl e \<Rightarrow> Inl e
     | Inr v \<Rightarrow> resolve_declared rest supplied (bt_insert (input_name inp) v resolved))"

definition resolve_inputs :: "workflow_input list \<Rightarrow> jmap \<Rightarrow> input_error + jmap" where
  "resolve_inputs declared supplied =
    (case resolve_declared declared supplied [] of
       Inl e \<Rightarrow> Inl e
     | Inr resolved \<Rightarrow>
         (case find (\<lambda>name. bt_get name resolved = None) (bt_keys supplied) of
            Some name \<Rightarrow> Inl (Unknown name)
          | None \<Rightarrow> Inr resolved))"

section \<open>The graph\<close>

record port =
  port_name :: string
  port_label :: "string option"

record position =
  pos_x :: "64 word"
  pos_y :: "64 word"

record node =
  node_id :: string
  kind :: node_kind
  type_version :: "32 word"
  node_name :: string
  config :: json
  ports :: "port list"
  node_position :: "position option"

record edge =
  from_node :: string
  from_port :: string
  to_node :: string
  to_port :: string

record workflow_graph =
  schema_version :: "32 word"
  graph_id :: "string option"
  graph_name :: string
  inputs :: "workflow_input list"
  agents :: "agent_definition list"
  nodes :: "node list"
  edges :: "edge list"

definition default_port :: string where
  "default_port = ''main''"

definition CURRENT_SCHEMA_VERSION :: "32 word" where
  "CURRENT_SCHEMA_VERSION = 1"

definition default_graph :: workflow_graph where
  "default_graph =
    \<lparr>schema_version = CURRENT_SCHEMA_VERSION, graph_id = None, graph_name = '''',
     inputs = [], agents = [], nodes = [], edges = []\<rparr>"

definition trigger :: "workflow_graph \<Rightarrow> node option" where
  "trigger g = (case filter (\<lambda>n. kind n = Trigger) (nodes g) of [n] \<Rightarrow> Some n | _ \<Rightarrow> None)"

definition graph_node :: "workflow_graph \<Rightarrow> string \<Rightarrow> node option" where
  "graph_node g i = find (\<lambda>n. node_id n = i) (nodes g)"

definition graph_agent :: "workflow_graph \<Rightarrow> string \<Rightarrow> agent_definition option" where
  "graph_agent g i = find (\<lambda>a. agent_id a = i) (agents g)"

definition successors :: "workflow_graph \<Rightarrow> string \<Rightarrow> string list" where
  "successors g start = map to_node (filter (\<lambda>e. from_node e = start) (edges g))"

definition cfg :: "node \<Rightarrow> string \<Rightarrow> json option" where
  "cfg n k = jget k (config n)"

abbreviation node_ids :: "workflow_graph \<Rightarrow> string list" where
  "node_ids g \<equiv> map node_id (nodes g)"

definition edge_pairs :: "workflow_graph \<Rightarrow> (string \<times> string) list" where
  "edge_pairs g = map (\<lambda>e. (from_node e, to_node e)) (edges g)"

text \<open>Constructors for the concrete graphs the witnesses run on.\<close>

definition mk_node :: "string \<Rightarrow> node_kind \<Rightarrow> (string \<times> json) list \<Rightarrow> node" where
  "mk_node i k kvs =
    \<lparr>node_id = i, kind = k, type_version = 1, node_name = i, config = jobj kvs, ports = [],
     node_position = None\<rparr>"

definition mk_edge :: "string \<Rightarrow> string \<Rightarrow> string \<Rightarrow> edge" where
  "mk_edge a p b = \<lparr>from_node = a, from_port = p, to_node = b, to_port = default_port\<rparr>"

definition mk_graph :: "node list \<Rightarrow> edge list \<Rightarrow> workflow_graph" where
  "mk_graph ns es = default_graph\<lparr>nodes := ns, edges := es\<rparr>"

lemmas mk_simps = mk_node_def mk_edge_def mk_graph_def default_graph_def default_port_def jobj_def
  bt_from_list_def

lemma set_edge_pairs: "set (edge_pairs g) = {(from_node e, to_node e) |e. e \<in> set (edges g)}"
  by (auto simp: edge_pairs_def)

lemma successors_adj: "successors g x = adj (edge_pairs g) x"
  by (simp add: successors_def adj_def edge_pairs_def filter_map comp_def)

lemma graph_node_None_iff: "graph_node g i = None \<longleftrightarrow> i \<notin> set (node_ids g)"
  by (force simp: graph_node_def find_None_iff)

lemma graph_node_SomeD: "graph_node g i = Some n \<Longrightarrow> n \<in> set (nodes g) \<and> node_id n = i"
  by (auto simp: graph_node_def find_Some_iff)

lemma trigger_SomeD: "trigger g = Some t \<Longrightarrow> t \<in> set (nodes g) \<and> kind t = Trigger"
proof -
  assume "trigger g = Some t"
  then have "filter (\<lambda>n. kind n = Trigger) (nodes g) = [t]"
    by (auto simp: trigger_def split: list.splits)
  then have "t \<in> set (filter (\<lambda>n. kind n = Trigger) (nodes g))" by simp
  then show ?thesis by simp
qed

lemma trigger_unique:
  assumes "trigger g = Some t" "n \<in> set (nodes g)" "kind n = Trigger"
  shows "n = t"
proof -
  from assms(1) have "filter (\<lambda>n. kind n = Trigger) (nodes g) = [t]"
    by (auto simp: trigger_def split: list.splits)
  moreover have "n \<in> set (filter (\<lambda>n. kind n = Trigger) (nodes g))" using assms by simp
  ultimately show ?thesis by simp
qed

section \<open>Input resolution\<close>

text \<open>The value a declaration resolves to when it appears last under its name.\<close>

lemma resolve_declared_Inr:
  assumes "resolve_declared declared supplied resolved = Inr out" "bt_wf resolved"
  shows "bt_wf out
    \<and> set (bt_keys out) = set (map input_name declared) \<union> set (bt_keys resolved)
    \<and> (\<forall>inp \<in> set declared. \<exists>v. resolve_input inp supplied = Inr v)"
  using assms
  by (induction declared arbitrary: resolved) (auto split: sum.splits)

lemma resolve_declared_other:
  assumes "resolve_declared declared supplied resolved = Inr out"
    and "name \<notin> input_name ` set declared"
  shows "bt_get name out = bt_get name resolved"
  using assms by (induction declared arbitrary: resolved) (auto split: sum.splits)

lemma resolve_declared_lookup:
  assumes "resolve_declared declared supplied resolved = Inr out"
    and "distinct (map input_name declared)"
    and "inp \<in> set declared" "resolve_input inp supplied = Inr v"
  shows "bt_get (input_name inp) out = Some v"
  using assms
proof (induction declared arbitrary: resolved)
  case (Cons d ds)
  then show ?case
    by (cases "inp = d") (auto split: sum.splits simp: resolve_declared_other)
qed simp

lemma resolve_declared_ok:
  assumes "\<And>inp. inp \<in> set declared \<Longrightarrow> \<exists>v. resolve_input inp supplied = Inr v"
  shows "\<exists>out. resolve_declared declared supplied resolved = Inr out"
  using assms by (induction declared arbitrary: resolved) (auto split: sum.splits, metis sum.distinct(1))

lemma resolve_inputs_InrD:
  assumes "resolve_inputs declared supplied = Inr out"
  shows "resolve_declared declared supplied [] = Inr out"
    and "set (bt_keys supplied) \<subseteq> set (bt_keys out)"
  using assms
  by (auto simp: resolve_inputs_def find_None_iff bt_get_None_iff split: sum.splits option.splits)

lemma resolve_input_Inr_iff:
  "resolve_input inp supplied = Inr v \<longleftrightarrow>
    (case bt_get (input_name inp) supplied of
       Some s \<Rightarrow> accepts (input_ty inp) s \<and> v = s
     | None \<Rightarrow>
        (case input_default inp of
           Some d \<Rightarrow> v = d
         | None \<Rightarrow> \<not> input_required inp \<and> v = JNull))"
  by (auto simp: resolve_input_def split: option.splits)

text \<open>When input resolution succeeds for declarations with
  distinct names, the resolved map has exactly one entry per declared input, every
  supplied key is declared, and each entry is the supplied value (which has the declared
  type), else the default, else null for an optional input.\<close>

theorem resolve_inputs_exact:
  assumes "distinct (map input_name declared)"
    and "resolve_inputs declared supplied = Inr out"
  shows "bt_wf out \<and> set (bt_keys out) = input_name ` set declared
    \<and> set (bt_keys supplied) \<subseteq> input_name ` set declared
    \<and> (\<forall>inp \<in> set declared. \<exists>v. bt_get (input_name inp) out = Some v \<and>
         (case bt_get (input_name inp) supplied of
            Some s \<Rightarrow> accepts (input_ty inp) s \<and> v = s
          | None \<Rightarrow>
             (case input_default inp of
                Some d \<Rightarrow> v = d
              | None \<Rightarrow> \<not> input_required inp \<and> v = JNull)))"
proof -
  note res = resolve_inputs_InrD [OF assms(2)]
  note out = resolve_declared_Inr [OF res(1), simplified]
  have "\<exists>v. bt_get (input_name inp) out = Some v \<and> resolve_input inp supplied = Inr v"
    if "inp \<in> set declared" for inp
    using that out resolve_declared_lookup [OF res(1) assms(1) that] by blast
  with out res(2) show ?thesis unfolding resolve_input_Inr_iff by simp
qed

theorem resolve_inputs_exact_witness:
  "\<exists>out. resolve_inputs
      [\<lparr>input_name = ''repo'', input_ty = InString, input_description = None,
        input_required = True, input_default = None\<rparr>,
       \<lparr>input_name = ''depth'', input_ty = InNumber, input_description = None,
        input_required = False, input_default = Some (jnat 3)\<rparr>,
       \<lparr>input_name = ''note'', input_ty = InString, input_description = None,
        input_required = False, input_default = None\<rparr>]
      [(''repo'', JString ''acme'')] = Inr out
    \<and> set (bt_keys out) = {''repo'', ''depth'', ''note''}"
proof -
  let ?repo = "\<lparr>input_name = ''repo'', input_ty = InString, input_description = None,
        input_required = True, input_default = None\<rparr>"
  let ?depth = "\<lparr>input_name = ''depth'', input_ty = InNumber, input_description = None,
        input_required = False, input_default = Some (jnat 3)\<rparr>"
  let ?note = "\<lparr>input_name = ''note'', input_ty = InString, input_description = None,
        input_required = False, input_default = None\<rparr>"
  let ?out = "[(''depth'', jnat 3), (''note'', JNull), (''repo'', JString ''acme'')]"
  have "resolve_inputs [?repo, ?depth, ?note] [(''repo'', JString ''acme'')] = Inr ?out"
    by (simp add: resolve_inputs_def resolve_input_def is_string_def)
  with resolve_inputs_exact [of "[?repo, ?depth, ?note]" "[(''repo'', JString ''acme'')]" ?out]
  show ?thesis by auto
qed

lemma resolve_declared_InlD:
  assumes "resolve_declared declared supplied resolved = Inl e"
  shows "\<exists>inp \<in> set declared. resolve_input inp supplied = Inl e"
  using assms by (induction declared arbitrary: resolved) (auto split: sum.splits)

lemma resolve_declared_Inl_first:
  assumes "resolve_input inp supplied = Inl e"
    and "\<And>i. i \<in> set before \<Longrightarrow> \<exists>v. resolve_input i supplied = Inr v"
  shows "resolve_declared (before @ inp # after) supplied resolved = Inl e"
  using assms(2)
proof (induction before arbitrary: resolved)
  case (Cons b bs)
  from Cons.prems obtain v where "resolve_input b supplied = Inr v" by fastforce
  with Cons show ?case by simp
qed (simp add: assms(1))

text \<open>Resolution fails exactly when some declaration has no
  acceptable value or some supplied key is undeclared; the undeclared-key error is only
  reported when every declaration resolves, and a declaration error is the one of the first
  offending declaration.\<close>

theorem resolve_inputs_rejects:
  "(resolve_inputs declared supplied = Inl e) =
    ((\<exists>before inp after. declared = before @ inp # after \<and> resolve_input inp supplied = Inl e
        \<and> (\<forall>i \<in> set before. \<exists>v. resolve_input i supplied = Inr v))
     \<or> ((\<forall>i \<in> set declared. \<exists>v. resolve_input i supplied = Inr v)
        \<and> (\<exists>name. e = Unknown name
             \<and> find (\<lambda>k. k \<notin> input_name ` set declared) (bt_keys supplied) = Some name)))"
  (is "?L = (?first \<or> ?unknown)")
proof (cases "\<forall>i \<in> set declared. \<exists>v. resolve_input i supplied = Inr v")
  case True
  then obtain out where out: "resolve_declared declared supplied [] = Inr out"
    using resolve_declared_ok by blast
  have keys: "bt_get k out = None \<longleftrightarrow> k \<notin> input_name ` set declared" for k
    using resolve_declared_Inr [OF out] by (simp add: bt_get_None_iff)
  have "\<not> ?first" using True by force
  moreover have "?L = ?unknown"
    using True by (auto simp: resolve_inputs_def out keys split: option.splits)
  ultimately show ?thesis by blast
next
  case False
  then have "\<exists>i \<in> set declared. \<not> (\<exists>v. resolve_input i supplied = Inr v)" by blast
  then obtain before inp after where d: "declared = before @ inp # after"
    and bad: "\<nexists>v. resolve_input inp supplied = Inr v"
    and ok: "\<forall>i \<in> set before. \<exists>v. resolve_input i supplied = Inr v"
    by (auto dest!: split_list_first_prop)
  from bad obtain e' where e': "resolve_input inp supplied = Inl e'"
    by (cases "resolve_input inp supplied") auto
  have res: "resolve_inputs declared supplied = Inl e'"
    using resolve_declared_Inl_first [OF e', of before after "[]"] ok
    by (simp add: resolve_inputs_def d)
  show ?thesis
  proof
    assume ?L
    with res e' d ok show "?first \<or> ?unknown" by auto
  next
    assume "?first \<or> ?unknown"
    then obtain b i a where "declared = b @ i # a" "resolve_input i supplied = Inl e"
      "\<forall>i \<in> set b. \<exists>v. resolve_input i supplied = Inr v"
      using False by blast
    then show ?L
      using resolve_declared_Inl_first [of i supplied e b a "[]"] by (simp add: resolve_inputs_def)
  qed
qed

theorem resolve_inputs_rejects_witness:
  "resolve_inputs
     [\<lparr>input_name = ''repo'', input_ty = InString, input_description = None,
       input_required = True, input_default = None\<rparr>] [] = Inl (Missing ''repo'')"
proof -
  let ?repo = "\<lparr>input_name = ''repo'', input_ty = InString, input_description = None,
       input_required = True, input_default = None\<rparr>"
  have "[?repo] = [] @ ?repo # [] \<and> resolve_input ?repo [] = Inl (Missing ''repo'')
      \<and> (\<forall>i \<in> set []. \<exists>v. resolve_input i [] = Inr v)"
    by (simp add: resolve_input_def)
  then show ?thesis unfolding resolve_inputs_rejects by blast
qed

end
