(* ===== verification/Tf_Reach.thy ===== *)
theory Tf_Reach
  imports Tf_Model
begin

text \<open>
  The worklist searches the program uses to ask reachability questions: over the authored
  graph in \<open>validate/scatter.rs\<close>, \<open>validate/loops.rs\<close> and \<open>engine/routing.rs\<close>.  Each Rust
  loop pops a stack, so the stack of the model keeps its top at the head and extending it
  by a successor list puts the reversed list in front.  The searches are total and each
  decides reachability in a stated relation.
\<close>

named_theorems search_simps \<open>characterisations of the worklist searches\<close>

section \<open>Searches over an edge list\<close>

text \<open>The loop of \<open>has_unconditional_path\<close> and \<open>reaches_via_port\<close>: a stop node is dropped
  before it is recorded.\<close>

function search_stop ::
  "('a \<times> 'a) list \<Rightarrow> 'a \<Rightarrow> 'a \<Rightarrow> 'a list \<Rightarrow> 'a set \<Rightarrow> bool" where
  "search_stop es stop target [] seen = False"
| "search_stop es stop target (x # stack) seen =
    (if x = target then True
     else if x = stop \<or> x \<in> seen then search_stop es stop target stack seen
     else search_stop es stop target (rev (adj es x) @ stack) (insert x seen))"
  by pat_completeness auto

text \<open>The loop of \<open>path_exists\<close> and \<open>path_avoiding\<close>: a node is recorded first, and a skipped
  node is not expanded.\<close>

function search_skip ::
  "('a \<times> 'a) list \<Rightarrow> ('a \<Rightarrow> bool) \<Rightarrow> 'a \<Rightarrow> 'a list \<Rightarrow> 'a set \<Rightarrow> bool" where
  "search_skip es skip target [] seen = False"
| "search_skip es skip target (x # stack) seen =
    (if x = target then True
     else if x \<in> seen then search_skip es skip target stack seen
     else if skip x then search_skip es skip target stack (insert x seen)
     else search_skip es skip target (rev (adj es x) @ stack) (insert x seen))"
  by pat_completeness auto

text \<open>Expanding an unseen node either uses up one more edge source or leaves a shorter
  stack: the measure of every search.\<close>

lemma search_measure:
  assumes "x \<notin> seen"
  shows "card (fst ` set es - insert x seen) < card (fst ` set es - seen)
    \<or> card (fst ` set es - insert x seen) = card (fst ` set es - seen) \<and> adj es x = []"
proof (cases "x \<in> fst ` set es")
  case True
  with assms have "fst ` set es - insert x seen \<subset> fst ` set es - seen" by blast
  then show ?thesis by (simp add: psubset_card_mono)
next
  case False
  then have "fst ` set es - insert x seen = fst ` set es - seen" by blast
  with False show ?thesis by (simp add: adj_Nil_iff)
qed

lemma search_measure_le: "card (fst ` set es - insert x seen) \<le> card (fst ` set es - seen)"
  by (intro card_mono) auto

termination search_stop
  by (relation "measures [\<lambda>(es, _, _, _, seen). card (fst ` set es - seen),
                          \<lambda>(_, _, _, stack, _). length stack]")
     (auto dest: search_measure)

termination search_skip
proof (relation "measures [\<lambda>(es, _, _, _, seen). card (fst ` set es - seen),
                          \<lambda>(_, _, _, stack, _). length stack]", goal_cases)
  case (3 es skip target x stack seen)
  then show ?case using search_measure_le [of es x seen] by auto
qed (auto dest: search_measure)

text \<open>Edges that a search follows: those whose source is not blocked.\<close>

definition free_edges :: "('a \<times> 'a) list \<Rightarrow> ('a \<Rightarrow> bool) \<Rightarrow> ('a \<times> 'a) set" where
  "free_edges es blocked = {(a, b). (a, b) \<in> set es \<and> \<not> blocked a}"

lemma free_edges_iff [simp]: "(a, b) \<in> free_edges es P \<longleftrightarrow> (a, b) \<in> set es \<and> \<not> P a"
  by (simp add: free_edges_def)

lemma free_edges_none: "free_edges es (\<lambda>_. False) = set es"
  by (auto simp: free_edges_def)

lemma search_stop_sound:
  "search_stop es stop target stack seen \<Longrightarrow>
    \<exists>x \<in> set stack. (x, target) \<in> (free_edges es (\<lambda>a. a = stop))\<^sup>*"
proof (induction es stop target stack seen rule: search_stop.induct)
  case (2 es stop target x stack seen)
  show ?case
  proof (cases "x = target \<or> x = stop \<or> x \<in> seen")
    case True
    with 2 show ?thesis by (auto split: if_splits)
  next
    case False
    with 2 obtain y where y: "y \<in> set (rev (adj es x) @ stack)"
      "(y, target) \<in> (free_edges es (\<lambda>a. a = stop))\<^sup>*" by auto
    with False show ?thesis
      by (auto intro: converse_rtrancl_into_rtrancl)
  qed
qed simp

lemma search_stop_complete:
  "\<lbrakk> \<not> search_stop es stop target stack seen; target \<notin> seen;
     \<And>a b. a \<in> seen \<Longrightarrow> (a, b) \<in> set es \<Longrightarrow> b \<in> seen \<or> b \<in> set stack \<or> b = stop \<and> b \<noteq> target \<rbrakk>
   \<Longrightarrow> \<exists>C. set stack \<union> seen \<subseteq> C \<and> target \<notin> C
      \<and> (\<forall>a b. a \<in> C \<longrightarrow> (a, b) \<in> free_edges es (\<lambda>a. a = stop) \<longrightarrow> b \<in> C)"
proof (induction es stop target stack seen rule: search_stop.induct)
  case (1 es stop target seen)
  show ?case
    by (rule exI [of _ "seen \<union> (if stop = target then {} else {stop})"]) (use 1 in auto)
next
  case (2 es stop target x stack seen)
  then have nt: "x \<noteq> target" by auto
  show ?case
  proof (cases "x = stop \<or> x \<in> seen")
    case True
    then have "\<not> search_stop es stop target stack seen" using "2.prems"(1) nt by auto
    then obtain C where "set stack \<union> seen \<subseteq> C" "target \<notin> C"
      "\<forall>a b. a \<in> C \<longrightarrow> (a, b) \<in> free_edges es (\<lambda>a. a = stop) \<longrightarrow> b \<in> C"
      using "2.IH"(1) [OF nt True] "2.prems" True nt by (metis (no_types, lifting) set_ConsD)
    with True nt show ?thesis
      by (intro exI [of _ "insert x C"]) auto
  next
    case False
    then have "\<not> search_stop es stop target (rev (adj es x) @ stack) (insert x seen)"
      using "2.prems"(1) nt by auto
    then obtain C where "set (rev (adj es x) @ stack) \<union> insert x seen \<subseteq> C" "target \<notin> C"
      "\<forall>a b. a \<in> C \<longrightarrow> (a, b) \<in> free_edges es (\<lambda>a. a = stop) \<longrightarrow> b \<in> C"
      using "2.IH"(2) [OF nt False] "2.prems" nt by fastforce
    then show ?thesis by (intro exI [of _ C]) auto
  qed
qed

lemma search_stop_iff [search_simps]:
  "search_stop es stop target stack {} \<longleftrightarrow>
    (\<exists>x \<in> set stack. (x, target) \<in> (free_edges es (\<lambda>a. a = stop))\<^sup>*)"
proof
  assume R: "\<exists>x \<in> set stack. (x, target) \<in> (free_edges es (\<lambda>a. a = stop))\<^sup>*"
  show "search_stop es stop target stack {}"
  proof (rule ccontr)
    assume "\<not> search_stop es stop target stack {}"
    from search_stop_complete [OF this] obtain C where "set stack \<subseteq> C" "target \<notin> C"
      "\<forall>a b. a \<in> C \<longrightarrow> (a, b) \<in> free_edges es (\<lambda>a. a = stop) \<longrightarrow> b \<in> C" by auto
    with R show False by (meson closed_rtrancl subsetD)
  qed
qed (rule search_stop_sound)

lemma search_skip_sound:
  "search_skip es skip target stack seen \<Longrightarrow>
    \<exists>x \<in> set stack. (x, target) \<in> (free_edges es skip)\<^sup>*"
proof (induction es skip target stack seen rule: search_skip.induct)
  case (2 es skip target x stack seen)
  show ?case
  proof (cases "x = target \<or> x \<in> seen \<or> skip x")
    case True
    with 2 show ?thesis by (auto split: if_splits)
  next
    case False
    with 2 obtain y where y: "y \<in> set (rev (adj es x) @ stack)"
      "(y, target) \<in> (free_edges es skip)\<^sup>*" by auto
    with False show ?thesis
      by (auto intro: converse_rtrancl_into_rtrancl)
  qed
qed simp

lemma search_skip_complete:
  "\<lbrakk> \<not> search_skip es skip target stack seen; target \<notin> seen;
     \<And>a b. a \<in> seen \<Longrightarrow> (a, b) \<in> free_edges es skip \<Longrightarrow> b \<in> seen \<or> b \<in> set stack \<rbrakk>
   \<Longrightarrow> \<exists>C. set stack \<union> seen \<subseteq> C \<and> target \<notin> C
      \<and> (\<forall>a b. a \<in> C \<longrightarrow> (a, b) \<in> free_edges es skip \<longrightarrow> b \<in> C)"
proof (induction es skip target stack seen rule: search_skip.induct)
  case (1 es skip target seen)
  show ?case by (rule exI [of _ seen]) (use 1 in auto)
next
  case (2 es skip target x stack seen)
  then have nt: "x \<noteq> target" by auto
  consider "x \<in> seen" | "x \<notin> seen" "skip x" | "x \<notin> seen" "\<not> skip x" by blast
  then show ?case
  proof cases
    case 1
    then have "\<not> search_skip es skip target stack seen" using "2.prems"(1) nt by auto
    then obtain C where "set stack \<union> seen \<subseteq> C" "target \<notin> C"
      "\<forall>a b. a \<in> C \<longrightarrow> (a, b) \<in> free_edges es skip \<longrightarrow> b \<in> C"
      using "2.IH"(1) [OF nt 1] "2.prems" 1 by (metis set_ConsD)
    with 1 show ?thesis by (intro exI [of _ C]) auto
  next
    case 2
    then have "\<not> search_skip es skip target stack (insert x seen)"
      using "2.prems" nt by simp
    then obtain C where "set stack \<union> insert x seen \<subseteq> C" "target \<notin> C"
      "\<forall>a b. a \<in> C \<longrightarrow> (a, b) \<in> free_edges es skip \<longrightarrow> b \<in> C"
      using "2.IH"(2) [OF nt 2] "2.prems" 2 nt by fastforce
    then show ?thesis by (intro exI [of _ C]) auto
  next
    case 3
    then have "\<not> search_skip es skip target (rev (adj es x) @ stack) (insert x seen)"
      using "2.prems" nt by simp
    then obtain C where "set (rev (adj es x) @ stack) \<union> insert x seen \<subseteq> C" "target \<notin> C"
      "\<forall>a b. a \<in> C \<longrightarrow> (a, b) \<in> free_edges es skip \<longrightarrow> b \<in> C"
      using "2.IH"(3) [OF nt 3] "2.prems" nt by fastforce
    then show ?thesis by (intro exI [of _ C]) auto
  qed
qed

lemma search_skip_iff [search_simps]:
  "search_skip es skip target stack {} \<longleftrightarrow>
    (\<exists>x \<in> set stack. (x, target) \<in> (free_edges es skip)\<^sup>*)"
proof
  assume R: "\<exists>x \<in> set stack. (x, target) \<in> (free_edges es skip)\<^sup>*"
  show "search_skip es skip target stack {}"
  proof (rule ccontr)
    assume "\<not> search_skip es skip target stack {}"
    from search_skip_complete [OF this] obtain C where "set stack \<subseteq> C" "target \<notin> C"
      "\<forall>a b. a \<in> C \<longrightarrow> (a, b) \<in> free_edges es skip \<longrightarrow> b \<in> C" by auto
    with R show False by (meson closed_rtrancl subsetD)
  qed
qed (rule search_skip_sound)

end
