(* ===== verification/Tf_Routing.thy ===== *)
theory Tf_Routing
  imports Tf_Builder Tf_Reach
begin

text \<open>
  Routing at a super-step boundary, \<open>graph/compiled/routing.rs\<close>: resolving the targets of
  every completed activation, gating barrier nodes until all their predecessors arrived, and
  relieving a barrier of a predecessor whose branch was not taken.  The barrier arrivals are
  the routing state that survives from step to step; they are returned with an error too,
  because the Rust function mutates them in place before it fails.
\<close>

section \<open>Operations\<close>

record activation =
  act_node :: string
  act_send_arg :: "json option"
  act_task_id :: string

definition check_target ::
  "('s, 'u) compiled_graph \<Rightarrow> string \<Rightarrow> route_target \<Rightarrow> graph_error + unit" where
  "check_target c src t =
    (if target_node t = END then Inr ()
     else if target_node t = START then Inl (GraphErr
       (''command goto from node `'' @ src @ ''` cannot target START''))
     else reject_if (bt_get (target_node t) (cg_nodes c) = None) (MissingNode (target_node t)))"

definition validate_route_targets ::
  "('s, 'u) compiled_graph \<Rightarrow> string \<Rightarrow> route_target list \<Rightarrow> graph_error + unit" where
  "validate_route_targets c src ts = for_each (check_target c src) ts"

definition route ::
  "('s, 'u) compiled_graph \<Rightarrow> string \<Rightarrow> route_target list option \<Rightarrow> 's \<Rightarrow>
    graph_error + route_target list" where
  "route c src goto state = (case goto of
     Some ts \<Rightarrow> and_then (validate_route_targets c src ts) (Inr ts)
   | None \<Rightarrow> (case bt_get src (cg_edges c) of
       Some t \<Rightarrow> Inr [RNode t]
     | None \<Rightarrow> (case bt_get src (cg_branches c) of
         Some br \<Rightarrow> (let label = router br state in
           case bt_get label (routes br) of
             None \<Rightarrow> Inl (MissingRoute src label)
           | Some t \<Rightarrow> Inr [RNode t])
       | None \<Rightarrow> Inr [])))"

text \<open>The deterministic successors of a node: its static edge, and the declared destinations
  of an unconditional fan-out.\<close>

definition det_succ :: "('s, 'u) compiled_graph \<Rightarrow> string \<Rightarrow> string list" where
  "det_succ c x =
    (case bt_get x (cg_edges c) of Some n \<Rightarrow> [n] | None \<Rightarrow> []) @
    (case bt_get x (cg_node_meta c) of
       Some m \<Rightarrow> if command_fanout m then command_destinations m else []
     | None \<Rightarrow> [])"

definition det_sources :: "('s, 'u) compiled_graph \<Rightarrow> string set" where
  "det_sources c = set (bt_keys (cg_edges c)) \<union> set (bt_keys (cg_node_meta c))"

lemma finite_det_sources [simp]: "finite (det_sources c)"
  by (simp add: det_sources_def)

lemma det_succ_source: "det_succ c x \<noteq> [] \<Longrightarrow> x \<in> det_sources c"
  by (auto simp: det_succ_def det_sources_def bt_get_None_iff split: option.splits)
     (metis bt_get_None_iff option.distinct(1))+

function det_walk ::
  "('s, 'u) compiled_graph \<Rightarrow> string \<Rightarrow> string \<Rightarrow> string list \<Rightarrow> string set \<Rightarrow> bool" where
  "det_walk c tgt stop [] seen = False"
| "det_walk c tgt stop (x # frontier) seen =
    (if x \<in> seen then det_walk c tgt stop frontier seen
     else if tgt \<in> set (det_succ c x) then True
     else det_walk c tgt stop (rev (filter (\<lambda>n. n \<noteq> stop) (det_succ c x)) @ frontier) (insert x seen))"
  by pat_completeness auto

termination det_walk
proof (relation "measures [\<lambda>(c, _, _, _, seen). card (det_sources c - seen),
                           \<lambda>(_, _, _, frontier, _). length frontier]", goal_cases)
  case (3 c tgt stop x frontier seen)
  have "card (det_sources c - insert x seen) < card (det_sources c - seen)
      \<or> card (det_sources c - insert x seen) = card (det_sources c - seen) \<and> det_succ c x = []"
  proof (cases "x \<in> det_sources c")
    case True
    with 3 have "det_sources c - insert x seen \<subset> det_sources c - seen" by blast
    then show ?thesis by (simp add: psubset_card_mono)
  next
    case False
    then have "det_sources c - insert x seen = det_sources c - seen" by blast
    with False det_succ_source show ?thesis by metis
  qed
  then show ?case by auto
qed auto

definition reaches_deterministically ::
  "('s, 'u) compiled_graph \<Rightarrow> string \<Rightarrow> string \<Rightarrow> string \<Rightarrow> bool" where
  "reaches_deterministically c src tgt stop =
    (if src = tgt then True else det_walk c tgt stop [src] {})"

text \<open>The accumulators of \<open>route_completed\<close>.\<close>

type_synonym arrivals = "(string \<times> string hset) list"

record routing =
  rt_next :: "activation list"
  rt_seen :: "string set"
  rt_arrivals :: arrivals

definition push_activation :: "string \<Rightarrow> json option \<Rightarrow> routing \<Rightarrow> routing" where
  "push_activation n arg r =
    (let act = \<lparr>act_node = n, act_send_arg = arg, act_task_id = []\<rparr>
     in if arg \<noteq> None then r\<lparr>rt_next := rt_next r @ [act]\<rparr>
        else if n \<in> rt_seen r then r
        else r\<lparr>rt_next := rt_next r @ [act], rt_seen := insert n (rt_seen r)\<rparr>)"

definition arrived_at :: "string \<Rightarrow> arrivals \<Rightarrow> string hset" where
  "arrived_at b arr = (case bt_get b arr of Some ps \<Rightarrow> ps | None \<Rightarrow> [])"

text \<open>An arrival of \<open>p\<close> at barrier \<open>b\<close>: it is held while a predecessor is missing; the last one
  clears the entry and activates the barrier node.\<close>

definition arrive ::
  "string hset \<Rightarrow> string \<Rightarrow> string \<Rightarrow> json option \<Rightarrow> routing \<Rightarrow> routing" where
  "arrive required p b arg r =
    (let arrived = hs_insert p (arrived_at b (rt_arrivals r));
         arr' = hm_insert b arrived (rt_arrivals r)
     in if \<not> set required \<subseteq> set arrived then r\<lparr>rt_arrivals := arr'\<rparr>
        else push_activation b arg (r\<lparr>rt_arrivals := bt_remove b arr'\<rparr>))"

definition deliver ::
  "('s, 'u) compiled_graph \<Rightarrow> string \<Rightarrow> route_target \<Rightarrow> routing \<Rightarrow> routing" where
  "deliver c src t r =
    (let b = target_node t; arg = target_send_arg t in
     if b = END then r
     else (case bt_get b (cg_waiting c) of
         Some required \<Rightarrow> if src \<in> set required then arrive required src b arg r
                          else push_activation b arg r
       | None \<Rightarrow> push_activation b arg r))"

fun route_each ::
  "('s, 'u) compiled_graph \<Rightarrow> (nat \<Rightarrow> route_target list option) \<Rightarrow> 's \<Rightarrow> nat \<Rightarrow> activation list \<Rightarrow>
    routing \<Rightarrow> (graph_error + route_target list list) \<times> routing" where
  "route_each c gotos state i [] r = (Inr [], r)"
| "route_each c gotos state i (a # as) r =
    (case route c (act_node a) (gotos i) state of
       Inl e \<Rightarrow> (Inl e, r)
     | Inr ts \<Rightarrow>
         (case route_each c gotos state (Suc i) as (fold (deliver c (act_node a)) ts r) of
            (Inl e, r') \<Rightarrow> (Inl e, r')
          | (Inr tss, r') \<Rightarrow> (Inr (ts # tss), r')))"

text \<open>The targets that the activations of one node resolved to in this step.\<close>

definition source_targets ::
  "activation list \<Rightarrow> route_target list list \<Rightarrow> string \<Rightarrow> route_target list" where
  "source_targets completed resolved src =
    concat (map snd (filter (\<lambda>(a, _). act_node a = src) (zip completed resolved)))"

definition leads_to ::
  "('s, 'u) compiled_graph \<Rightarrow> route_target list \<Rightarrow> string \<Rightarrow> string \<Rightarrow> bool" where
  "leads_to c ts p b \<longleftrightarrow> (\<exists>t \<in> set ts. reaches_deterministically c (target_node t) p b)"

definition relief_step ::
  "('s, 'u) compiled_graph \<Rightarrow> activation list \<Rightarrow> route_target list list \<Rightarrow> barrier_relief \<Rightarrow>
    routing \<Rightarrow> routing" where
  "relief_step c completed resolved rl r =
    (if relief_source rl \<notin> act_node ` set completed then r
     else let ts = source_targets completed resolved (relief_source rl);
              b = barrier_node rl; p = relief_node rl
          in if leads_to c ts p b \<or> p \<in> rt_seen r then r
             else (case bt_get b (cg_waiting c) of
                 None \<Rightarrow> r
               | Some required \<Rightarrow>
                   if arrived_at b (rt_arrivals r) \<noteq> []
                      \<or> (\<exists>q \<in> set required. leads_to c ts q b)
                   then arrive required p b None r
                   else r))"

definition route_completed ::
  "('s, 'u) compiled_graph \<Rightarrow> activation list \<Rightarrow> (nat \<Rightarrow> route_target list option) \<Rightarrow> 's \<Rightarrow>
    arrivals \<Rightarrow> (graph_error + activation list) \<times> arrivals" where
  "route_completed c completed gotos state arr =
    (case route_each c gotos state 0 completed \<lparr>rt_next = [], rt_seen = {}, rt_arrivals = arr\<rparr> of
       (Inl e, r) \<Rightarrow> (Inl e, rt_arrivals r)
     | (Inr resolved, r) \<Rightarrow>
         let r' = fold (relief_step c completed resolved) (cg_barrier_reliefs c) r
         in (Inr (rt_next r'), rt_arrivals r'))"

section \<open>The deterministic walk\<close>

text \<open>What the walk follows: deterministic successors, out of any node but \<open>stop\<close>, which is
  only left when the walk starts there.\<close>

definition det_rel :: "('s, 'u) compiled_graph \<Rightarrow> string \<Rightarrow> string \<Rightarrow> (string \<times> string) set" where
  "det_rel c src stop = {(a, b). b \<in> set (det_succ c a) \<and> (a = src \<or> a \<noteq> stop)}"

lemma det_walk_sound:
  "det_walk c tgt stop frontier seen \<Longrightarrow> \<forall>x \<in> set frontier. x = src \<or> x \<noteq> stop \<Longrightarrow>
    \<exists>x \<in> set frontier. (x, tgt) \<in> (det_rel c src stop)\<^sup>*"
proof (induction c tgt stop frontier seen rule: det_walk.induct)
  case (2 c tgt stop x frontier seen)
  consider "x \<in> seen" | "x \<notin> seen" "tgt \<in> set (det_succ c x)"
    | "x \<notin> seen" "tgt \<notin> set (det_succ c x)" by blast
  then show ?case
  proof cases
    case 1
    with 2 show ?thesis by auto
  next
    case 2
    with "2.prems"(2) have "(x, tgt) \<in> det_rel c src stop" by (simp add: det_rel_def)
    then show ?thesis by (intro bexI [of _ x]) auto
  next
    case 3
    then have "det_walk c tgt stop
        (rev (filter (\<lambda>n. n \<noteq> stop) (det_succ c x)) @ frontier) (insert x seen)"
      using "2.prems"(1) by simp
    from "2.IH"(2) [OF 3 this] "2.prems"(2) obtain y where
      y: "y \<in> set (det_succ c x) \<or> y \<in> set frontier" "(y, tgt) \<in> (det_rel c src stop)\<^sup>*" by auto
    show ?thesis
    proof (cases "y \<in> set frontier")
      case False
      with y "2.prems"(2) have "(x, y) \<in> det_rel c src stop" by (simp add: det_rel_def)
      with y(2) show ?thesis by (intro bexI [of _ x]) (auto intro: converse_rtrancl_into_rtrancl)
    qed (use y in auto)
  qed
qed simp

lemma det_walk_complete:
  "\<not> det_walk c tgt stop frontier seen \<Longrightarrow>
   \<forall>a \<in> seen. tgt \<notin> set (det_succ c a)
     \<and> (\<forall>b \<in> set (det_succ c a). b = stop \<or> b \<in> seen \<or> b \<in> set frontier) \<Longrightarrow>
   \<exists>C. set frontier \<union> seen \<subseteq> C \<and> (\<forall>a \<in> C. tgt \<notin> set (det_succ c a)
     \<and> (\<forall>b \<in> set (det_succ c a). b = stop \<or> b \<in> C))"
proof (induction c tgt stop frontier seen rule: det_walk.induct)
  case (1 c tgt stop seen)
  then show ?case by (intro exI [of _ seen]) auto
next
  case (2 c tgt stop x frontier seen)
  show ?case
  proof (cases "x \<in> seen")
    case True
    with "2.prems" have "\<not> det_walk c tgt stop frontier seen" by simp
    moreover have "\<forall>a \<in> seen. tgt \<notin> set (det_succ c a)
      \<and> (\<forall>b \<in> set (det_succ c a). b = stop \<or> b \<in> seen \<or> b \<in> set frontier)"
      using "2.prems"(2) True by auto
    ultimately obtain C where "set frontier \<union> seen \<subseteq> C"
      "\<forall>a \<in> C. tgt \<notin> set (det_succ c a) \<and> (\<forall>b \<in> set (det_succ c a). b = stop \<or> b \<in> C)"
      using "2.IH"(1) [OF True] by blast
    with True show ?thesis by (intro exI [of _ C]) auto
  next
    case False
    with "2.prems" have nt: "tgt \<notin> set (det_succ c x)" by auto
    with False "2.prems" have "\<not> det_walk c tgt stop
        (rev (filter (\<lambda>n. n \<noteq> stop) (det_succ c x)) @ frontier) (insert x seen)" by simp
    moreover have "\<forall>a \<in> insert x seen. tgt \<notin> set (det_succ c a)
      \<and> (\<forall>b \<in> set (det_succ c a). b = stop \<or> b \<in> insert x seen
        \<or> b \<in> set (rev (filter (\<lambda>n. n \<noteq> stop) (det_succ c x)) @ frontier))"
      using "2.prems"(2) nt by auto
    ultimately obtain C where
      "set (rev (filter (\<lambda>n. n \<noteq> stop) (det_succ c x)) @ frontier) \<union> insert x seen \<subseteq> C"
      "\<forall>a \<in> C. tgt \<notin> set (det_succ c a) \<and> (\<forall>b \<in> set (det_succ c a). b = stop \<or> b \<in> C)"
      using "2.IH"(2) [OF False nt] by blast
    then show ?thesis by (intro exI [of _ C]) auto
  qed
qed

text \<open>The walk that decides whether a taken branch leads
  to a barrier predecessor answers yes exactly when the predecessor is reachable over
  static edges and unconditional fan-outs without passing through the barrier.\<close>

theorem reaches_deterministically_exact:
  "reaches_deterministically c src tgt stop \<longleftrightarrow> (src, tgt) \<in> (det_rel c src stop)\<^sup>*"
proof
  assume "reaches_deterministically c src tgt stop"
  then consider "src = tgt" | "det_walk c tgt stop [src] {}"
    by (auto simp: reaches_deterministically_def split: if_splits)
  then show "(src, tgt) \<in> (det_rel c src stop)\<^sup>*"
    using det_walk_sound [of c tgt stop "[src]" "{}" src] by cases auto
next
  assume path: "(src, tgt) \<in> (det_rel c src stop)\<^sup>*"
  show "reaches_deterministically c src tgt stop"
  proof (rule ccontr)
    assume neg: "\<not> reaches_deterministically c src tgt stop"
    then have ne: "src \<noteq> tgt" and "\<not> det_walk c tgt stop [src] {}"
      by (auto simp: reaches_deterministically_def split: if_splits)
    from det_walk_complete [OF this(2)] obtain C where C: "src \<in> C"
      "\<forall>a \<in> C. tgt \<notin> set (det_succ c a) \<and> (\<forall>b \<in> set (det_succ c a). b = stop \<or> b \<in> C)" by auto
    have "x \<noteq> tgt \<and> (x \<in> C \<or> x = stop)" if "(src, x) \<in> (det_rel c src stop)\<^sup>*" for x
      using that
    proof (induction rule: rtrancl_induct)
      case base
      with ne C show ?case by simp
    next
      case (step a b)
      then have "a \<in> C" "b \<in> set (det_succ c a)" using C(1) by (auto simp: det_rel_def)
      with C(2) show ?case by blast
    qed
    with path show False by blast
  qed
qed

section \<open>Deliveries\<close>

text \<open>A step without a routing error delivers each resolved target of each activation, in
  order.\<close>

definition deliveries ::
  "activation list \<Rightarrow> route_target list list \<Rightarrow> (string \<times> route_target) list" where
  "deliveries completed resolved =
    concat (map (\<lambda>(a, ts). map (Pair (act_node a)) ts) (zip completed resolved))"

lemma fold_deliver_pairs:
  "fold (\<lambda>(src, t). deliver c src t) (map (Pair n) ts) r = fold (deliver c n) ts r"
  by (induction ts arbitrary: r) auto

lemma route_each_Inr:
  "route_each c gotos state i as r = (Inr resolved, r') \<Longrightarrow>
    length resolved = length as
    \<and> (\<forall>j < length as. route c (act_node (as ! j)) (gotos (i + j)) state = Inr (resolved ! j))
    \<and> r' = fold (\<lambda>(src, t). deliver c src t) (deliveries as resolved) r"
proof (induction as arbitrary: i r resolved)
  case (Cons a as)
  from Cons.prems obtain ts tss where rt: "route c (act_node a) (gotos i) state = Inr ts"
    and rec: "route_each c gotos state (Suc i) as (fold (deliver c (act_node a)) ts r) = (Inr tss, r')"
    and resolved: "resolved = ts # tss"
    by (auto split: sum.splits prod.splits)
  from Cons.IH [OF rec] rt show ?case
    by (auto simp: resolved deliveries_def fold_deliver_pairs less_Suc_eq_0_disj)
qed (simp add: deliveries_def)

section \<open>Traces of a routing pass\<close>

text \<open>The steps a routing pass is made of.  \<open>D\<close> records the deliveries so far, \<open>L\<close> the phantom
  arrivals of reliefs.\<close>

inductive traced ::
  "('s, 'u) compiled_graph \<Rightarrow> arrivals \<Rightarrow> (string \<times> string) set \<Rightarrow> (string \<times> string) set \<Rightarrow>
    routing \<Rightarrow> bool"
  for c arr0 where
  init: "traced c arr0 {} {} \<lparr>rt_next = [], rt_seen = {}, rt_arrivals = arr0\<rparr>"
| finish: "traced c arr0 D L r \<Longrightarrow> traced c arr0 (insert (src, END) D) L r"
| pass: "traced c arr0 D L r \<Longrightarrow> n \<noteq> END \<Longrightarrow>
    \<forall>req. bt_get n (cg_waiting c) = Some req \<longrightarrow> src \<notin> set req \<Longrightarrow>
    traced c arr0 (insert (src, n) D) L (push_activation n arg r)"
| hold: "traced c arr0 D L r \<Longrightarrow> bt_get b (cg_waiting c) = Some req \<Longrightarrow> src \<in> set req \<Longrightarrow>
    traced c arr0 (insert (src, b) D) L (arrive req src b arg r)"
| phantom: "traced c arr0 D L r \<Longrightarrow> bt_get b (cg_waiting c) = Some req \<Longrightarrow>
    traced c arr0 D (insert (p, b) L) (arrive req p b None r)"

lemma traced_deliver:
  "traced c arr0 D L r \<Longrightarrow> traced c arr0 (insert (src, target_node t) D) L (deliver c src t r)"
  by (auto simp: deliver_def Let_def split: option.split intro: finish pass hold)

lemma traced_deliveries:
  "traced c arr0 D L r \<Longrightarrow>
    traced c arr0 ((\<lambda>(src, t). (src, target_node t)) ` set ds \<union> D) L
      (fold (\<lambda>(src, t). deliver c src t) ds r)"
proof (induction ds arbitrary: D r)
  case (Cons d ds)
  obtain src t where d: "d = (src, t)" by (cases d)
  from Cons.IH [OF traced_deliver [OF Cons.prems, of src t]] show ?case by (simp add: d)
qed simp

definition relievable ::
  "('s, 'u) compiled_graph \<Rightarrow> activation list \<Rightarrow> route_target list list \<Rightarrow> (string \<times> string) set" where
  "relievable c completed resolved =
    {(p, b). \<exists>rl \<in> set (cg_barrier_reliefs c). relief_node rl = p \<and> barrier_node rl = b
       \<and> relief_source rl \<in> act_node ` set completed
       \<and> \<not> leads_to c (source_targets completed resolved (relief_source rl)) p b}"

lemma traced_reliefs:
  "traced c arr0 D L r \<Longrightarrow> L \<subseteq> relievable c completed resolved \<Longrightarrow>
    set rls \<subseteq> set (cg_barrier_reliefs c) \<Longrightarrow>
    \<exists>L'. L' \<subseteq> relievable c completed resolved \<and>
      traced c arr0 D L' (fold (relief_step c completed resolved) rls r)"
proof (induction rls arbitrary: L r)
  case (Cons rl rls)
  obtain L1 where "L1 \<subseteq> relievable c completed resolved"
    "traced c arr0 D L1 (relief_step c completed resolved rl r)"
  proof (cases "relief_step c completed resolved rl r = r")
    case False
    then obtain req where req: "bt_get (barrier_node rl) (cg_waiting c) = Some req"
      "relief_step c completed resolved rl r = arrive req (relief_node rl) (barrier_node rl) None r"
      and ok: "(relief_node rl, barrier_node rl) \<in> relievable c completed resolved"
      using Cons.prems(3)
      by (auto simp: relief_step_def Let_def relievable_def split: if_splits option.splits)
    show ?thesis
      using that [of "insert (relief_node rl, barrier_node rl) L"] Cons.prems(1,2) req ok
      by (auto intro: phantom)
  qed (use that Cons.prems in auto)
  with Cons show ?case by auto
qed auto

lemma route_completed_Inr:
  assumes "route_completed c completed gotos state arr = (Inr nxt, arr')"
  obtains resolved L r where
    "length resolved = length completed"
    "\<And>j. j < length completed \<Longrightarrow>
      route c (act_node (completed ! j)) (gotos j) state = Inr (resolved ! j)"
    "L \<subseteq> relievable c completed resolved"
    "traced c arr ((\<lambda>(src, t). (src, target_node t)) ` set (deliveries completed resolved)) L r"
    "nxt = rt_next r" "arr' = rt_arrivals r"
proof -
  let ?r0 = "\<lparr>rt_next = [], rt_seen = {}, rt_arrivals = arr\<rparr>"
  from assms obtain resolved r where re: "route_each c gotos state 0 completed ?r0 = (Inr resolved, r)"
    and nxt: "nxt = rt_next (fold (relief_step c completed resolved) (cg_barrier_reliefs c) r)"
    and arr': "arr' = rt_arrivals (fold (relief_step c completed resolved) (cg_barrier_reliefs c) r)"
    by (auto simp: route_completed_def Let_def split: prod.splits sum.splits)
  let ?D = "(\<lambda>(src, t). (src, target_node t)) ` set (deliveries completed resolved)"
  have "traced c arr ?D {} r"
    using route_each_Inr [OF re] traced_deliveries [OF init, of c arr "deliveries completed resolved"]
    by simp
  from traced_reliefs [OF this, of completed resolved "cg_barrier_reliefs c"] obtain L where
    "L \<subseteq> relievable c completed resolved"
    "traced c arr ?D L (fold (relief_step c completed resolved) (cg_barrier_reliefs c) r)" by auto
  with route_each_Inr [OF re] nxt arr' show ?thesis by (intro that) auto
qed

section \<open>Invariants of a trace\<close>

definition plain_nodes :: "activation list \<Rightarrow> string list" where
  "plain_nodes acts = map act_node (filter (\<lambda>a. act_send_arg a = None) acts)"

lemma plain_nodes_snoc [simp]:
  "plain_nodes (acts @ [a]) =
    plain_nodes acts @ (if act_send_arg a = None then [act_node a] else [])"
  by (simp add: plain_nodes_def)

lemma push_activation_arrivals [simp]: "rt_arrivals (push_activation n arg r) = rt_arrivals r"
  by (simp add: push_activation_def Let_def)

lemma push_activation_next:
  "act_node ` set (rt_next (push_activation n arg r)) =
    (if arg = None \<and> n \<in> rt_seen r then act_node ` set (rt_next r)
     else insert n (act_node ` set (rt_next r)))"
  by (auto simp: push_activation_def Let_def)

lemma arrive_cases:
  obtains (held) "\<not> set req \<subseteq> insert p (set (arrived_at b (rt_arrivals r)))"
      "arrive req p b arg r = r\<lparr>rt_arrivals :=
        hm_insert b (hs_insert p (arrived_at b (rt_arrivals r))) (rt_arrivals r)\<rparr>"
  | (fires) "set req \<subseteq> insert p (set (arrived_at b (rt_arrivals r)))"
      "arrive req p b arg r = push_activation b arg (r\<lparr>rt_arrivals :=
        bt_remove b (hm_insert b (hs_insert p (arrived_at b (rt_arrivals r))) (rt_arrivals r))\<rparr>)"
  by (cases "set req \<subseteq> insert p (set (arrived_at b (rt_arrivals r)))")
     (auto simp: arrive_def Let_def)

definition seen_inv :: "routing \<Rightarrow> bool" where
  "seen_inv r \<longleftrightarrow> rt_seen r = set (plain_nodes (rt_next r)) \<and> distinct (plain_nodes (rt_next r))"

lemma seen_inv_push: "seen_inv r \<Longrightarrow> seen_inv (push_activation n arg r)"
  by (auto simp: seen_inv_def push_activation_def Let_def)

lemma seen_inv_arrivals [simp]: "seen_inv (r\<lparr>rt_arrivals := x\<rparr>) \<longleftrightarrow> seen_inv r"
  by (simp add: seen_inv_def)

lemma traced_seen: "traced c arr0 D L r \<Longrightarrow> seen_inv r"
proof (induction rule: traced.induct)
  case (hold D L r b req src arg)
  then show ?case by (cases rule: arrive_cases [of req src b r arg]) (simp_all add: seen_inv_push)
next
  case (phantom D L r b req p)
  then show ?case by (cases rule: arrive_cases [of req p b r None]) (simp_all add: seen_inv_push)
qed (simp_all add: seen_inv_push, simp add: seen_inv_def plain_nodes_def)

lemma seen_in_next: "seen_inv r \<Longrightarrow> n \<in> rt_seen r \<Longrightarrow> n \<in> act_node ` set (rt_next r)"
  by (auto simp: seen_inv_def plain_nodes_def)

lemma push_in_next:
  "seen_inv r \<Longrightarrow>
    act_node ` set (rt_next (push_activation n arg r)) = insert n (act_node ` set (rt_next r))"
  using seen_in_next [of r n] by (auto simp: push_activation_next)

text \<open>Between super-steps every recorded barrier is still missing a predecessor.\<close>

definition open_barriers :: "('s, 'u) compiled_graph \<Rightarrow> arrivals \<Rightarrow> bool" where
  "open_barriers c arr \<longleftrightarrow> hm_wf arr \<and>
    (\<forall>b ps. bt_get b arr = Some ps \<longrightarrow> distinct ps \<and>
      (\<exists>req. bt_get b (cg_waiting c) = Some req \<and> \<not> set req \<subseteq> set ps))"

lemma arrived_at_distinct: "open_barriers c arr \<Longrightarrow> distinct (arrived_at b arr)"
  by (auto simp: arrived_at_def open_barriers_def split: option.split)

lemma open_barriers_arrive:
  assumes "open_barriers c (rt_arrivals r)" "bt_get b (cg_waiting c) = Some req"
  shows "open_barriers c (rt_arrivals (arrive req p b arg r))"
proof (cases rule: arrive_cases [of req p b r arg])
  case held
  with assms arrived_at_distinct [OF assms(1), of b] show ?thesis
    by (auto simp: open_barriers_def)
next
  case fires
  with assms show ?thesis by (auto simp: open_barriers_def)
qed

lemma traced_open: "traced c arr0 D L r \<Longrightarrow> open_barriers c arr0 \<Longrightarrow> open_barriers c (rt_arrivals r)"
  by (induction rule: traced.induct) (simp_all add: open_barriers_arrive)

lemma arrived_at_simps [simp]:
  "arrived_at x (hm_insert b ps arr) = (if x = b then ps else arrived_at x arr)"
  "hm_wf arr \<Longrightarrow> arrived_at x (bt_remove b arr) = (if x = b then [] else arrived_at x arr)"
  by (simp_all add: arrived_at_def)

lemma arrived_at_arrive:
  assumes "hm_wf (rt_arrivals r)"
  shows "set (arrived_at x (rt_arrivals (arrive req p b arg r))) =
    (if x \<noteq> b then set (arrived_at x (rt_arrivals r))
     else if set req \<subseteq> insert p (set (arrived_at b (rt_arrivals r))) then {}
     else insert p (set (arrived_at b (rt_arrivals r))))"
  by (cases rule: arrive_cases [of req p b r arg]) (simp_all add: assms)

lemma next_arrive:
  assumes "seen_inv r"
  shows "act_node ` set (rt_next (arrive req p b arg r)) =
    (if set req \<subseteq> insert p (set (arrived_at b (rt_arrivals r)))
     then insert b (act_node ` set (rt_next r)) else act_node ` set (rt_next r))"
  by (cases rule: arrive_cases [of req p b r arg]) (simp_all add: assms push_in_next)

text \<open>What has arrived, and what an activated barrier rests on.\<close>

definition backing :: "arrivals \<Rightarrow> (string \<times> string) set \<Rightarrow> (string \<times> string) set \<Rightarrow> string \<Rightarrow> string set" where
  "backing arr0 D L b = set (arrived_at b arr0) \<union> {p. (p, b) \<in> D \<union> L}"

lemma traced_sound:
  assumes "traced c arr0 D L r" "open_barriers c arr0"
  shows "set (arrived_at b (rt_arrivals r)) \<subseteq> backing arr0 D L b
    \<and> (b \<in> act_node ` set (rt_next r) \<longrightarrow> bt_get b (cg_waiting c) = Some req \<longrightarrow>
        (\<exists>src. src \<notin> set req \<and> (src, b) \<in> D) \<or> set req \<subseteq> backing arr0 D L b)"
  using assms
proof (induction rule: traced.induct)
  case init
  then show ?case by (simp add: backing_def)
next
  case (finish D L r src)
  then show ?case by (auto simp: backing_def)
next
  case (pass D L r n src arg)
  then show ?case
    by (cases "b = n") (auto simp: backing_def push_in_next [OF traced_seen [OF pass.hyps(1)]])
next
  case (hold D L r n rq src arg)
  have wf: "hm_wf (rt_arrivals r)" "seen_inv r"
    using traced_open [OF hold.hyps(1) hold.prems] traced_seen [OF hold.hyps(1)]
    by (simp_all add: open_barriers_def)
  show ?case
    unfolding arrived_at_arrive [OF wf(1)] next_arrive [OF wf(2)]
    using hold by (cases "b = n") (auto simp: backing_def split: if_splits)
next
  case (phantom D L r n rq p)
  have wf: "hm_wf (rt_arrivals r)" "seen_inv r"
    using traced_open [OF phantom.hyps(1) phantom.prems] traced_seen [OF phantom.hyps(1)]
    by (simp_all add: open_barriers_def)
  show ?case
    unfolding arrived_at_arrive [OF wf(1)] next_arrive [OF wf(2)]
    using phantom by (cases "b = n") (auto simp: backing_def split: if_splits)
qed

lemma traced_complete:
  assumes "traced c arr0 D L r" "open_barriers c arr0" "b \<noteq> END"
    "bt_get b (cg_waiting c) = Some req" "b \<notin> act_node ` set (rt_next r)"
  shows "backing arr0 D L b \<subseteq> set (arrived_at b (rt_arrivals r))"
  using assms
proof (induction rule: traced.induct)
  case init
  then show ?case by (simp add: backing_def)
next
  case (finish D L r src)
  then show ?case by (auto simp: backing_def)
next
  case (pass D L r n src arg)
  have "seen_inv r" by (rule traced_seen [OF pass.hyps(1)])
  with pass show ?case by (cases "b = n") (auto simp: backing_def push_in_next)
next
  case (hold D L r n rq src arg)
  have wf: "hm_wf (rt_arrivals r)" "seen_inv r"
    using traced_open [OF hold.hyps(1) hold.prems(1)] traced_seen [OF hold.hyps(1)]
    by (simp_all add: open_barriers_def)
  show ?case
    unfolding arrived_at_arrive [OF wf(1)]
    using hold next_arrive [OF wf(2), of rq src n arg]
    by (cases "b = n") (auto simp: backing_def split: if_splits)
next
  case (phantom D L r n rq p)
  have wf: "hm_wf (rt_arrivals r)" "seen_inv r"
    using traced_open [OF phantom.hyps(1) phantom.prems(1)] traced_seen [OF phantom.hyps(1)]
    by (simp_all add: open_barriers_def)
  show ?case
    unfolding arrived_at_arrive [OF wf(1)]
    using phantom next_arrive [OF wf(2), of rq p n None]
    by (cases "b = n") (auto simp: backing_def split: if_splits)
qed

lemma traced_nodes:
  "traced c arr0 D L r \<Longrightarrow> n \<in> act_node ` set (rt_next r) \<Longrightarrow>
    n \<noteq> END \<and> n \<in> snd ` D \<or> bt_get n (cg_waiting c) \<noteq> None"
proof (induction rule: traced.induct)
  case (hold D L r b req src arg)
  with next_arrive [OF traced_seen [OF hold.hyps(1)], of req src b arg] show ?case
    by (auto split: if_splits)
next
  case (phantom D L r b req p)
  with next_arrive [OF traced_seen [OF phantom.hyps(1)], of req p b None] show ?case
    by (auto split: if_splits)
next
  case (pass D L r m src arg)
  then show ?case by (auto simp: push_in_next [OF traced_seen [OF pass.hyps(1)]])
qed auto

section \<open>Properties of a routing pass\<close>

definition routed ::
  "('s, 'u) compiled_graph \<Rightarrow> activation list \<Rightarrow> (nat \<Rightarrow> route_target list option) \<Rightarrow> 's \<Rightarrow>
    string \<Rightarrow> string \<Rightarrow> bool" where
  "routed c completed gotos state src n \<longleftrightarrow>
    (\<exists>j < length completed. act_node (completed ! j) = src \<and>
      (\<exists>ts. route c src (gotos j) state = Inr ts \<and> n \<in> target_node ` set ts))"

definition relieved ::
  "('s, 'u) compiled_graph \<Rightarrow> activation list \<Rightarrow> (nat \<Rightarrow> route_target list option) \<Rightarrow> 's \<Rightarrow>
    string \<Rightarrow> string \<Rightarrow> bool" where
  "relieved c completed gotos state p b \<longleftrightarrow>
    (\<exists>rl \<in> set (cg_barrier_reliefs c). relief_node rl = p \<and> barrier_node rl = b
      \<and> relief_source rl \<in> act_node ` set completed
      \<and> (\<forall>n. routed c completed gotos state (relief_source rl) n \<longrightarrow>
             \<not> reaches_deterministically c n p b))"

lemma in_deliveries:
  assumes "length resolved = length completed"
    and "\<And>j. j < length completed \<Longrightarrow>
      route c (act_node (completed ! j)) (gotos j) state = Inr (resolved ! j)"
  shows "(src, n) \<in> (\<lambda>(src, t). (src, target_node t)) ` set (deliveries completed resolved)
    \<longleftrightarrow> routed c completed gotos state src n"
proof -
  have "(src, n) \<in> (\<lambda>(src, t). (src, target_node t)) ` set (deliveries completed resolved)
    \<longleftrightarrow> (\<exists>j < length completed. act_node (completed ! j) = src \<and> n \<in> target_node ` set (resolved ! j))"
    using assms(1) by (force simp: deliveries_def set_zip)
  also have "\<dots> \<longleftrightarrow> routed c completed gotos state src n"
    using assms(2) by (auto simp: routed_def)
  finally show ?thesis .
qed

lemma relievable_relieved:
  assumes "length resolved = length completed"
    and "\<And>j. j < length completed \<Longrightarrow>
      route c (act_node (completed ! j)) (gotos j) state = Inr (resolved ! j)"
    and "(p, b) \<in> relievable c completed resolved"
  shows "relieved c completed gotos state p b"
proof -
  have "t \<in> set (source_targets completed resolved src) \<longleftrightarrow>
      (\<exists>j < length completed. act_node (completed ! j) = src \<and> t \<in> set (resolved ! j))" for t src
    using assms(1) by (force simp: source_targets_def set_zip)
  then have "n \<in> target_node ` set (source_targets completed resolved src)"
    if "routed c completed gotos state src n" for src n
    using that assms(2) by (force simp: routed_def)
  with assms(3) show ?thesis unfolding relievable_def relieved_def leads_to_def by fastforce
qed

lemma route_completed_traced:
  assumes "route_completed c completed gotos state arr = (Inr nxt, arr')"
  obtains D L r where "traced c arr D L r" "nxt = rt_next r" "arr' = rt_arrivals r"
    "\<And>src n. (src, n) \<in> D \<longleftrightarrow> routed c completed gotos state src n"
    "\<And>p b. (p, b) \<in> L \<Longrightarrow> relieved c completed gotos state p b"
proof (rule route_completed_Inr [OF assms])
  fix resolved L r
  assume a: "length resolved = length completed"
    "\<And>j. j < length completed \<Longrightarrow>
      route c (act_node (completed ! j)) (gotos j) state = Inr (resolved ! j)"
    "L \<subseteq> relievable c completed resolved"
    "traced c arr ((\<lambda>(src, t). (src, target_node t)) ` set (deliveries completed resolved)) L r"
    "nxt = rt_next r" "arr' = rt_arrivals r"
  show thesis
    using that [OF a(4,5,6) in_deliveries [OF a(1,2)]] relievable_relieved [OF a(1,2)] a(3) by blast
qed

lemma route_each_traced:
  "route_each c gotos state i as r = (res, r') \<Longrightarrow> traced c arr D L r \<Longrightarrow> \<exists>D'. traced c arr D' L r'"
proof (induction as arbitrary: i r res D)
  case (Cons a as)
  show ?case
  proof (cases "route c (act_node a) (gotos i) state")
    case (Inl e)
    with Cons.prems show ?thesis by auto
  next
    case (Inr ts)
    let ?r = "fold (deliver c (act_node a)) ts r"
    from Cons.prems(1) Inr obtain res' where
      "route_each c gotos state (Suc i) as ?r = (res', r')"
      by (auto split: prod.splits sum.splits)
    moreover have "\<exists>D'. traced c arr D' L ?r"
      using traced_deliveries [OF Cons.prems(2), of "map (Pair (act_node a)) ts"]
      by (auto simp: fold_deliver_pairs)
    ultimately show ?thesis using Cons.IH by blast
  qed
qed auto

lemma route_keeps_open:
  assumes "open_barriers c arr" "route_completed c completed gotos state arr = (res, arr')"
  shows "open_barriers c arr'"
proof (cases res)
  case (Inr nxt)
  with assms(2) obtain D L r where "traced c arr D L r" "arr' = rt_arrivals r"
    using route_completed_traced [of c completed gotos state arr nxt arr'] by metis
  with traced_open assms(1) show ?thesis by blast
next
  case (Inl e)
  with assms(2) obtain e' r where
    "route_each c gotos state 0 completed \<lparr>rt_next = [], rt_seen = {}, rt_arrivals = arr\<rparr> = (Inl e', r)"
    "arr' = rt_arrivals r"
    by (auto simp: route_completed_def Let_def split: prod.splits sum.splits)
  moreover from route_each_traced [OF this(1) init] obtain D where "traced c arr D {} r" ..
  ultimately show ?thesis using traced_open assms(1) by blast
qed

text \<open>Routing keeps the barrier table well formed whatever the outcome:
  each recorded barrier is a registered waiting node still missing a predecessor, so no
  completed barrier is ever left behind unfired.\<close>

theorem barriers_stay_open:
  assumes "open_barriers c arr" "route_completed c completed gotos state arr = (res, arr')"
  shows "open_barriers c arr'"
  using assms by (rule route_keeps_open)

text \<open>C1 (barrier_fires_only_complete): a barrier node is activated only if some node outside
  its predecessor set routed to it directly (a back-edge re-entry), or every predecessor is
  accounted for: it had arrived in an earlier step, it completed and routed to the barrier
  in this one, or a relief speaks for it, whose source completed without taking any branch
  that leads to it.\<close>

theorem barrier_fires_only_complete:
  assumes "open_barriers c arr" "route_completed c completed gotos state arr = (Inr nxt, arr')"
    "bt_get b (cg_waiting c) = Some req" "b \<in> act_node ` set nxt"
  shows "(\<exists>src. src \<notin> set req \<and> routed c completed gotos state src b)
    \<or> (\<forall>p \<in> set req. p \<in> set (arrived_at b arr) \<or> routed c completed gotos state p b
        \<or> relieved c completed gotos state p b)"
proof (rule route_completed_traced [OF assms(2)])
  fix D L r
  assume t: "traced c arr D L r" "nxt = rt_next r"
    and DL: "\<And>src n. (src, n) \<in> D \<longleftrightarrow> routed c completed gotos state src n"
    "\<And>p b. (p, b) \<in> L \<Longrightarrow> relieved c completed gotos state p b"
  have "(\<exists>src. src \<notin> set req \<and> (src, b) \<in> D) \<or> set req \<subseteq> backing arr D L b"
    using traced_sound [OF t(1) assms(1), of b req] assms(3,4) t(2) by blast
  then show ?thesis
    using DL unfolding backing_def by blast
qed

text \<open>C2 (barrier_fires_when_complete): a barrier does not deadlock: in the step in which the last
  missing predecessor arrives, the barrier node is activated.\<close>

theorem barrier_fires_when_complete:
  assumes "open_barriers c arr" "route_completed c completed gotos state arr = (Inr nxt, arr')"
    "bt_get b (cg_waiting c) = Some req" "b \<noteq> END" "built bl" "compile bl = Inr c"
    "\<forall>p \<in> set req. p \<in> set (arrived_at b arr) \<or> routed c completed gotos state p b"
  shows "b \<in> act_node ` set nxt"
proof (rule route_completed_traced [OF assms(2)], rule ccontr)
  fix D L r
  assume t: "traced c arr D L r" "nxt = rt_next r"
    and D: "\<And>src n. (src, n) \<in> D \<longleftrightarrow> routed c completed gotos state src n"
    and "b \<notin> act_node ` set nxt"
  with traced_complete [OF t(1) assms(1,4,3)] assms(7)
  have sub: "set req \<subseteq> set (arrived_at b (rt_arrivals r))"
    unfolding backing_def by blast
  have "open_barriers c (rt_arrivals r)" by (rule traced_open [OF t(1) assms(1)])
  with sub assms(3) have "bt_get b (rt_arrivals r) = None"
    unfolding open_barriers_def arrived_at_def
    by (cases "bt_get b (rt_arrivals r)") fastforce+
  with sub have "req = []" by (simp add: arrived_at_def)
  with assms(3) compiled_ok [OF assms(5,6)] show False by (auto simp: waiting_wf_def)
qed

lemma route_registered:
  assumes "graph_ok c" "route c src goto state = Inr ts" "t \<in> set ts" "target_node t \<noteq> END"
  shows "registered c (target_node t)"
proof (cases goto)
  case (Some gs)
  with assms(2,3) have "check_target c src t = Inr ()"
    by (auto simp: route_def and_then_ok validate_route_targets_def for_each_ok)
  with assms(4) show ?thesis
    by (auto simp: check_target_def registered_def split: if_splits)
next
  case None
  show ?thesis
  proof (cases "bt_get src (cg_edges c)")
    case (Some n)
    with None assms show ?thesis by (fastforce simp: route_def graph_ok_def edges_ok_def)
  next
    case E: None
    then obtain br where "bt_get src (cg_branches c) = Some br"
      "bt_get (router br state) (routes br) = Some (target_node t)"
      using None assms(2,3) by (auto simp: route_def Let_def split: option.splits)
    with assms(1,4) show ?thesis by (fastforce simp: graph_ok_def branches_ok_def)
  qed
qed

lemma route_to_registered:
  assumes ok: "graph_ok c" and "route_completed c completed gotos state arr = (Inr nxt, arr')"
  shows "(\<forall>a \<in> set nxt. registered c (act_node a)) \<and> distinct (plain_nodes nxt)"
proof (rule route_completed_traced [OF assms(2)])
  fix D L r
  assume t: "traced c arr D L r" "nxt = rt_next r"
    and D: "\<And>src n. (src, n) \<in> D \<longleftrightarrow> routed c completed gotos state src n"
  have "registered c n" if "n \<in> act_node ` set nxt" for n
    using traced_nodes [OF t(1), of n] that t(2) D ok route_registered [OF ok]
    by (fastforce simp: routed_def graph_ok_def waiting_ok_def)
  moreover have "distinct (plain_nodes nxt)"
    using traced_seen [OF t(1)] t(2) by (simp add: seen_inv_def)
  ultimately show ?thesis by blast
qed

text \<open>C32 (route_completed_registered): over a compiled graph every activation of the next
  super-step is a registered node, so the executor always finds a handler for it, and a node
  is activated at most once besides its \<open>Send\<close> packets.\<close>

theorem route_completed_registered:
  assumes "built bl" "compile bl = Inr c"
    "route_completed c completed gotos state arr = (Inr nxt, arr')"
  shows "(\<forall>a \<in> set nxt. registered c (act_node a)) \<and> distinct (plain_nodes nxt)"
  using route_to_registered [OF _ assms(3)] compiled_ok [OF assms(1,2)] by blast

section \<open>A diamond\<close>

text \<open>\<open>a\<close> fans out to \<open>b\<close> and \<open>d\<close>, which meet at the barrier \<open>j\<close>; the relief lets \<open>j\<close> go ahead
  without \<open>d\<close> when \<open>a\<close> does not route there.\<close>

definition diamond_builder :: "(json, json) graph_builder" where
  "diamond_builder = add_barrier_relief ''a'' ''d'' ''j'' (set_finish ''j''
     (add_waiting_edge ''d'' ''j'' (add_waiting_edge ''b'' ''j''
       (with_command_destinations ''a'' [''b'', ''d''] (set_entry ''a''
         (add_node ''j'' sample_handler (add_node ''d'' sample_handler
           (add_node ''b'' sample_handler (add_node ''a'' sample_handler
             (set_reducer overwrite_reduce (builder_new ''g'')))))))))))"

definition diamond :: "(json, json) compiled_graph" where
  "diamond = from_parts diamond_builder ''a'' overwrite_reduce"

definition plain :: "string \<Rightarrow> activation" where
  "plain n = \<lparr>act_node = n, act_send_arg = None, act_task_id = []\<rparr>"

lemma diamond_built: "built diamond_builder"
  unfolding diamond_builder_def
  by (intro built_relief built_finish built_waiting_edge built_destinations built_entry built_node
      built_reducer built_new)

lemmas diamond_simps = diamond_def diamond_builder_def builder_defs set_entry_def set_finish_def

lemma diamond_compiles: "compile diamond_builder = Inr diamond"
  by (simp add: diamond_simps compile_def require_node_def check_edge_def check_branch_def
      check_waiting_def check_command_node_def hs_insert_def reject_if_def)

lemma diamond_sel [simp]:
  "cg_waiting diamond = [(''j'', [''b'', ''d''])]"
  "cg_edges diamond = [(START, ''a''), (''b'', ''j''), (''d'', ''j''), (''j'', END)]"
  "cg_branches diamond = []"
  "cg_barrier_reliefs diamond =
    [\<lparr>relief_source = ''a'', relief_node = ''d'', barrier_node = ''j''\<rparr>]"
  by (simp_all add: diamond_simps hs_insert_def)

lemmas routing_simps = route_completed_def route_def deliver_def arrive_def push_activation_def
  arrived_at_def hs_insert_def plain_def relief_step_def Let_def

lemma diamond_first:
  "route_completed diamond [plain ''b''] (\<lambda>_. None) JNull [] = (Inr [], [(''j'', [''b''])])"
  by (simp add: routing_simps)

lemma diamond_last:
  "route_completed diamond [plain ''d''] (\<lambda>_. None) JNull [(''j'', [''b''])] = (Inr [plain ''j''], [])"
  by (simp add: routing_simps)

lemma open_empty: "open_barriers c []"
  by (simp add: open_barriers_def)

theorem barriers_stay_open_witness: "open_barriers diamond [(''j'', [''b''])]"
  using barriers_stay_open [OF open_empty diamond_first] .

lemma diamond_open: "open_barriers diamond [(''j'', [''b''])]"
  by (simp add: open_barriers_def hm_wf_def)

theorem barrier_fires_only_complete_witness:
  "act_node ` set [plain ''j''] = {''j''}
    \<and> ((\<exists>src. src \<notin> {''b'', ''d''} \<and> routed diamond [plain ''d''] (\<lambda>_. None) JNull src ''j'')
      \<or> routed diamond [plain ''d''] (\<lambda>_. None) JNull ''d'' ''j''
      \<or> relieved diamond [plain ''d''] (\<lambda>_. None) JNull ''d'' ''j'')"
  using barrier_fires_only_complete [OF diamond_open diamond_last, of "''j''" "[''b'', ''d'']"]
  by (auto simp: arrived_at_def plain_def)

theorem barrier_fires_when_complete_witness:
  "routed diamond [plain ''d''] (\<lambda>_. None) JNull ''d'' ''j'' \<and> ''j'' \<in> act_node ` set [plain ''j'']"
proof -
  have r: "routed diamond [plain ''d''] (\<lambda>_. None) JNull ''d'' ''j''"
    by (simp add: routed_def route_def plain_def)
  then have "\<forall>p \<in> set [''b'', ''d'']. p \<in> set (arrived_at ''j'' [(''j'', [''b''])])
      \<or> routed diamond [plain ''d''] (\<lambda>_. None) JNull p ''j''"
    by (simp add: arrived_at_def)
  with barrier_fires_when_complete [OF diamond_open diamond_last _ _ diamond_built diamond_compiles,
      of "''j''" "[''b'', ''d'']"] r
  show ?thesis by simp
qed

theorem route_completed_registered_witness:
  "registered diamond ''j'' \<and> distinct (plain_nodes [plain ''j''])"
  using route_completed_registered [OF diamond_built diamond_compiles diamond_last]
  by (simp add: plain_def)

end
