(* ===== verification/Tf_Checkpoint.thy ===== *)
theory Tf_Checkpoint
  imports Tf_Command
begin

text \<open>
  Checkpoints, \<open>graph/checkpoint/\<close>: the persisted records, the \<open>Checkpointer\<close> trait with its
  default methods, and the in-memory backend.  A trait object is a record of its required
  operations over the backend's store; the default methods are functions of that record.
  The laws a backend promises form a locale, in which the default methods are proved
  correct once; the in-memory backend interprets it.  A poisoned lock, the only failure of
  that backend, needs a panic in another thread and is left out.
\<close>

section \<open>Records\<close>

datatype checkpoint_source = SrcInput | SrcLoop | SrcUpdate | SrcFork

fun source_as_str :: "checkpoint_source \<Rightarrow> string" where
  "source_as_str SrcInput = ''input''"
| "source_as_str SrcLoop = ''loop''"
| "source_as_str SrcUpdate = ''update''"
| "source_as_str SrcFork = ''fork''"

definition source_parse :: "string \<Rightarrow> checkpoint_source option" where
  "source_parse s =
    (if s = ''input'' then Some SrcInput
     else if s = ''loop'' then Some SrcLoop
     else if s = ''update'' then Some SrcUpdate
     else if s = ''fork'' then Some SrcFork
     else None)"

record checkpoint_config =
  cfg_thread_id :: string
  cfg_checkpoint_id :: "string option"
  cfg_namespace :: "string list"

definition config_latest :: "string \<Rightarrow> checkpoint_config" where
  "config_latest th = \<lparr>cfg_thread_id = th, cfg_checkpoint_id = None, cfg_namespace = []\<rparr>"

record pending_activation =
  pa_node :: string
  pa_send_arg :: "json option"
  pa_task_id :: string

record barrier_arrivals =
  ba_node :: string
  ba_arrived :: "string list"

record pending_write =
  pw_node :: string
  pw_task_id :: string
  pw_idx :: int
  pw_channel :: string
  pw_payload :: json

record 's checkpoint =
  ck_thread_id :: string
  ck_id :: string
  ck_run_id :: "string option"
  ck_parent :: "string option"
  ck_namespace :: "string list"
  ck_state :: 's
  ck_next_nodes :: "string list"
  ck_completed_tasks :: "string list"
  ck_pending_writes :: "pending_write list"
  ck_interrupts :: "interrupt list"
  ck_pending_activations :: "pending_activation list option"
  ck_barrier_arrivals :: "barrier_arrivals list"
  ck_metadata :: json

record 's checkpoint_tuple =
  tp_config :: checkpoint_config
  tp_checkpoint :: "'s checkpoint"
  tp_parent_config :: "checkpoint_config option"
  tp_pending_writes :: "pending_write list"

record checkpoint_metadata =
  md_thread_id :: string
  md_checkpoint_id :: string
  md_run_id :: "string option"
  md_parent :: "string option"
  md_namespace :: "string list"
  md_next_nodes :: "string list"
  md_has_interrupts :: bool
  md_source :: checkpoint_source
  md_step :: "64 word"

definition to_metadata :: "'s checkpoint \<Rightarrow> checkpoint_metadata" where
  "to_metadata c = \<lparr>md_thread_id = ck_thread_id c, md_checkpoint_id = ck_id c,
     md_run_id = ck_run_id c, md_parent = ck_parent c, md_namespace = ck_namespace c,
     md_next_nodes = ck_next_nodes c, md_has_interrupts = (ck_interrupts c \<noteq> []),
     md_source = (case Option.bind (Option.bind (jget ''source'' (ck_metadata c)) as_str) source_parse of
        Some s \<Rightarrow> s | None \<Rightarrow> SrcLoop),
     md_step = (case Option.bind (jget ''step'' (ck_metadata c)) as_u64 of
        Some n \<Rightarrow> n | None \<Rightarrow> 0)\<rparr>"

section \<open>Pending writes\<close>

definition completion_marker :: "string \<Rightarrow> string \<Rightarrow> pending_write" where
  "completion_marker n task = \<lparr>pw_node = n, pw_task_id = task, pw_idx = 0, pw_channel = n,
     pw_payload = JNull\<rparr>"

definition is_control_plane :: "pending_write \<Rightarrow> bool" where
  "is_control_plane w \<longleftrightarrow> pw_idx w < 0"

definition identity :: "pending_write \<Rightarrow> string \<times> int" where
  "identity w = (pw_task_id w, pw_idx w)"

text \<open>One incoming write against the stored list: the first entry of the same identity is
  replaced for a control-plane write and kept for a data write; with no such entry the
  write is appended.\<close>

fun merge_write :: "pending_write \<Rightarrow> pending_write list \<Rightarrow> pending_write list \<times> nat" where
  "merge_write w [] = ([w], 1)"
| "merge_write w (e # es) =
    (if identity e = identity w
     then if is_control_plane w then (w # es, 1) else (e # es, 0)
     else (let (es', n) = merge_write w es in (e # es', n)))"

fun merge_writes :: "pending_write list \<Rightarrow> pending_write list \<Rightarrow> pending_write list \<times> nat" where
  "merge_writes existing [] = (existing, 0)"
| "merge_writes existing (w # ws) =
    (let (existing', n) = merge_write w existing; (result, m) = merge_writes existing' ws
     in (result, n + m))"

section \<open>The trait\<close>

record ('st, 's) checkpointer =
  cp_put :: "'s checkpoint \<Rightarrow> 'st \<Rightarrow> (graph_error + string) \<times> 'st"
  cp_get :: "'st \<Rightarrow> string \<Rightarrow> string option \<Rightarrow> graph_error + 's checkpoint option"
  cp_list :: "'st \<Rightarrow> string \<Rightarrow> graph_error + checkpoint_metadata list"
  cp_get_thread :: "'st \<Rightarrow> string \<Rightarrow> graph_error + 's checkpoint list"
  cp_list_threads :: "'st \<Rightarrow> graph_error + string list"
  cp_delete_thread :: "string \<Rightarrow> 'st \<Rightarrow> (graph_error + unit) \<times> 'st"
  cp_delete_checkpoints :: "string \<Rightarrow> string list \<Rightarrow> 'st \<Rightarrow> (graph_error + nat) \<times> 'st"
  cp_put_writes :: "checkpoint_config \<Rightarrow> pending_write list \<Rightarrow> 'st \<Rightarrow> (graph_error + unit) \<times> 'st"
  cp_get_writes :: "'st \<Rightarrow> checkpoint_config \<Rightarrow> graph_error + pending_write list"

definition rfind :: "('a \<Rightarrow> bool) \<Rightarrow> 'a list \<Rightarrow> 'a option" where
  "rfind P xs = find P (rev xs)"

definition get_scoped ::
  "('st, 's) checkpointer \<Rightarrow> 'st \<Rightarrow> string \<Rightarrow> string option \<Rightarrow> string list \<Rightarrow>
    graph_error + 's checkpoint option" where
  "get_scoped cp st th cid ns =
    (case cp_list cp st th of
       Inl e \<Rightarrow> Inl e
     | Inr metas \<Rightarrow>
         (case (case cid of
             Some i \<Rightarrow> map_option md_checkpoint_id
               (rfind (\<lambda>m. md_checkpoint_id m = i \<and> md_namespace m = ns) metas)
           | None \<Rightarrow> map_option md_checkpoint_id (rfind (\<lambda>m. md_namespace m = ns) metas)) of
            Some i \<Rightarrow> cp_get cp st th (Some i)
          | None \<Rightarrow> Inr None))"

definition resolve_write_target ::
  "('st, 's) checkpointer \<Rightarrow> 'st \<Rightarrow> checkpoint_config \<Rightarrow> graph_error + string option" where
  "resolve_write_target cp st cfg =
    (case cfg_checkpoint_id cfg of
       Some i \<Rightarrow> Inr (Some i)
     | None \<Rightarrow> map_sum id (map_option ck_id) (get_scoped cp st (cfg_thread_id cfg) None (cfg_namespace cfg)))"

definition resolved_writes ::
  "('st, 's) checkpointer \<Rightarrow> 'st \<Rightarrow> checkpoint_config \<Rightarrow> 's checkpoint \<Rightarrow>
    graph_error + pending_write list" where
  "resolved_writes cp st cfg c =
    map_sum id (\<lambda>stored. if stored = [] then ck_pending_writes c else stored) (cp_get_writes cp st cfg)"

definition get_tuple ::
  "('st, 's) checkpointer \<Rightarrow> 'st \<Rightarrow> checkpoint_config \<Rightarrow> graph_error + 's checkpoint_tuple option" where
  "get_tuple cp st cfg =
    (case get_scoped cp st (cfg_thread_id cfg) (cfg_checkpoint_id cfg) (cfg_namespace cfg) of
       Inl e \<Rightarrow> Inl e
     | Inr None \<Rightarrow> Inr None
     | Inr (Some c) \<Rightarrow>
         let resolved = \<lparr>cfg_thread_id = ck_thread_id c, cfg_checkpoint_id = Some (ck_id c),
                         cfg_namespace = ck_namespace c\<rparr>;
             par = map_option (\<lambda>p. \<lparr>cfg_thread_id = ck_thread_id c, cfg_checkpoint_id = Some p,
                                    cfg_namespace = ck_namespace c\<rparr>) (ck_parent c)
         in map_sum id (\<lambda>ws. Some \<lparr>tp_config = resolved, tp_checkpoint = c,
              tp_parent_config = par, tp_pending_writes = ws\<rparr>) (resolved_writes cp st resolved c))"

text \<open>The lineage walk.  Over an arbitrary backend nothing bounds it, so it is a partial
  function; over a lawful backend it is shown to return.\<close>

partial_function (option) history_walk ::
  "('st, 's) checkpointer \<Rightarrow> 'st \<Rightarrow> string \<Rightarrow> string list \<Rightarrow> nat option \<Rightarrow> string option \<Rightarrow>
    string set \<Rightarrow> 's checkpoint_tuple list \<Rightarrow> (graph_error + 's checkpoint_tuple list) option" where
  "history_walk cp st th ns limit cursor visited out =
    (if (case limit of Some l \<Rightarrow> l \<le> length out | None \<Rightarrow> False) then Some (Inr out)
     else (case get_tuple cp st \<lparr>cfg_thread_id = th, cfg_checkpoint_id = cursor, cfg_namespace = ns\<rparr> of
         Inl e \<Rightarrow> Some (Inl e)
       | Inr None \<Rightarrow> Some (Inr out)
       | Inr (Some t) \<Rightarrow>
           if ck_id (tp_checkpoint t) \<in> visited then Some (Inr out)
           else (case ck_parent (tp_checkpoint t) of
               None \<Rightarrow> Some (Inr (out @ [t]))
             | Some p \<Rightarrow> history_walk cp st th ns limit (Some p)
                 (insert (ck_id (tp_checkpoint t)) visited) (out @ [t]))))"

definition state_history ::
  "('st, 's) checkpointer \<Rightarrow> 'st \<Rightarrow> string \<Rightarrow> string list \<Rightarrow> nat option \<Rightarrow>
    (graph_error + 's checkpoint_tuple list) option" where
  "state_history cp st th ns limit = history_walk cp st th ns limit None {} []"

definition delete_by_run ::
  "('st, 's) checkpointer \<Rightarrow> string \<Rightarrow> string \<Rightarrow> 'st \<Rightarrow> (graph_error + nat) \<times> 'st" where
  "delete_by_run cp th run st =
    (case cp_list cp st th of
       Inl e \<Rightarrow> (Inl e, st)
     | Inr metas \<Rightarrow> cp_delete_checkpoints cp th
         (map md_checkpoint_id (filter (\<lambda>m. md_run_id m = Some run) metas)) st)"

text \<open>The text of the refusal is abbreviated to its fixed part.\<close>

fun copy_records ::
  "('st, 's) checkpointer \<Rightarrow> string \<Rightarrow> string \<Rightarrow> 's checkpoint list \<Rightarrow> 'st \<Rightarrow>
    (graph_error + unit) \<times> 'st" where
  "copy_records cp src tgt [] st = (Inr (), st)"
| "copy_records cp src tgt (c # cs) st =
    (case cp_get_writes cp st \<lparr>cfg_thread_id = src, cfg_checkpoint_id = Some (ck_id c),
                               cfg_namespace = ck_namespace c\<rparr> of
       Inl e \<Rightarrow> (Inl e, st)
     | Inr ws \<Rightarrow>
         (case cp_put cp (c\<lparr>ck_thread_id := tgt\<rparr>) st of
            (Inl e, st') \<Rightarrow> (Inl e, st')
          | (Inr _, st') \<Rightarrow>
              if ws = [] then copy_records cp src tgt cs st'
              else (case cp_put_writes cp \<lparr>cfg_thread_id = tgt, cfg_checkpoint_id = Some (ck_id c),
                                           cfg_namespace = ck_namespace c\<rparr> ws st' of
                  (Inl e, st'') \<Rightarrow> (Inl e, st'')
                | (Inr _, st'') \<Rightarrow> copy_records cp src tgt cs st'')))"

definition copy_thread ::
  "('st, 's) checkpointer \<Rightarrow> string \<Rightarrow> string \<Rightarrow> 'st \<Rightarrow> (graph_error + unit) \<times> 'st" where
  "copy_thread cp src tgt st =
    (case cp_list cp st tgt of
       Inl e \<Rightarrow> (Inl e, st)
     | Inr existing \<Rightarrow>
         if existing \<noteq> [] then (Inl (CheckpointErr ''copy_thread: target thread is not empty''), st)
         else (case cp_get_thread cp st src of
             Inl e \<Rightarrow> (Inl e, st)
           | Inr cs \<Rightarrow> copy_records cp src tgt cs st))"

text \<open>Pruning: the recency window per namespace, then the ancestors of its members.\<close>

definition parent_index :: "checkpoint_metadata list \<Rightarrow> (string \<times> string option) list" where
  "parent_index metas = fold (\<lambda>m. hm_insert (md_checkpoint_id m) (md_parent m)) metas []"

definition group_by_namespace ::
  "checkpoint_metadata list \<Rightarrow> (string list \<times> checkpoint_metadata list) list" where
  "group_by_namespace metas = fold (\<lambda>m g. hm_insert (md_namespace m)
     ((case bt_get (md_namespace m) g of Some ms \<Rightarrow> ms | None \<Rightarrow> []) @ [m]) g) metas []"

definition recency_window :: "nat \<Rightarrow> checkpoint_metadata list \<Rightarrow> string hset" where
  "recency_window keep metas = fold (\<lambda>(_, ms) acc.
     fold (\<lambda>m. hs_insert (md_checkpoint_id m)) (take keep (rev ms)) acc) (group_by_namespace metas) []"

definition parent_values :: "(string \<times> string option) list \<Rightarrow> string set" where
  "parent_values idx = {p. Some p \<in> snd ` set idx}"

lemma finite_parent_values [simp]: "finite (parent_values idx)"
proof -
  have "parent_values idx \<subseteq> the ` snd ` set idx" unfolding parent_values_def by (force simp: image_iff)
  then show ?thesis by (rule finite_subset) simp
qed

definition parent_of :: "(string \<times> string option) list \<Rightarrow> string \<Rightarrow> string option" where
  "parent_of idx x = (case bt_get x idx of Some p \<Rightarrow> p | None \<Rightarrow> None)"

lemma parent_value_lookup: "parent_of idx x = Some p \<Longrightarrow> p \<in> parent_values idx"
  by (auto simp: parent_values_def parent_of_def split: option.splits dest!: bt_get_Some_in_set)
     (metis image_eqI snd_conv)

function protect_ancestors ::
  "(string \<times> string option) list \<Rightarrow> string option \<Rightarrow> string hset \<Rightarrow> string hset" where
  "protect_ancestors idx None kept = kept"
| "protect_ancestors idx (Some p) kept =
    (if p \<in> set kept then kept
     else protect_ancestors idx (parent_of idx p) (hs_insert p kept))"
  by pat_completeness auto

termination protect_ancestors
proof (relation "measures [\<lambda>(idx, _, kept). card (parent_values idx - set kept),
    \<lambda>(idx, cur, _). case cur of None \<Rightarrow> 0 | Some p \<Rightarrow> if p \<in> parent_values idx then 0 else 1]", goal_cases)
  case (2 idx p kept)
  show ?case
  proof (cases "p \<in> parent_values idx")
    case True
    with 2 have "parent_values idx - set (hs_insert p kept) \<subset> parent_values idx - set kept" by auto
    then show ?thesis by (simp add: psubset_card_mono)
  next
    case False
    then have "parent_values idx - set (hs_insert p kept) = parent_values idx - set kept" by auto
    with False show ?thesis by (auto split: option.split dest: parent_value_lookup)
  qed
qed auto

definition protect_chain :: "(string \<times> string option) list \<Rightarrow> string \<Rightarrow> string hset \<Rightarrow> string hset" where
  "protect_chain idx start kept = protect_ancestors idx (parent_of idx start) kept"

definition protected_ids :: "nat \<Rightarrow> checkpoint_metadata list \<Rightarrow> string hset" where
  "protected_ids keep metas =
    (let idx = parent_index metas; window = recency_window keep metas
     in fold (protect_chain idx) window window)"

definition prune ::
  "('st, 's) checkpointer \<Rightarrow> string \<Rightarrow> nat \<Rightarrow> 'st \<Rightarrow> (graph_error + nat) \<times> 'st" where
  "prune cp th keep_last st =
    (case cp_list cp st th of
       Inl e \<Rightarrow> (Inl e, st)
     | Inr metas \<Rightarrow>
         if metas = [] then (Inr 0, st)
         else let kept = protected_ids (max keep_last 1) metas
              in cp_delete_checkpoints cp th
                   (filter (\<lambda>i. i \<notin> set kept) (map md_checkpoint_id metas)) st)"

section \<open>The in-memory backend\<close>

type_synonym write_key = "string \<times> string list \<times> string"

record 's mem_store =
  ms_inner :: "(string \<times> 's checkpoint list) list"
  ms_writes :: "write_key \<Rightarrow> pending_write list option"

definition mem_new :: "'s mem_store" where
  "mem_new = \<lparr>ms_inner = [], ms_writes = (\<lambda>_. None)\<rparr>"

definition mem_records :: "'s mem_store \<Rightarrow> string \<Rightarrow> 's checkpoint list" where
  "mem_records st th = (case bt_get th (ms_inner st) of Some cs \<Rightarrow> cs | None \<Rightarrow> [])"

definition mem_put :: "'s checkpoint \<Rightarrow> 's mem_store \<Rightarrow> (graph_error + string) \<times> 's mem_store" where
  "mem_put c st = (Inr (ck_id c), st\<lparr>ms_inner :=
     hm_insert (ck_thread_id c) (mem_records st (ck_thread_id c) @ [c]) (ms_inner st)\<rparr>)"

definition last_opt :: "'a list \<Rightarrow> 'a option" where
  "last_opt xs = (if xs = [] then None else Some (last xs))"

definition mem_get ::
  "'s mem_store \<Rightarrow> string \<Rightarrow> string option \<Rightarrow> graph_error + 's checkpoint option" where
  "mem_get st th cid = Inr (case bt_get th (ms_inner st) of
     None \<Rightarrow> None
   | Some cs \<Rightarrow> (case cid of
       Some i \<Rightarrow> rfind (\<lambda>c. ck_id c = i) cs
     | None \<Rightarrow> last_opt cs))"

definition mem_list :: "'s mem_store \<Rightarrow> string \<Rightarrow> graph_error + checkpoint_metadata list" where
  "mem_list st th = Inr (map to_metadata (mem_records st th))"

definition mem_get_thread :: "'s mem_store \<Rightarrow> string \<Rightarrow> graph_error + 's checkpoint list" where
  "mem_get_thread st th = Inr (mem_records st th)"

definition mem_list_threads :: "'s mem_store \<Rightarrow> graph_error + string list" where
  "mem_list_threads st = Inr (map fst (filter (\<lambda>(_, cs). cs \<noteq> []) (ms_inner st)))"

definition mem_delete_thread :: "string \<Rightarrow> 's mem_store \<Rightarrow> (graph_error + unit) \<times> 's mem_store" where
  "mem_delete_thread th st = (Inr (), st\<lparr>ms_inner := bt_remove th (ms_inner st),
     ms_writes := (\<lambda>(t, ns, i). if t \<noteq> th then ms_writes st (t, ns, i) else None)\<rparr>)"

definition drop_writes_for ::
  "string \<Rightarrow> string set \<Rightarrow> (write_key \<Rightarrow> pending_write list option) \<Rightarrow>
    (write_key \<Rightarrow> pending_write list option)" where
  "drop_writes_for th ids w = (\<lambda>(t, ns, i). if t \<noteq> th \<or> i \<notin> ids then w (t, ns, i) else None)"

definition mem_delete_checkpoints ::
  "string \<Rightarrow> string list \<Rightarrow> 's mem_store \<Rightarrow> (graph_error + nat) \<times> 's mem_store" where
  "mem_delete_checkpoints th ids st =
    (if ids = [] then (Inr 0, st)
     else (case bt_get th (ms_inner st) of
         None \<Rightarrow> (Inr 0, st)
       | Some cs \<Rightarrow>
           let cs' = filter (\<lambda>c. ck_id c \<notin> set ids) cs
           in (Inr (length cs - length cs'),
               st\<lparr>ms_inner := hm_insert th cs' (ms_inner st),
                  ms_writes := drop_writes_for th (set ids) (ms_writes st)\<rparr>)))"

definition require_checkpoint_id :: "checkpoint_config \<Rightarrow> graph_error + string" where
  "require_checkpoint_id cfg = (case cfg_checkpoint_id cfg of
     Some i \<Rightarrow> Inr i
   | None \<Rightarrow> Inl (CheckpointErr (''put_writes requires an explicit checkpoint_id (thread `''
       @ cfg_thread_id cfg @ ''`)'')))"

definition mem_put_writes ::
  "checkpoint_config \<Rightarrow> pending_write list \<Rightarrow> 's mem_store \<Rightarrow> (graph_error + unit) \<times> 's mem_store" where
  "mem_put_writes cfg ws st = (case require_checkpoint_id cfg of
     Inl e \<Rightarrow> (Inl e, st)
   | Inr i \<Rightarrow>
       if ws = [] then (Inr (), st)
       else let key = (cfg_thread_id cfg, cfg_namespace cfg, i);
                slot = (case ms_writes st key of Some s \<Rightarrow> s | None \<Rightarrow> [])
            in (Inr (), st\<lparr>ms_writes := (ms_writes st)(key \<mapsto> fst (merge_writes slot ws))\<rparr>))"

text \<open>\<open>get_writes\<close> of the backend resolves its target through the default \<open>get_scoped\<close>, which
  only reads \<open>list\<close> and \<open>get\<close>.\<close>

definition mem_scoped_target :: "'s mem_store \<Rightarrow> string \<Rightarrow> string list \<Rightarrow> string option" where
  "mem_scoped_target st th ns =
    (case rfind (\<lambda>m. md_namespace m = ns) (map to_metadata (mem_records st th)) of
       None \<Rightarrow> None
     | Some m \<Rightarrow> map_option ck_id (rfind (\<lambda>c. ck_id c = md_checkpoint_id m) (mem_records st th)))"

definition mem_get_writes :: "'s mem_store \<Rightarrow> checkpoint_config \<Rightarrow> graph_error + pending_write list" where
  "mem_get_writes st cfg =
    Inr (case (case cfg_checkpoint_id cfg of
             Some i \<Rightarrow> Some i
           | None \<Rightarrow> mem_scoped_target st (cfg_thread_id cfg) (cfg_namespace cfg)) of
        None \<Rightarrow> []
      | Some i \<Rightarrow> (case ms_writes st (cfg_thread_id cfg, cfg_namespace cfg, i) of
          Some ws \<Rightarrow> ws | None \<Rightarrow> []))"

definition in_memory :: "('s mem_store, 's) checkpointer" where
  "in_memory = \<lparr>cp_put = mem_put, cp_get = mem_get, cp_list = mem_list,
     cp_get_thread = mem_get_thread, cp_list_threads = mem_list_threads,
     cp_delete_thread = mem_delete_thread, cp_delete_checkpoints = mem_delete_checkpoints,
     cp_put_writes = mem_put_writes, cp_get_writes = mem_get_writes\<rparr>"

section \<open>The write protocol\<close>

definition write_for :: "string \<times> int \<Rightarrow> pending_write list \<Rightarrow> pending_write option" where
  "write_for i ws = find (\<lambda>w. identity w = i) ws"

lemma write_for_simps [simp]:
  "write_for i [] = None"
  "write_for i (w # ws) = (if identity w = i then Some w else write_for i ws)"
  by (simp_all add: write_for_def)

lemma write_for_append:
  "write_for i (xs @ ys) = (case write_for i xs of Some w \<Rightarrow> Some w | None \<Rightarrow> write_for i ys)"
  by (induction xs) auto

lemma merge_write_keys:
  "map identity (fst (merge_write w es)) =
    (if identity w \<in> set (map identity es) then map identity es else map identity es @ [identity w])"
  by (induction es) (auto split: prod.split)

lemma merge_write_for:
  "write_for i (fst (merge_write w es)) =
    (if i \<noteq> identity w then write_for i es
     else if is_control_plane w then Some w
     else case write_for i es of Some e \<Rightarrow> Some e | None \<Rightarrow> Some w)"
  by (induction es) (auto split: prod.split)

lemma merge_writes_Cons:
  "fst (merge_writes ex (w # ws)) = fst (merge_writes (fst (merge_write w ex)) ws)"
  by (simp split: prod.split)

lemma merge_writes_keys:
  "map identity (fst (merge_writes ex inc)) = fold hs_insert (map identity inc) (map identity ex)"
proof (induction inc arbitrary: ex)
  case (Cons w inc)
  then show ?case by (simp add: merge_writes_Cons merge_write_keys hs_insert_def del: merge_writes.simps)
qed simp

lemma merge_writes_for:
  "write_for (t, n) (fst (merge_writes ex inc)) =
    (if n < 0 then case write_for (t, n) (rev inc) of Some w \<Rightarrow> Some w | None \<Rightarrow> write_for (t, n) ex
     else case write_for (t, n) ex of Some w \<Rightarrow> Some w | None \<Rightarrow> write_for (t, n) inc)"
proof (induction inc arbitrary: ex)
  case (Cons w inc)
  have ctl: "is_control_plane w \<longleftrightarrow> snd (identity w) < 0"
    by (simp add: is_control_plane_def identity_def)
  show ?case
    unfolding merge_writes_Cons Cons.IH merge_write_for
    by (cases "identity w = (t, n)"; cases "n < 0")
       (auto simp: ctl write_for_append split: option.split)
qed (simp split: option.split)

lemma writes_ext:
  assumes "map identity xs = map identity ys" "distinct (map identity xs)"
    "\<And>i. write_for i xs = write_for i ys"
  shows "xs = ys"
  using assms
proof (induction xs arbitrary: ys)
  case (Cons x xs)
  then obtain y ys' where ys: "ys = y # ys'" by (cases ys) auto
  from Cons.prems(1) ys have ids: "identity x = identity y" "map identity xs = map identity ys'" by auto
  from Cons.prems(3) [of "identity x"] ids ys have "x = y" by simp
  moreover have "write_for i xs = write_for i ys'" for i
  proof (cases "i = identity x")
    case True
    have none: "write_for i zs = None" if "i \<notin> set (map identity zs)" for zs
      using that by (induction zs) auto
    from Cons.prems(2) ids True none [of xs] none [of ys'] show ?thesis by auto
  next
    case False
    with Cons.prems(3) [of i] ids ys show ?thesis by simp
  qed
  ultimately show ?case using Cons.IH [of ys'] Cons.prems(2) ids ys by simp
qed simp

lemma write_for_rev_None: "write_for i (rev ws) = None \<longleftrightarrow> i \<notin> identity ` set ws"
  and write_for_None: "write_for i ws = None \<longleftrightarrow> i \<notin> identity ` set ws"
  by (auto simp: write_for_def find_None_iff)

text \<open>Merging a batch of writes into a ledger keeps one entry per task
  and index; a control-plane entry becomes the last one offered, a data entry stays the first
  one ever stored; and offering the same batch again changes nothing.\<close>

theorem merge_writes_protocol:
  assumes "distinct (map identity ex)"
  shows "distinct (map identity (fst (merge_writes ex inc)))
    \<and> (\<forall>t n. write_for (t, n) (fst (merge_writes ex inc)) =
        (if n < 0 then case write_for (t, n) (rev inc) of Some w \<Rightarrow> Some w | None \<Rightarrow> write_for (t, n) ex
         else case write_for (t, n) ex of Some w \<Rightarrow> Some w | None \<Rightarrow> write_for (t, n) inc))
    \<and> fst (merge_writes (fst (merge_writes ex inc)) inc) = fst (merge_writes ex inc)"
proof (intro conjI allI)
  show d: "distinct (map identity (fst (merge_writes ex inc)))"
    unfolding merge_writes_keys by (rule distinct_fold_hs_insert [OF assms])
  show "fst (merge_writes (fst (merge_writes ex inc)) inc) = fst (merge_writes ex inc)"
  proof (rule writes_ext [symmetric])
    have stable: "fold hs_insert xs ys = ys" if "set xs \<subseteq> set ys" for xs ys :: "(string \<times> int) list"
      using that by (induction xs) (auto simp: hs_insert_def)
    show "map identity (fst (merge_writes ex inc)) =
        map identity (fst (merge_writes (fst (merge_writes ex inc)) inc))"
      unfolding merge_writes_keys by (rule stable [symmetric]) (simp add: set_fold_hs_insert)
    show "write_for i (fst (merge_writes ex inc)) =
        write_for i (fst (merge_writes (fst (merge_writes ex inc)) inc))" for i
      by (cases i) (auto simp: merge_writes_for split: option.split)
  qed (rule d)
qed (rule merge_writes_for)

theorem merge_writes_protocol_witness:
  "fst (merge_writes (fst (merge_writes [completion_marker ''a'' ''1:0:a'']
       [completion_marker ''a'' ''1:0:a'', completion_marker ''b'' ''1:1:b'']))
       [completion_marker ''a'' ''1:0:a'', completion_marker ''b'' ''1:1:b''])
   = fst (merge_writes [completion_marker ''a'' ''1:0:a'']
       [completion_marker ''a'' ''1:0:a'', completion_marker ''b'' ''1:1:b''])"
  using merge_writes_protocol [of "[completion_marker ''a'' ''1:0:a'']"
    "[completion_marker ''a'' ''1:0:a'', completion_marker ''b'' ''1:1:b'']"]
  by simp

section \<open>What pruning protects\<close>

definition parent_rel :: "(string \<times> string option) list \<Rightarrow> (string \<times> string) set" where
  "parent_rel idx = {(x, p). parent_of idx x = Some p}"

lemma protect_ancestors_spec:
  "set kept \<subseteq> set (protect_ancestors idx cur kept)
   \<and> (\<forall>p. cur = Some p \<longrightarrow> p \<in> set (protect_ancestors idx cur kept))
   \<and> (\<forall>x \<in> set (protect_ancestors idx cur kept) - set kept.
        \<forall>q. (x, q) \<in> parent_rel idx \<longrightarrow> q \<in> set (protect_ancestors idx cur kept))
   \<and> (\<forall>x \<in> set (protect_ancestors idx cur kept) - set kept.
        \<exists>p. cur = Some p \<and> (p, x) \<in> (parent_rel idx)\<^sup>*)"
proof (induction idx cur kept rule: protect_ancestors.induct)
  case (2 idx p kept)
  show ?case
  proof (cases "p \<in> set kept")
    case False
    let ?K = "protect_ancestors idx (parent_of idx p) (hs_insert p kept)"
    have eq: "protect_ancestors idx (Some p) kept = ?K" using False by simp
    note IH = "2.IH" [OF False]
    have "p \<in> set ?K" "set kept \<subseteq> set ?K" using IH by auto
    moreover have "q \<in> set ?K" if "x \<in> set ?K - set kept" "(x, q) \<in> parent_rel idx" for x q
      using IH that by (cases "x = p") (auto simp: parent_rel_def)
    moreover have "(p, x) \<in> (parent_rel idx)\<^sup>*" if "x \<in> set ?K - set kept" for x
    proof (cases "x = p")
      case neq: False
      with that have "x \<in> set ?K - set (hs_insert p kept)" by simp
      with IH obtain q where "parent_of idx p = Some q" "(q, x) \<in> (parent_rel idx)\<^sup>*"
        by blast
      then show ?thesis by (simp add: parent_rel_def converse_rtrancl_into_rtrancl)
    qed simp
    ultimately show ?thesis unfolding eq by blast
  qed simp
qed simp

lemma protect_fold:
  assumes "\<forall>x \<in> set kept. \<forall>q. (x, q) \<in> parent_rel idx \<longrightarrow> q \<in> set kept \<or> x \<in> set todo"
    "set todo \<subseteq> set kept" "\<forall>x \<in> set kept. \<exists>w \<in> W. (w, x) \<in> (parent_rel idx)\<^sup>*"
  defines "K \<equiv> fold (protect_chain idx) todo kept"
  shows "set kept \<subseteq> set K \<and> (\<forall>x \<in> set K. \<forall>q. (x, q) \<in> parent_rel idx \<longrightarrow> q \<in> set K)
    \<and> (\<forall>x \<in> set K. \<exists>w \<in> W. (w, x) \<in> (parent_rel idx)\<^sup>*)"
  using assms(1-3) unfolding K_def
proof (induction todo arbitrary: kept)
  case (Cons s todo)
  let ?k = "protect_chain idx s kept"
  note sp = protect_ancestors_spec [of kept idx "parent_of idx s", folded protect_chain_def]
  have "\<forall>x \<in> set ?k. \<forall>q. (x, q) \<in> parent_rel idx \<longrightarrow> q \<in> set ?k \<or> x \<in> set todo"
  proof (intro ballI allI impI)
    fix x q assume x: "x \<in> set ?k" "(x, q) \<in> parent_rel idx"
    show "q \<in> set ?k \<or> x \<in> set todo"
    proof (cases "x \<in> set kept \<and> x \<noteq> s")
      case True
      with Cons.prems(1) x sp show ?thesis by auto
    next
      case False
      with x sp show ?thesis by (cases "x = s") (auto simp: parent_rel_def)
    qed
  qed
  moreover have "set todo \<subseteq> set ?k" using Cons.prems(2) sp by auto
  moreover have "\<forall>x \<in> set ?k. \<exists>w \<in> W. (w, x) \<in> (parent_rel idx)\<^sup>*"
  proof
    fix x assume x: "x \<in> set ?k"
    show "\<exists>w \<in> W. (w, x) \<in> (parent_rel idx)\<^sup>*"
    proof (cases "x \<in> set kept")
      case False
      with x sp obtain p where "parent_of idx s = Some p"
        and p: "(p, x) \<in> (parent_rel idx)\<^sup>*" by blast
      then have "(s, p) \<in> parent_rel idx" by (simp add: parent_rel_def)
      from Cons.prems(2,3) obtain w where "w \<in> W" "(w, s) \<in> (parent_rel idx)\<^sup>*" by auto
      with p \<open>(s, p) \<in> parent_rel idx\<close> show ?thesis
        by (meson converse_rtrancl_into_rtrancl rtrancl_trans)
    qed (use Cons.prems(3) in blast)
  qed
  ultimately have "set ?k \<subseteq> set (fold (protect_chain idx) todo ?k)
    \<and> (\<forall>x \<in> set (fold (protect_chain idx) todo ?k).
        \<forall>q. (x, q) \<in> parent_rel idx \<longrightarrow> q \<in> set (fold (protect_chain idx) todo ?k))
    \<and> (\<forall>x \<in> set (fold (protect_chain idx) todo ?k).
        \<exists>w \<in> W. (w, x) \<in> (parent_rel idx)\<^sup>*)"
    by (rule Cons.IH)
  with sp show ?case by (simp only: fold.simps comp_apply) blast
qed auto

text \<open>The protected ids are the recency window and all its ancestors, no more and no less.\<close>

lemma set_protected_ids:
  "set (protected_ids keep metas) =
    {y. \<exists>w \<in> set (recency_window keep metas). (w, y) \<in> (parent_rel (parent_index metas))\<^sup>*}"
proof -
  let ?W = "recency_window keep metas" and ?idx = "parent_index metas"
  have "set ?W \<subseteq> set (protected_ids keep metas)
    \<and> (\<forall>x \<in> set (protected_ids keep metas). \<forall>q. (x, q) \<in> parent_rel ?idx \<longrightarrow> q \<in> set (protected_ids keep metas))
    \<and> (\<forall>x \<in> set (protected_ids keep metas). \<exists>w \<in> set ?W. (w, x) \<in> (parent_rel ?idx)\<^sup>*)"
    unfolding protected_ids_def Let_def by (rule protect_fold) auto
  then show ?thesis by (auto intro: closed_rtrancl)
qed

lemma group_by_namespace_get:
  "hm_wf (group_by_namespace metas)
   \<and> bt_get ns (group_by_namespace metas) =
      (let ms = filter (\<lambda>m. md_namespace m = ns) metas in if ms = [] then None else Some ms)"
proof (induction metas rule: rev_induct)
  case Nil
  then show ?case by (simp add: group_by_namespace_def)
next
  case (snoc m metas)
  then show ?case
    by (auto simp: group_by_namespace_def Let_def split: option.splits if_splits)
qed

lemma set_recency_window:
  "i \<in> set (recency_window keep metas) \<longleftrightarrow>
    (\<exists>ns. \<exists>m \<in> set (take keep (rev (filter (\<lambda>m. md_namespace m = ns) metas))). md_checkpoint_id m = i)"
proof -
  have inner: "set (fold (\<lambda>m. hs_insert (md_checkpoint_id m)) ms acc) = md_checkpoint_id ` set ms \<union> set acc"
    for ms acc by (induction ms arbitrary: acc) auto
  have outer: "set (fold (\<lambda>(_, ms) acc. fold (\<lambda>m. hs_insert (md_checkpoint_id m)) (take keep (rev ms)) acc) g acc)
    = (\<Union>(_, ms) \<in> set g. md_checkpoint_id ` set (take keep (rev ms))) \<union> set acc"
    for g :: "(string list \<times> checkpoint_metadata list) list" and acc
    by (induction g arbitrary: acc) (auto simp: inner)
  have "(ns, ms) \<in> set (group_by_namespace metas) \<longleftrightarrow>
      ms = filter (\<lambda>m. md_namespace m = ns) metas \<and> ms \<noteq> []" for ns ms
    using group_by_namespace_get [of metas ns]
    by (auto simp: hm_get_iff_in Let_def split: if_splits)
  note groups = this
  have "i \<in> set (recency_window keep metas) \<longleftrightarrow>
      (\<exists>ns ms. (ns, ms) \<in> set (group_by_namespace metas)
        \<and> i \<in> md_checkpoint_id ` set (take keep (rev ms)))"
    unfolding recency_window_def outer by auto
  also have "\<dots> \<longleftrightarrow> (\<exists>ns. i \<in> md_checkpoint_id `
      set (take keep (rev (filter (\<lambda>m. md_namespace m = ns) metas))))"
  proof
    assume "\<exists>ns. i \<in> md_checkpoint_id `
      set (take keep (rev (filter (\<lambda>m. md_namespace m = ns) metas)))"
    then obtain ns where
      "i \<in> md_checkpoint_id ` set (take keep (rev (filter (\<lambda>m. md_namespace m = ns) metas)))" ..
    moreover from this have "filter (\<lambda>m. md_namespace m = ns) metas \<noteq> []" by auto
    ultimately show "\<exists>ns ms. (ns, ms) \<in> set (group_by_namespace metas)
        \<and> i \<in> md_checkpoint_id ` set (take keep (rev ms))"
      using groups by blast
  next
    assume "\<exists>ns ms. (ns, ms) \<in> set (group_by_namespace metas)
        \<and> i \<in> md_checkpoint_id ` set (take keep (rev ms))"
    then obtain ns ms where "(ns, ms) \<in> set (group_by_namespace metas)"
      and i: "i \<in> md_checkpoint_id ` set (take keep (rev ms))" by blast
    with groups [of ns ms] have "ms = filter (\<lambda>m. md_namespace m = ns) metas" by simp
    with i show "\<exists>ns. i \<in> md_checkpoint_id `
      set (take keep (rev (filter (\<lambda>m. md_namespace m = ns) metas)))" by blast
  qed
  finally show ?thesis by (simp only: image_iff Bex_def eq_commute [of i])
qed

section \<open>Last occurrences\<close>

lemma rfind_snoc [simp]: "rfind P (xs @ [x]) = (if P x then Some x else rfind P xs)"
  by (simp add: rfind_def)

lemma rfind_Nil [simp]: "rfind P [] = None"
  by (simp add: rfind_def)

lemma rfind_map: "rfind P (map f xs) = map_option f (rfind (P \<circ> f) xs)"
  by (induction xs rule: rev_induct) auto

lemma rfind_filter: "(\<And>x. x \<in> set xs \<Longrightarrow> P x \<Longrightarrow> Q x) \<Longrightarrow> rfind P (filter Q xs) = rfind P xs"
  by (induction xs rule: rev_induct) auto

lemma rfind_Some: "rfind P xs = Some x \<Longrightarrow> x \<in> set xs \<and> P x"
  by (induction xs rule: rev_induct) (auto split: if_splits)

lemma rfind_None: "rfind P xs = None \<longleftrightarrow> (\<forall>x \<in> set xs. \<not> P x)"
  by (induction xs rule: rev_induct) auto

lemma rfind_filter_eq:
  "(case rfind P xs of Some x \<Rightarrow> Q x | None \<Rightarrow> True) \<Longrightarrow> rfind P (filter Q xs) = rfind P xs"
proof (induction xs rule: rev_induct)
  case (snoc x xs)
  then show ?case by (cases "P x") simp_all
qed simp

lemma rfind_last: "rfind P xs = Some x \<Longrightarrow> 0 < k \<Longrightarrow> x \<in> set (take k (rev (filter P xs)))"
proof (induction xs rule: rev_induct)
  case (snoc y xs)
  then show ?case by (cases k) (auto split: if_splits)
qed simp

text \<open>A scoped read of a log of records: the last record that matches, then the last record of
  the same id.\<close>

definition log_scoped :: "'s checkpoint list \<Rightarrow> string option \<Rightarrow> string list \<Rightarrow> 's checkpoint option" where
  "log_scoped cs cid ns =
    (case rfind (\<lambda>c. (case cid of Some i \<Rightarrow> ck_id c = i | None \<Rightarrow> True) \<and> ck_namespace c = ns) cs of
       None \<Rightarrow> None
     | Some c \<Rightarrow> rfind (\<lambda>d. ck_id d = ck_id c) cs)"

definition linked :: "'s checkpoint_tuple list \<Rightarrow> bool" where
  "linked ts \<longleftrightarrow> distinct (map (ck_id \<circ> tp_checkpoint) ts)
    \<and> successively (\<lambda>t u. ck_parent (tp_checkpoint t) = Some (ck_id (tp_checkpoint u))) ts"

lemma linked_snoc:
  "linked (ts @ [t]) \<longleftrightarrow> linked ts \<and> ck_id (tp_checkpoint t) \<notin> ck_id ` tp_checkpoint ` set ts
    \<and> (ts = [] \<or> ck_parent (tp_checkpoint (last ts)) = Some (ck_id (tp_checkpoint t)))"
  by (auto simp: linked_def successively_append_iff)

definition copied :: "string \<Rightarrow> 's checkpoint \<Rightarrow> 's checkpoint" where
  "copied tgt c = c\<lparr>ck_thread_id := tgt\<rparr>"

lemma parent_index_get:
  "c \<in> set cs \<Longrightarrow> distinct (map ck_id cs) \<Longrightarrow>
    bt_get (ck_id c) (parent_index (map to_metadata cs)) = Some (ck_parent c)"
proof (induction cs rule: rev_induct)
  case (snoc x xs)
  have step: "bt_get k (parent_index (map to_metadata (xs @ [x]))) =
      (if k = ck_id x then Some (ck_parent x) else bt_get k (parent_index (map to_metadata xs)))" for k
    by (simp add: parent_index_def to_metadata_def)
  show ?case
  proof (cases "c \<in> set xs")
    case True
    with snoc.prems(2) have "ck_id c \<noteq> ck_id x" by (force simp: image_iff)
    moreover have "distinct (map ck_id xs)" using snoc.prems(2) by simp
    ultimately show ?thesis using True snoc.IH by (simp add: step del: map_append)
  next
    case False
    with snoc.prems(1) show ?thesis by (simp add: step del: map_append)
  qed
qed simp

section \<open>The contract of a backend\<close>

text \<open>A backend is an ordered log of records per thread and a write ledger per checkpoint.\<close>

locale checkpointer_laws =
  fixes cp :: "('st, 's) checkpointer" and inv :: "'st \<Rightarrow> bool"
    and recs :: "'st \<Rightarrow> string \<Rightarrow> 's checkpoint list"
    and ledger :: "'st \<Rightarrow> write_key \<Rightarrow> pending_write list"
  assumes get_id: "inv st \<Longrightarrow> cp_get cp st th (Some i) = Inr (rfind (\<lambda>c. ck_id c = i) (recs st th))"
    and get_latest: "inv st \<Longrightarrow> cp_get cp st th None = Inr (last_opt (recs st th))"
    and list_eq: "inv st \<Longrightarrow> cp_list cp st th = Inr (map to_metadata (recs st th))"
    and get_thread_eq: "inv st \<Longrightarrow> cp_get_thread cp st th = Inr (recs st th)"
    and get_writes_eq: "inv st \<Longrightarrow> cfg_checkpoint_id cfg = Some i \<Longrightarrow>
      cp_get_writes cp st cfg = Inr (ledger st (cfg_thread_id cfg, cfg_namespace cfg, i))"
    and put_ok: "inv st \<Longrightarrow> \<exists>st'. cp_put cp c st = (Inr (ck_id c), st') \<and> inv st'
      \<and> recs st' = (recs st)(ck_thread_id c := recs st (ck_thread_id c) @ [c]) \<and> ledger st' = ledger st"
    and put_writes_ok: "inv st \<Longrightarrow> cfg_checkpoint_id cfg = Some i \<Longrightarrow>
      \<exists>st'. cp_put_writes cp cfg ws st = (Inr (), st') \<and> inv st' \<and> recs st' = recs st
      \<and> ledger st' = (ledger st)((cfg_thread_id cfg, cfg_namespace cfg, i) :=
          fst (merge_writes (ledger st (cfg_thread_id cfg, cfg_namespace cfg, i)) ws))"
    and delete_ok: "inv st \<Longrightarrow> \<exists>st'. cp_delete_checkpoints cp th ids st =
        (Inr (length (filter (\<lambda>c. ck_id c \<in> set ids) (recs st th))), st') \<and> inv st'
      \<and> recs st' = (recs st)(th := filter (\<lambda>c. ck_id c \<notin> set ids) (recs st th))
      \<and> (\<forall>t ns i. t \<noteq> th \<or> i \<notin> set ids \<longrightarrow> ledger st' (t, ns, i) = ledger st (t, ns, i))"
begin

lemma get_scoped_eq: "inv st \<Longrightarrow> get_scoped cp st th cid ns = Inr (log_scoped (recs st th) cid ns)"
  by (cases cid)
     (auto simp: get_scoped_def log_scoped_def list_eq get_id rfind_map to_metadata_def comp_def
       split: option.split)

text \<open>With unique ids in the thread, a scoped read stays in its namespace.\<close>

lemma scoped_namespace:
  assumes "distinct (map ck_id (recs st th))" "log_scoped (recs st th) cid ns = Some c"
  shows "ck_namespace c = ns \<and> (case cid of Some i \<Rightarrow> ck_id c = i | None \<Rightarrow> True)"
proof -
  from assms(2) obtain d where
    d: "rfind (\<lambda>c. (case cid of Some i \<Rightarrow> ck_id c = i | None \<Rightarrow> True) \<and> ck_namespace c = ns) (recs st th) = Some d"
    and c: "rfind (\<lambda>e. ck_id e = ck_id d) (recs st th) = Some c"
    by (auto simp: log_scoped_def split: option.splits)
  from rfind_Some [OF d] rfind_Some [OF c] assms(1) have "c = d"
    by (auto simp: distinct_map inj_on_def)
  with rfind_Some [OF d] show ?thesis by (simp split: option.splits)
qed

lemma scoped_id: "log_scoped (recs st th) (Some i) ns = Some c \<Longrightarrow> ck_id c = i"
  by (auto simp: log_scoped_def split: option.splits dest!: rfind_Some)

lemma scoped_in: "log_scoped (recs st th) cid ns = Some c \<Longrightarrow> c \<in> set (recs st th)"
  by (auto simp: log_scoped_def split: option.splits dest!: rfind_Some)

lemma get_tuple_eq:
  assumes "inv st"
  shows "\<exists>ws. get_tuple cp st cfg = Inr (map_option (\<lambda>c.
      \<lparr>tp_config = \<lparr>cfg_thread_id = ck_thread_id c, cfg_checkpoint_id = Some (ck_id c),
                    cfg_namespace = ck_namespace c\<rparr>,
       tp_checkpoint = c,
       tp_parent_config = map_option (\<lambda>p. \<lparr>cfg_thread_id = ck_thread_id c,
         cfg_checkpoint_id = Some p, cfg_namespace = ck_namespace c\<rparr>) (ck_parent c),
       tp_pending_writes = ws c\<rparr>)
      (log_scoped (recs st (cfg_thread_id cfg)) (cfg_checkpoint_id cfg) (cfg_namespace cfg)))
    \<and> (\<forall>c. ws c = (if ledger st (ck_thread_id c, ck_namespace c, ck_id c) = [] then ck_pending_writes c
          else ledger st (ck_thread_id c, ck_namespace c, ck_id c)))"
  by (rule exI [of _ "\<lambda>c. if ledger st (ck_thread_id c, ck_namespace c, ck_id c) = []
        then ck_pending_writes c else ledger st (ck_thread_id c, ck_namespace c, ck_id c)"])
     (simp add: get_tuple_def get_scoped_eq [OF assms] resolved_writes_def Let_def
      get_writes_eq [OF assms] split: option.split)

lemma prune_spec:
  assumes "inv st"
  shows "\<exists>n st'. prune cp th keep st = (Inr n, st') \<and> inv st'
    \<and> recs st' = (recs st)(th := filter (\<lambda>c. ck_id c \<in> set (protected_ids (max keep 1)
          (map to_metadata (recs st th)))) (recs st th))
    \<and> n = length (recs st th) - length (recs st' th)"
proof (cases "recs st th = []")
  case True
  then show ?thesis using assms by (intro exI [of _ 0] exI [of _ st]) (auto simp: prune_def list_eq)
next
  case False
  let ?K = "set (protected_ids (max keep 1) (map to_metadata (recs st th)))"
  let ?ids = "filter (\<lambda>i. i \<notin> ?K) (map md_checkpoint_id (map to_metadata (recs st th)))"
  obtain st' where del: "cp_delete_checkpoints cp th ?ids st =
        (Inr (length (filter (\<lambda>c. ck_id c \<in> set ?ids) (recs st th))), st')" "inv st'"
    "recs st' = (recs st)(th := filter (\<lambda>c. ck_id c \<notin> set ?ids) (recs st th))"
    using delete_ok [OF assms, of th ?ids] by blast
  have kept: "filter (\<lambda>c. ck_id c \<notin> set ?ids) (recs st th) = filter (\<lambda>c. ck_id c \<in> ?K) (recs st th)"
    by (rule filter_cong) (auto simp: to_metadata_def)
  have len: "length (filter (\<lambda>c. ck_id c \<in> set ?ids) (recs st th)) =
      length (recs st th) - length (filter (\<lambda>c. ck_id c \<notin> set ?ids) (recs st th))"
    using sum_length_filter_compl [of "\<lambda>c. ck_id c \<in> set ?ids" "recs st th"] by simp
  have recs': "recs st' = (recs st)(th := filter (\<lambda>c. ck_id c \<in> ?K) (recs st th))"
    unfolding del(3) kept ..
  have pr: "prune cp th keep st = (Inr (length (recs st th) - length (recs st' th)), st')"
    using False del(1) unfolding len kept recs' prune_def list_eq [OF assms] Let_def by simp
  show ?thesis by (rule exI, rule exI, intro conjI, rule pr, rule del(2), rule recs', rule refl)
qed

lemma latest_protected:
  assumes "rfind (\<lambda>c. ck_namespace c = ns) (recs st th) = Some c" "0 < keep"
  shows "ck_id c \<in> set (protected_ids keep (map to_metadata (recs st th)))"
proof -
  have "rfind (\<lambda>m. md_namespace m = ns) (map to_metadata (recs st th)) = Some (to_metadata c)"
    using assms(1) by (simp add: rfind_map to_metadata_def comp_def)
  from rfind_last [OF this assms(2)]
  have "ck_id c \<in> set (recency_window keep (map to_metadata (recs st th)))"
    unfolding set_recency_window
    by (intro exI [of _ ns] bexI [of _ "to_metadata c"]) (auto simp: to_metadata_def)
  then show ?thesis unfolding set_protected_ids by blast
qed

lemma prune_latest:
  assumes "inv st" "prune cp th keep st = (res, st')"
  shows "inv st' \<and> get_scoped cp st' t None ns = get_scoped cp st t None ns"
proof -
  let ?K = "set (protected_ids (max keep 1) (map to_metadata (recs st th)))"
  from prune_spec [OF assms(1), of th keep] assms(2) have st': "inv st'"
    "recs st' = (recs st)(th := filter (\<lambda>c. ck_id c \<in> ?K) (recs st th))" by auto
  have "log_scoped (recs st' th) None ns = log_scoped (recs st th) None ns"
  proof (cases "rfind (\<lambda>c. ck_namespace c = ns) (recs st th)")
    case None
    then have "rfind (\<lambda>c. ck_namespace c = ns) (filter (\<lambda>c. ck_id c \<in> ?K) (recs st th)) = None"
      by (simp add: rfind_None)
    with None show ?thesis by (simp add: log_scoped_def st'(2))
  next
    case (Some c)
    then have c: "ck_id c \<in> ?K" by (rule latest_protected) simp
    have "rfind (\<lambda>c. ck_namespace c = ns) (filter (\<lambda>c. ck_id c \<in> ?K) (recs st th)) = Some c"
      using rfind_filter_eq [where P = "\<lambda>c. ck_namespace c = ns" and xs = "recs st th"
          and Q = "\<lambda>c. ck_id c \<in> ?K"] Some c by simp
    moreover have "rfind (\<lambda>d. ck_id d = ck_id c) (filter (\<lambda>c. ck_id c \<in> ?K) (recs st th))
        = rfind (\<lambda>d. ck_id d = ck_id c) (recs st th)"
      by (rule rfind_filter) (use c in auto)
    ultimately show ?thesis using Some by (simp add: log_scoped_def st'(2))
  qed
  moreover have "log_scoped (recs st' t) None ns = log_scoped (recs st t) None ns" if "t \<noteq> th"
    using that by (simp add: log_scoped_def st'(2) split: option.split)
  ultimately show ?thesis using st'(1) assms(1) by (cases "t = th") (simp_all add: get_scoped_eq)
qed

text \<open>The lineage walk visits each id at most once, so it returns after at most as many hops as
  the thread has ids.\<close>

lemma history_walk_returns:
  assumes "inv st" "linked out" "visited = ck_id ` tp_checkpoint ` set out"
    "out \<noteq> [] \<Longrightarrow> cursor = ck_parent (tp_checkpoint (last out)) \<and> cursor \<noteq> None"
    "case limit of Some l \<Rightarrow> length out \<le> l | None \<Rightarrow> True"
  shows "\<exists>ts. history_walk cp st th ns limit cursor visited out = Some (Inr (out @ ts))
    \<and> linked (out @ ts) \<and> (case limit of Some l \<Rightarrow> length (out @ ts) \<le> l | None \<Rightarrow> True)
    \<and> (\<forall>t \<in> set ts. tp_checkpoint t \<in> set (recs st th))"
  using assms(2-5)
proof (induction "card (ck_id ` set (recs st th) - visited)" arbitrary: cursor visited out
    rule: less_induct)
  case less
  let ?cfg = "\<lparr>cfg_thread_id = th, cfg_checkpoint_id = cursor, cfg_namespace = ns\<rparr>"
  show ?case
  proof (cases "(case limit of Some l \<Rightarrow> l \<le> length out | None \<Rightarrow> False)")
    case True
    with less.prems show ?thesis
      by (intro exI [of _ "[]"]) (simp add: history_walk.simps split: option.splits)
  next
    case room: False
    show ?thesis
    proof (cases "log_scoped (recs st th) cursor ns")
      case None
      with get_tuple_eq [OF assms(1), of ?cfg] have "get_tuple cp st ?cfg = Inr None" by auto
      with room less.prems show ?thesis
        by (intro exI [of _ "[]"]) (simp add: history_walk.simps split: option.splits)
    next
      case (Some c)
      with get_tuple_eq [OF assms(1), of ?cfg] obtain t where
        t: "get_tuple cp st ?cfg = Inr (Some t)" "tp_checkpoint t = c" by auto
      have c_in: "c \<in> set (recs st th)" by (rule scoped_in [OF Some])
      show ?thesis
      proof (cases "ck_id c \<in> visited")
        case True
        with room less.prems t show ?thesis
          by (intro exI [of _ "[]"]) (simp add: history_walk.simps split: option.splits)
      next
        case new: False
        have "ck_parent (tp_checkpoint (last out)) = Some (ck_id c)" if "out \<noteq> []"
        proof -
          from less.prems(3) [OF that] obtain i where i: "cursor = Some i"
            "ck_parent (tp_checkpoint (last out)) = Some i" by auto
          with Some scoped_id [of st th i ns c] show ?thesis by simp
        qed
        with less.prems(1,2) new t(2) have lnk: "linked (out @ [t])"
          by (auto simp: linked_snoc)
        have lim: "case limit of Some l \<Rightarrow> length (out @ [t]) \<le> l | None \<Rightarrow> True"
          using room by (auto split: option.splits)
        show ?thesis
        proof (cases "ck_parent c")
          case None
          with room new t lnk lim c_in show ?thesis
            by (intro exI [of _ "[t]"]) (simp add: history_walk.simps)
        next
          case (Some p)
          have "ck_id ` set (recs st th) - insert (ck_id c) visited \<subset> ck_id ` set (recs st th) - visited"
            using c_in new by blast
          then have "card (ck_id ` set (recs st th) - insert (ck_id c) visited)
              < card (ck_id ` set (recs st th) - visited)" by (simp add: psubset_card_mono)
          from less.hyps [OF this lnk _ _ lim, of "Some p"] obtain ts where
            "history_walk cp st th ns limit (Some p) (insert (ck_id c) visited) (out @ [t])
              = Some (Inr ((out @ [t]) @ ts))" "linked ((out @ [t]) @ ts)"
            "case limit of Some l \<Rightarrow> length ((out @ [t]) @ ts) \<le> l | None \<Rightarrow> True"
            "\<forall>t \<in> set ts. tp_checkpoint t \<in> set (recs st th)"
            using less.prems(2) t(2) Some by auto
          moreover have "history_walk cp st th ns limit cursor visited out =
              history_walk cp st th ns limit (Some p) (insert (ck_id c) visited) (out @ [t])"
            using room new t Some by (subst history_walk.simps) simp
          ultimately show ?thesis
            using t(2) c_in by (intro exI [of _ "t # ts"]) (cases limit, simp_all)
        qed
      qed
    qed
  qed
qed

lemma state_history_returns:
  assumes "inv st"
  shows "\<exists>ts. state_history cp st th ns limit = Some (Inr ts) \<and> linked ts
    \<and> (case limit of Some l \<Rightarrow> length ts \<le> l | None \<Rightarrow> True)
    \<and> (\<forall>t \<in> set ts. tp_checkpoint t \<in> set (recs st th))"
  using history_walk_returns [OF assms, of "[]" "{}" None limit th ns]
  unfolding state_history_def by (cases limit) (simp_all add: linked_def)

text \<open>Copying a lineage.\<close>

lemma copy_records_spec:
  assumes "inv st" "src \<noteq> tgt"
  shows "\<exists>st'. copy_records cp src tgt cs st = (Inr (), st') \<and> inv st'
    \<and> recs st' = (recs st)(tgt := recs st tgt @ map (copied tgt) cs)
    \<and> (\<forall>t ns i. t \<noteq> tgt \<longrightarrow> ledger st' (t, ns, i) = ledger st (t, ns, i))"
  using assms(1)
proof (induction cs arbitrary: st)
  case (Cons c cs)
  let ?src = "\<lparr>cfg_thread_id = src, cfg_checkpoint_id = Some (ck_id c), cfg_namespace = ck_namespace c\<rparr>"
  let ?tgt = "\<lparr>cfg_thread_id = tgt, cfg_checkpoint_id = Some (ck_id c), cfg_namespace = ck_namespace c\<rparr>"
  obtain ws where ws: "cp_get_writes cp st ?src = Inr ws"
    using get_writes_eq [OF Cons.prems, of ?src "ck_id c"] by simp
  obtain s1 where s1: "cp_put cp (copied tgt c) st = (Inr (ck_id c), s1)" "inv s1"
    "recs s1 = (recs st)(tgt := recs st tgt @ [copied tgt c])" "ledger s1 = ledger st"
    using put_ok [OF Cons.prems, of "copied tgt c"] by (auto simp: copied_def)
  obtain s2 where s2: "(if ws = [] then (Inr (), s1) else cp_put_writes cp ?tgt ws s1) = (Inr (), s2)"
    "inv s2" "recs s2 = recs s1" "\<forall>t ns i. t \<noteq> tgt \<longrightarrow> ledger s2 (t, ns, i) = ledger s1 (t, ns, i)"
  proof (cases "ws = []")
    case True
    with that [of s1] s1(2) show ?thesis by simp
  next
    case False
    with that put_writes_ok [OF s1(2), of ?tgt "ck_id c" ws] show ?thesis by auto
  qed
  obtain s3 where "copy_records cp src tgt cs s2 = (Inr (), s3)" "inv s3"
    "recs s3 = (recs s2)(tgt := recs s2 tgt @ map (copied tgt) cs)"
    "\<forall>t ns i. t \<noteq> tgt \<longrightarrow> ledger s3 (t, ns, i) = ledger s2 (t, ns, i)"
    using Cons.IH [OF s2(2)] by blast
  moreover have "copy_records cp src tgt (c # cs) st = copy_records cp src tgt cs s2"
    using ws s1(1) s2(1) by (auto simp: copied_def split: if_splits)
  ultimately show ?case using s1 s2 by (intro exI [of _ s3]) auto
qed simp

lemma copy_thread_spec:
  assumes "inv st"
  shows "if recs st tgt \<noteq> [] then \<exists>e. copy_thread cp src tgt st = (Inl e, st)
    else \<exists>st'. copy_thread cp src tgt st = (Inr (), st') \<and> inv st'
      \<and> recs st' = (recs st)(tgt := map (copied tgt) (recs st src))"
proof (cases "src = tgt")
  case True
  with assms show ?thesis by (auto simp: copy_thread_def list_eq get_thread_eq)
next
  case False
  from copy_records_spec [OF assms False, of "recs st src"] assms show ?thesis
    by (auto simp: copy_thread_def list_eq get_thread_eq)
qed

lemma put_scoped:
  assumes "inv st" "ck_id c \<notin> ck_id ` set (recs st (ck_thread_id c))"
  shows "\<exists>st'. cp_put cp c st = (Inr (ck_id c), st') \<and> inv st'
    \<and> get_scoped cp st' (ck_thread_id c) (Some (ck_id c)) (ck_namespace c) = Inr (Some c)
    \<and> get_scoped cp st' (ck_thread_id c) None (ck_namespace c) = Inr (Some c)
    \<and> (\<forall>th ns. th \<noteq> ck_thread_id c \<or> ns \<noteq> ck_namespace c \<longrightarrow>
         get_scoped cp st' th None ns = get_scoped cp st th None ns)"
proof -
  obtain st' where st': "cp_put cp c st = (Inr (ck_id c), st')" "inv st'"
    "recs st' = (recs st)(ck_thread_id c := recs st (ck_thread_id c) @ [c])"
    using put_ok [OF assms(1)] by blast
  have "log_scoped (recs st' th) None ns = log_scoped (recs st th) None ns"
    if "th \<noteq> ck_thread_id c \<or> ns \<noteq> ck_namespace c" for th ns
  proof (cases "th = ck_thread_id c")
    case True
    with that assms(2) show ?thesis
      by (auto simp: log_scoped_def st'(3) split: option.split dest!: rfind_Some)
  qed (simp add: st'(3))
  moreover have "log_scoped (recs st' (ck_thread_id c)) cid (ck_namespace c) = Some c"
    if "cid = None \<or> cid = Some (ck_id c)" for cid
    using that by (auto simp: log_scoped_def st'(3))
  ultimately show ?thesis using st' assms(1) by (simp add: get_scoped_eq)
qed

lemma prune_ancestors:
  assumes "inv st" "prune cp th keep st = (res, st')" "distinct (map ck_id (recs st th))"
    "c \<in> set (recs st' th)" "ck_parent c = Some (ck_id d)" "d \<in> set (recs st th)"
  shows "d \<in> set (recs st' th)"
proof -
  let ?metas = "map to_metadata (recs st th)"
  let ?K = "set (protected_ids (max keep 1) ?metas)"
  from prune_spec [OF assms(1), of th keep] assms(2)
  have st': "recs st' th = filter (\<lambda>c. ck_id c \<in> ?K) (recs st th)" by auto
  have "bt_get (ck_id c) (parent_index ?metas) = Some (ck_parent c)"
    using parent_index_get [OF _ assms(3)] assms(4) st' by auto
  then have "(ck_id c, ck_id d) \<in> parent_rel (parent_index ?metas)"
    using assms(5) by (simp add: parent_rel_def parent_of_def)
  moreover have "ck_id c \<in> ?K" using assms(4) st' by simp
  ultimately have "ck_id d \<in> ?K"
    unfolding set_protected_ids by (auto intro: rtrancl_into_rtrancl)
  with assms(6) st' show ?thesis by simp
qed

end

section \<open>The in-memory backend meets the contract\<close>

definition mem_inv :: "'s mem_store \<Rightarrow> bool" where
  "mem_inv st \<longleftrightarrow> hm_wf (ms_inner st)"

definition mem_ledger :: "'s mem_store \<Rightarrow> write_key \<Rightarrow> pending_write list" where
  "mem_ledger st key = (case ms_writes st key of Some ws \<Rightarrow> ws | None \<Rightarrow> [])"

lemma mem_records_insert:
  "mem_records (st\<lparr>ms_inner := hm_insert th cs (ms_inner st)\<rparr>) = (mem_records st)(th := cs)"
  "mem_records (st\<lparr>ms_inner := hm_insert th cs (ms_inner st), ms_writes := w\<rparr>) = (mem_records st)(th := cs)"
  by (auto simp: mem_records_def fun_eq_iff)

interpretation mem: checkpointer_laws in_memory mem_inv mem_records mem_ledger
proof
  fix st :: "'s mem_store" and th i c ws ids cfg
  assume inv: "mem_inv st"
  show "cp_get in_memory st th (Some i) = Inr (rfind (\<lambda>c. ck_id c = i) (mem_records st th))"
    by (simp add: in_memory_def mem_get_def mem_records_def split: option.split)
  show "cp_get in_memory st th None = Inr (last_opt (mem_records st th))"
    by (simp add: in_memory_def mem_get_def mem_records_def last_opt_def split: option.split)
  show "cp_list in_memory st th = Inr (map to_metadata (mem_records st th))"
    by (simp add: in_memory_def mem_list_def)
  show "cp_get_thread in_memory st th = Inr (mem_records st th)"
    by (simp add: in_memory_def mem_get_thread_def)
  show "cp_get_writes in_memory st cfg
      = Inr (mem_ledger st (cfg_thread_id cfg, cfg_namespace cfg, i))" if "cfg_checkpoint_id cfg = Some i"
    using that by (simp add: in_memory_def mem_get_writes_def mem_ledger_def)
  show "\<exists>st'. cp_put in_memory c st = (Inr (ck_id c), st') \<and> mem_inv st'
      \<and> mem_records st' = (mem_records st)(ck_thread_id c := mem_records st (ck_thread_id c) @ [c])
      \<and> mem_ledger st' = mem_ledger st"
    using inv by (simp add: in_memory_def mem_put_def mem_inv_def mem_records_insert mem_ledger_def fun_eq_iff)
  show "\<exists>st'. cp_put_writes in_memory cfg ws st = (Inr (), st') \<and> mem_inv st' \<and> mem_records st' = mem_records st
      \<and> mem_ledger st' = (mem_ledger st)((cfg_thread_id cfg, cfg_namespace cfg, i) :=
          fst (merge_writes (mem_ledger st (cfg_thread_id cfg, cfg_namespace cfg, i)) ws))"
    if "cfg_checkpoint_id cfg = Some i"
    using that inv
    by (auto simp: in_memory_def mem_put_writes_def require_checkpoint_id_def mem_inv_def mem_records_def
        mem_ledger_def Let_def fun_eq_iff)
  show "\<exists>st'. cp_delete_checkpoints in_memory th ids st =
        (Inr (length (filter (\<lambda>c. ck_id c \<in> set ids) (mem_records st th))), st') \<and> mem_inv st'
      \<and> mem_records st' = (mem_records st)(th := filter (\<lambda>c. ck_id c \<notin> set ids) (mem_records st th))
      \<and> (\<forall>t ns i. t \<noteq> th \<or> i \<notin> set ids \<longrightarrow> mem_ledger st' (t, ns, i) = mem_ledger st (t, ns, i))"
  proof (cases "ids = [] \<or> bt_get th (ms_inner st) = None")
    case True
    then have "filter (\<lambda>c. ck_id c \<notin> set ids) (mem_records st th) = mem_records st th"
      "filter (\<lambda>c. ck_id c \<in> set ids) (mem_records st th) = []"
      by (auto simp: mem_records_def)
    with True inv show ?thesis
      by (auto simp: in_memory_def mem_delete_checkpoints_def)
  next
    case False
    then obtain cs where cs: "bt_get th (ms_inner st) = Some cs" "ids \<noteq> []" by auto
    then have "mem_records st th = cs" by (simp add: mem_records_def)
    moreover have "length cs - length (filter (\<lambda>c. ck_id c \<notin> set ids) cs)
        = length (filter (\<lambda>c. ck_id c \<in> set ids) cs)"
      using sum_length_filter_compl [of "\<lambda>c. ck_id c \<in> set ids" cs] by simp
    ultimately show ?thesis
      using cs inv
      by (auto simp: in_memory_def mem_delete_checkpoints_def Let_def mem_inv_def mem_records_insert
          mem_ledger_def drop_writes_for_def)
  qed
qed

section \<open>Properties\<close>

text \<open>Storing a checkpoint under a fresh id makes it what a scoped read
  returns, by id and as the latest of its namespace, and changes the latest checkpoint of no
  other thread or namespace.\<close>

theorem put_get_roundtrip:
  assumes "mem_inv st" "ck_id c \<notin> ck_id ` set (mem_records st (ck_thread_id c))"
  shows "\<exists>st'. mem_put c st = (Inr (ck_id c), st') \<and> mem_inv st'
    \<and> get_scoped in_memory st' (ck_thread_id c) (Some (ck_id c)) (ck_namespace c) = Inr (Some c)
    \<and> get_scoped in_memory st' (ck_thread_id c) None (ck_namespace c) = Inr (Some c)
    \<and> (\<forall>th ns. th \<noteq> ck_thread_id c \<or> ns \<noteq> ck_namespace c \<longrightarrow>
         get_scoped in_memory st' th None ns = get_scoped in_memory st th None ns)"
  using mem.put_scoped [OF assms] by (simp add: in_memory_def)

text \<open>C29 (state_history_total): the lineage walk over the in-memory backend always returns,
  whatever parent pointers the records carry: a list within the limit, of records of the
  thread, without repetition, each the parent of the one before.\<close>

theorem state_history_total:
  assumes "mem_inv st"
  shows "\<exists>ts. state_history in_memory st th ns limit = Some (Inr ts) \<and> linked ts
    \<and> (case limit of Some l \<Rightarrow> length ts \<le> l | None \<Rightarrow> True)
    \<and> (\<forall>t \<in> set ts. tp_checkpoint t \<in> set (mem_records st th))"
  using mem.state_history_returns [OF assms] .

text \<open>C28 (prune_keeps_lineage): pruning never takes away what a resume needs: it succeeds, the
  latest checkpoint of every namespace of every thread is unchanged, and with unique ids in
  the thread the stored parent of a retained checkpoint is retained.\<close>

theorem prune_keeps_lineage:
  assumes "mem_inv st" "prune in_memory th keep st = (res, st')"
  shows "(\<exists>n. res = Inr n \<and> n + length (mem_records st' th) = length (mem_records st th)) \<and> mem_inv st'
    \<and> get_scoped in_memory st' t None ns = get_scoped in_memory st t None ns
    \<and> (distinct (map ck_id (mem_records st th)) \<longrightarrow> c \<in> set (mem_records st' th) \<longrightarrow>
        ck_parent c = Some (ck_id d) \<longrightarrow> d \<in> set (mem_records st th) \<longrightarrow> d \<in> set (mem_records st' th))"
proof -
  from mem.prune_spec [OF assms(1), of th keep] assms(2) obtain n where
    "res = Inr n" "n = length (mem_records st th) - length (mem_records st' th)"
    "length (mem_records st' th) \<le> length (mem_records st th)" by auto
  then have "\<exists>n. res = Inr n \<and> n + length (mem_records st' th) = length (mem_records st th)" by simp
  with mem.prune_latest [OF assms, of t ns] mem.prune_ancestors [OF assms, of c d]
  show ?thesis by blast
qed

text \<open>Copying a thread is refused, changing nothing, exactly when the
  target has checkpoints; otherwise the target becomes the source's records in order, only
  the thread id rewritten, and every other thread keeps its records.\<close>

theorem copy_thread_exact:
  assumes "mem_inv st"
  shows "if mem_records st tgt \<noteq> [] then \<exists>e. copy_thread in_memory src tgt st = (Inl e, st)
    else \<exists>st'. copy_thread in_memory src tgt st = (Inr (), st') \<and> mem_inv st'
      \<and> mem_records st' = (mem_records st)(tgt := map (copied tgt) (mem_records st src))"
  using mem.copy_thread_spec [OF assms] .

definition ck_sample :: "string \<Rightarrow> string \<Rightarrow> string option \<Rightarrow> string list \<Rightarrow> json checkpoint" where
  "ck_sample th i par ns = \<lparr>ck_thread_id = th, ck_id = i, ck_run_id = None, ck_parent = par,
     ck_namespace = ns, ck_state = JNull, ck_next_nodes = [], ck_completed_tasks = [],
     ck_pending_writes = [], ck_interrupts = [], ck_pending_activations = None,
     ck_barrier_arrivals = [], ck_metadata = JNull\<rparr>"

lemma ck_sample_sel [simp]:
  "ck_thread_id (ck_sample th i par ns) = th" "ck_id (ck_sample th i par ns) = i"
  "ck_parent (ck_sample th i par ns) = par" "ck_namespace (ck_sample th i par ns) = ns"
  by (simp_all add: ck_sample_def)

definition mem_sample :: "json mem_store" where
  "mem_sample = snd (mem_put (ck_sample ''t'' ''c2'' (Some ''c1'') []) (snd (mem_put
     (ck_sample ''t'' ''c1'' None []) mem_new)))"

lemma mem_sample_inv: "mem_inv mem_sample" "mem_inv mem_new"
  by (simp_all add: mem_sample_def mem_inv_def mem_put_def mem_new_def mem_records_def hm_wf_def)

lemma mem_sample_records:
  "mem_records mem_sample ''t'' = [ck_sample ''t'' ''c1'' None [], ck_sample ''t'' ''c2'' (Some ''c1'') []]"
  "mem_records mem_sample ''u'' = []"
  by (simp_all add: mem_sample_def mem_put_def mem_new_def mem_records_def)

theorem put_get_roundtrip_witness:
  "\<exists>st'. mem_put (ck_sample ''t'' ''c3'' None []) mem_sample = (Inr ''c3'', st')
    \<and> get_scoped in_memory st' ''t'' None [] = Inr (Some (ck_sample ''t'' ''c3'' None []))"
  using put_get_roundtrip [OF mem_sample_inv(1), of "ck_sample ''t'' ''c3'' None []"]
  by (auto simp: mem_sample_records)

theorem state_history_total_witness:
  "\<exists>ts. state_history in_memory mem_sample ''t'' [] (Some 1) = Some (Inr ts) \<and> length ts \<le> 1"
  using state_history_total [OF mem_sample_inv(1), of "''t''" "[]" "Some 1"] by auto

theorem prune_keeps_lineage_witness:
  "get_scoped in_memory (snd (prune in_memory ''t'' 1 mem_sample)) ''t'' None []
    = get_scoped in_memory mem_sample ''t'' None []"
  using prune_keeps_lineage [OF mem_sample_inv(1), of "''t''" 1 "fst (prune in_memory ''t'' 1 mem_sample)"
    "snd (prune in_memory ''t'' 1 mem_sample)" "''t''" "[]"]
  by simp

theorem copy_thread_exact_witness:
  "\<exists>st'. copy_thread in_memory ''t'' ''u'' mem_sample = (Inr (), st')
    \<and> mem_records st' ''u'' = [ck_sample ''u'' ''c1'' None [], ck_sample ''u'' ''c2'' (Some ''c1'') []]"
  using copy_thread_exact [OF mem_sample_inv(1), of "''u''" "''t''"]
  by (auto simp: mem_sample_records copied_def ck_sample_def)

text \<open>The scoped read by id resolves the id within the
  namespace but then loads the last record of that id in the whole thread, so when two
  namespaces of a thread reuse an id it returns the other namespace's checkpoint.\<close>

theorem scoped_read_crosses_namespace:
  "get_scoped in_memory
     (snd (mem_put (ck_sample ''t'' ''c'' None [''child'']) (snd (mem_put (ck_sample ''t'' ''c'' None []) mem_new))))
     ''t'' (Some ''c'') [] = Inr (Some (ck_sample ''t'' ''c'' None [''child'']))"
  by (simp add: get_scoped_def in_memory_def mem_list_def mem_get_def mem_put_def mem_new_def
      mem_records_def rfind_def to_metadata_def)

end
