(* ===== verification/Tf_Exec.thy ===== *)
theory Tf_Exec
  imports Tf_Routing Tf_Checkpoint
begin

text \<open>
  Running the active set of one super-step, \<open>graph/compiled/executor/node_execution.rs\<close>, with
  the projections between live and persisted activations of \<open>graph/compiled/mod.rs\<close>.  A
  handler is a function of its state snapshot and context, so the results of a parallel step
  are known without fixing a schedule; how the executor admits concurrent branches is the
  subject of \<open>Tf_Admission\<close>.  Events and child-run reporting are not part of the model.
\<close>

section \<open>Activations and barriers\<close>

definition activation_node :: "string \<Rightarrow> activation" where
  "activation_node n = \<lparr>act_node = n, act_send_arg = None, act_task_id = []\<rparr>"

definition to_pending :: "activation \<Rightarrow> pending_activation" where
  "to_pending a = \<lparr>pa_node = act_node a, pa_send_arg = act_send_arg a, pa_task_id = act_task_id a\<rparr>"

definition from_pending :: "pending_activation \<Rightarrow> activation" where
  "from_pending p = \<lparr>act_node = pa_node p, act_send_arg = pa_send_arg p, act_task_id = pa_task_id p\<rparr>"

lemma from_to_pending [simp]: "from_pending (to_pending a) = a"
  by (simp add: from_pending_def to_pending_def)

definition barriers_to_persisted :: "arrivals \<Rightarrow> barrier_arrivals list" where
  "barriers_to_persisted arr = map (\<lambda>(b, ps). \<lparr>ba_node = b, ba_arrived = ps\<rparr>) arr"

definition barriers_from_persisted :: "barrier_arrivals list \<Rightarrow> arrivals" where
  "barriers_from_persisted bas =
    fold (\<lambda>b. hm_insert (ba_node b) (hs_collect (ba_arrived b))) bas []"

definition activation_nodes :: "activation list \<Rightarrow> string list" where
  "activation_nodes acts = map act_node acts"

section \<open>One super-step\<close>

record 'u step_run =
  sr_updates :: "'u list"
  sr_gotos :: "nat \<Rightarrow> route_target list option"
  sr_completed :: "nat list"
  sr_interrupts :: "(nat \<times> interrupt) list"
  sr_failure :: "(nat \<times> graph_error) option"

definition empty_step :: "'u step_run" where
  "empty_step = \<lparr>sr_updates = [], sr_gotos = (\<lambda>_. None), sr_completed = [],
     sr_interrupts = [], sr_failure = None\<rparr>"

text \<open>What is fixed for all branches of a step.\<close>

record step_env =
  se_run_id :: string
  se_thread_id :: "string option"
  se_step :: nat
  se_root_run_id :: string
  se_frames :: "recursion_frame list"

type_synonym resume_map = "string \<Rightarrow> json option"

definition mk_node_context ::
  "step_env \<Rightarrow> fork_id option \<Rightarrow> activation \<Rightarrow> resume_map \<Rightarrow> node_context \<times> resume_map" where
  "mk_node_context env fork a rm =
    (\<lparr>ctx_node_id = act_node a, ctx_run_id = se_run_id env, ctx_thread_id = se_thread_id env,
      ctx_step = se_step env, ctx_resume = rm (act_node a), ctx_fork = fork,
      ctx_send_arg = act_send_arg a, ctx_root_run_id = Some (se_root_run_id env),
      ctx_frames = se_frames env\<rparr>,
     rm(act_node a := None))"

text \<open>Folding one branch result: the interrupt is returned, every other result is recorded.\<close>

definition fold_result ::
  "nat \<Rightarrow> 'u node_result \<Rightarrow> 'u step_run \<Rightarrow> 'u step_run \<times> interrupt option" where
  "fold_result i res sr = (case res of
     NUpdate u \<Rightarrow> (sr\<lparr>sr_updates := sr_updates sr @ [u]\<rparr>, None)
   | NCommand cmd \<Rightarrow>
       (sr\<lparr>sr_updates := sr_updates sr @ (case cmd_update cmd of Some u \<Rightarrow> [u] | None \<Rightarrow> []),
           sr_gotos := (if cmd_goto cmd = [] then sr_gotos sr
                        else (sr_gotos sr)(i \<mapsto> cmd_goto cmd))\<rparr>, None)
   | NInterrupt intr \<Rightarrow> (sr, Some intr))"

text \<open>Sequential execution stops at the first failure or interrupt.\<close>

fun seq_loop ::
  "('s, 'u) compiled_graph \<Rightarrow> step_env \<Rightarrow> 's \<Rightarrow> nat \<Rightarrow> activation list \<Rightarrow> resume_map \<Rightarrow>
    string list \<Rightarrow> 'u step_run \<Rightarrow> (graph_error + 'u step_run) \<times> resume_map \<times> string list" where
  "seq_loop c env s i [] rm vis sr = (Inr sr, rm, vis)"
| "seq_loop c env s i (a # as) rm vis sr =
    (case bt_get (act_node a) (cg_nodes c) of
       None \<Rightarrow> (Inl (MissingNode (act_node a)), rm, vis)
     | Some h \<Rightarrow>
         (let (ctx, rm') = mk_node_context env None a rm
          in case h s ctx of
               Inl e \<Rightarrow> (Inr (sr\<lparr>sr_failure := Some (i, e)\<rparr>), rm', vis)
             | Inr res \<Rightarrow>
                 (case fold_result i res sr of
                    (sr', Some intr) \<Rightarrow>
                      (Inr (sr'\<lparr>sr_interrupts := sr_interrupts sr' @ [(i, intr)]\<rparr>), rm', vis @ [act_node a])
                  | (sr', None) \<Rightarrow>
                      seq_loop c env s (Suc i) as rm' (vis @ [act_node a])
                        (sr'\<lparr>sr_completed := sr_completed sr' @ [i]\<rparr>))))"

definition run_active_sequential ::
  "('s, 'u) compiled_graph \<Rightarrow> step_env \<Rightarrow> 's \<Rightarrow> activation list \<Rightarrow> resume_map \<Rightarrow> string list \<Rightarrow>
    (graph_error + 'u step_run) \<times> resume_map \<times> string list" where
  "run_active_sequential c env s active rm vis = seq_loop c env s 0 active rm vis empty_step"

text \<open>Parallel execution builds one forked context per branch, runs all of them, and folds the
  results in active-set order.\<close>

fun par_results ::
  "('s, 'u) compiled_graph \<Rightarrow> step_env \<Rightarrow> 's \<Rightarrow> nat \<Rightarrow> activation list \<Rightarrow> resume_map \<Rightarrow>
    (graph_error + (graph_error + 'u node_result) list) \<times> resume_map" where
  "par_results c env s i [] rm = (Inr [], rm)"
| "par_results c env s i (a # as) rm =
    (case bt_get (act_node a) (cg_nodes c) of
       None \<Rightarrow> (Inl (MissingNode (act_node a)), rm)
     | Some h \<Rightarrow>
         (let (ctx, rm') = mk_node_context env (Some \<lparr>fork_branch_index = i, fork_node = act_node a\<rparr>) a rm
          in case par_results c env s (Suc i) as rm' of
               (Inl e, rm'') \<Rightarrow> (Inl e, rm'')
             | (Inr rs, rm'') \<Rightarrow> (Inr (h s ctx # rs), rm'')))"

fun par_fold ::
  "nat \<Rightarrow> (activation \<times> (graph_error + 'u node_result)) list \<Rightarrow> string list \<Rightarrow> 'u step_run \<Rightarrow>
    'u step_run \<times> string list" where
  "par_fold i [] vis sr = (sr, vis)"
| "par_fold i ((a, Inl e) # rs) vis sr =
    par_fold (Suc i) rs vis
      (if sr_failure sr = None then sr\<lparr>sr_failure := Some (i, e)\<rparr> else sr)"
| "par_fold i ((a, Inr res) # rs) vis sr =
    (case fold_result i res sr of
       (sr', Some intr) \<Rightarrow>
         par_fold (Suc i) rs (vis @ [act_node a])
           (sr'\<lparr>sr_interrupts := sr_interrupts sr' @ [(i, intr)]\<rparr>)
     | (sr', None) \<Rightarrow>
         par_fold (Suc i) rs (vis @ [act_node a])
           (sr'\<lparr>sr_completed := sr_completed sr' @ [i]\<rparr>))"

definition run_active_parallel ::
  "('s, 'u) compiled_graph \<Rightarrow> step_env \<Rightarrow> 's \<Rightarrow> activation list \<Rightarrow> resume_map \<Rightarrow> string list \<Rightarrow>
    (graph_error + 'u step_run) \<times> resume_map \<times> string list" where
  "run_active_parallel c env s active rm vis =
    (case par_results c env s 0 active rm of
       (Inl e, rm') \<Rightarrow> (Inl e, rm', vis)
     | (Inr rs, rm') \<Rightarrow>
         let (sr, vis') = par_fold 0 (zip active rs) vis empty_step
         in (Inr sr, rm', vis'))"

definition run_active ::
  "('s, 'u) compiled_graph \<Rightarrow> step_env \<Rightarrow> 's \<Rightarrow> activation list \<Rightarrow> resume_map \<Rightarrow> string list \<Rightarrow>
    (graph_error + 'u step_run) \<times> resume_map \<times> string list" where
  "run_active c env s active rm vis =
    (if cg_parallel c \<and> 1 < length active then run_active_parallel c env s active rm vis
     else run_active_sequential c env s active rm vis)"

section \<open>Identities and partition\<close>

definition assign_task_ids :: "nat \<Rightarrow> activation list \<Rightarrow> activation list" where
  "assign_task_ids steps active =
    map (\<lambda>(i, a). if act_task_id a = []
         then a\<lparr>act_task_id := show_nat steps @ '':'' @ show_nat i @ '':'' @ act_node a\<rparr>
         else a) (zip [0..<length active] active)"

fun partition_loop ::
  "activation list \<Rightarrow> (nat \<Rightarrow> route_target list option) \<Rightarrow> nat list \<Rightarrow> activation list \<Rightarrow>
    (nat \<Rightarrow> route_target list option) \<Rightarrow> activation list \<times> (nat \<Rightarrow> route_target list option)" where
  "partition_loop active gotos [] done_acts routing = (done_acts, routing)"
| "partition_loop active gotos (i # ixs) done_acts routing =
    (if i < length active
     then partition_loop active gotos ixs (done_acts @ [active ! i])
            (case gotos i of Some ts \<Rightarrow> routing(length done_acts \<mapsto> ts) | None \<Rightarrow> routing)
     else partition_loop active gotos ixs done_acts routing)"

definition partition_completed ::
  "activation list \<Rightarrow> (nat \<Rightarrow> route_target list option) \<Rightarrow> nat list \<Rightarrow>
    activation list \<times> (nat \<Rightarrow> route_target list option)" where
  "partition_completed active gotos ixs = partition_loop active gotos ixs [] (\<lambda>_. None)"

definition completion_writes :: "activation list \<Rightarrow> pending_write list" where
  "completion_writes acts = map (\<lambda>a. completion_marker (act_node a) (act_task_id a)) acts"

text \<open>The members of the active set outside a set of indices, in order.\<close>

definition others :: "activation list \<Rightarrow> nat list \<Rightarrow> activation list" where
  "others active ixs = map snd (filter (\<lambda>(i, _). i \<notin> set ixs) (zip [0..<length active] active))"

section \<open>Shape of a step result\<close>

text \<open>Up to branch \<open>i\<close>, each branch is recorded at most once: as completed, as interrupted, or as
  the failure that names the step's error.\<close>

definition recorded :: "'u step_run \<Rightarrow> nat list" where
  "recorded sr = sr_completed sr @ map fst (sr_interrupts sr)"

definition step_inv :: "nat \<Rightarrow> 'u step_run \<Rightarrow> bool" where
  "step_inv i sr \<longleftrightarrow> distinct (recorded sr) \<and> set (recorded sr) \<subseteq> {..<i}
    \<and> dom (sr_gotos sr) \<subseteq> set (sr_completed sr)
    \<and> (\<forall>k e. sr_failure sr = Some (k, e) \<longrightarrow> k < i \<and> k \<notin> set (recorded sr))"

lemma step_inv_empty [simp]: "step_inv i empty_step"
  by (simp add: step_inv_def recorded_def empty_step_def)

lemma step_inv_mono: "step_inv i sr \<Longrightarrow> i \<le> j \<Longrightarrow> step_inv j sr"
  unfolding step_inv_def by (auto dest: less_le_trans)

lemma step_inv_fresh: "step_inv i sr \<Longrightarrow> i \<notin> set (recorded sr)"
  by (auto simp: step_inv_def)

lemma recorded_simps [simp]:
  "recorded (sr\<lparr>sr_failure := f\<rparr>) = recorded sr"
  "recorded (sr\<lparr>sr_completed := sr_completed sr @ [i]\<rparr>) = sr_completed sr @ i # map fst (sr_interrupts sr)"
  "recorded (sr\<lparr>sr_interrupts := sr_interrupts sr @ [(i, x)]\<rparr>) = recorded sr @ [i]"
  by (simp_all add: recorded_def)

lemma step_inv_fail:
  assumes "step_inv i sr"
  shows "step_inv (Suc i) (sr\<lparr>sr_failure := Some (i, e)\<rparr>)"
  using step_inv_fresh [OF assms] assms unfolding step_inv_def by (simp add: subset_iff less_SucI)

lemma fold_result_sel:
  assumes "fold_result i res sr = (sr', io)"
  shows "sr_completed sr' = sr_completed sr" "sr_interrupts sr' = sr_interrupts sr"
    "sr_failure sr' = sr_failure sr" "io \<noteq> None \<Longrightarrow> sr' = sr"
    "dom (sr_gotos sr') \<subseteq> insert i (dom (sr_gotos sr))"
  using assms by (auto simp: fold_result_def split: node_result.splits if_splits)

lemma step_inv_done:
  assumes "step_inv i sr" "fold_result i res sr = (sr', None)"
  shows "step_inv (Suc i) (sr'\<lparr>sr_completed := sr_completed sr' @ [i]\<rparr>)"
proof -
  note sel = fold_result_sel(1-3,5) [OF assms(2)]
  have fresh: "i \<notin> set (sr_completed sr)" "i \<notin> fst ` set (sr_interrupts sr)"
    using step_inv_fresh [OF assms(1)] by (auto simp: recorded_def)
  have old: "distinct (recorded sr)" "set (recorded sr) \<subseteq> {..<i}"
    "dom (sr_gotos sr) \<subseteq> set (sr_completed sr)"
    "\<And>k e. sr_failure sr = Some (k, e) \<Longrightarrow> k < i \<and> k \<notin> set (recorded sr)"
    using assms(1) by (auto simp: step_inv_def)
  have "distinct (sr_completed sr @ i # map fst (sr_interrupts sr))"
    using old(1) fresh by (auto simp: recorded_def)
  moreover have "set (sr_completed sr @ i # map fst (sr_interrupts sr)) \<subseteq> {..<Suc i}"
    using old(2) by (auto simp: recorded_def)
  moreover have "dom (sr_gotos sr') \<subseteq> set (sr_completed sr @ [i])"
    using sel(4) old(3) by auto
  moreover have "k < Suc i \<and> k \<notin> set (sr_completed sr @ i # map fst (sr_interrupts sr))"
    if "sr_failure sr = Some (k, e)" for k e
    using old(4) [OF that] by (simp add: recorded_def)
  ultimately show ?thesis using sel(1-3) by (simp add: step_inv_def recorded_def)
qed

lemma step_inv_paused:
  assumes "step_inv i sr" "fold_result i res sr = (sr', Some x)"
  shows "step_inv (Suc i) (sr'\<lparr>sr_interrupts := sr_interrupts sr' @ [(i, x)]\<rparr>)"
  using assms(1) fold_result_sel(4) [OF assms(2)] step_inv_fresh [OF assms(1)]
  unfolding step_inv_def by (simp add: subset_iff less_SucI) blast

lemma seq_loop_inv:
  "seq_loop c env s i as rm vis sr = (Inr sr', rm', vis') \<Longrightarrow> step_inv i sr \<Longrightarrow>
    step_inv (i + length as) sr'"
proof (induction as arbitrary: i rm vis sr)
  case (Cons a as)
  obtain h where h: "bt_get (act_node a) (cg_nodes c) = Some h"
    using Cons.prems(1) by (auto split: option.splits)
  obtain ctx rm1 where ctx: "mk_node_context env None a rm = (ctx, rm1)" by fastforce
  show ?case
  proof (cases "h s ctx")
    case (Inl e)
    with Cons.prems h ctx have "sr' = sr\<lparr>sr_failure := Some (i, e)\<rparr>" by simp
    with step_inv_fail [OF Cons.prems(2)] show ?thesis by (auto intro: step_inv_mono [of "Suc i"])
  next
    case (Inr res)
    obtain sr1 io where fold: "fold_result i res sr = (sr1, io)" by fastforce
    show ?thesis
    proof (cases io)
      case None
      with Cons.prems(1) h ctx Inr fold
      have "seq_loop c env s (Suc i) as rm1 (vis @ [act_node a])
          (sr1\<lparr>sr_completed := sr_completed sr1 @ [i]\<rparr>) = (Inr sr', rm', vis')" by simp
      from Cons.IH [OF this step_inv_done [OF Cons.prems(2)]] fold None show ?thesis by simp
    next
      case (Some x)
      with Cons.prems(1) h ctx Inr fold
      have "sr' = sr1\<lparr>sr_interrupts := sr_interrupts sr1 @ [(i, x)]\<rparr>" by simp
      with step_inv_paused [OF Cons.prems(2)] fold Some show ?thesis by (auto intro: step_inv_mono [of "Suc i"])
    qed
  qed
qed simp

lemma par_fold_inv:
  "par_fold i rs vis sr = (sr', vis') \<Longrightarrow> step_inv i sr \<Longrightarrow> step_inv (i + length rs) sr'"
proof (induction i rs vis sr rule: par_fold.induct)
  case (2 i a e rs vis sr)
  have "step_inv (Suc i) (if sr_failure sr = None then sr\<lparr>sr_failure := Some (i, e)\<rparr> else sr)"
    using step_inv_fail [OF "2.prems"(2)] step_inv_mono [OF "2.prems"(2), of "Suc i"] by simp
  with 2 show ?case by simp
next
  case (3 i a res rs vis sr)
  obtain sr1 io where fold: "fold_result i res sr = (sr1, io)" by fastforce
  show ?case
  proof (cases io)
    case None
    with 3 fold step_inv_done [OF "3.prems"(2)] show ?thesis by simp
  next
    case (Some x)
    with 3 fold step_inv_paused [OF "3.prems"(2)] show ?thesis by simp
  qed
qed simp

lemma par_results_length:
  "par_results c env s i as rm = (Inr rs, rm') \<Longrightarrow> length rs = length as"
  by (induction as arbitrary: i rm rs) (auto split: option.splits prod.splits sum.splits)

lemma run_active_inv:
  assumes "run_active c env s active rm vis = (Inr sr, rm', vis')"
  shows "step_inv (length active) sr"
proof (cases "cg_parallel c \<and> 1 < length active")
  case True
  with assms obtain rs where "par_results c env s 0 active rm = (Inr rs, rm')"
    "par_fold 0 (zip active rs) vis empty_step = (sr, vis')"
    by (auto simp: run_active_def run_active_parallel_def Let_def split: prod.splits sum.splits)
  with par_fold_inv [of 0 "zip active rs"] par_results_length show ?thesis by fastforce
next
  case False
  with assms seq_loop_inv [of c env s 0 active] show ?thesis
    by (fastforce simp: run_active_def run_active_sequential_def)
qed

lemma seq_loop_total:
  "\<forall>a \<in> set as. registered c (act_node a) \<Longrightarrow> \<exists>sr'. fst (seq_loop c env s i as rm vis sr) = Inr sr'"
proof (induction as arbitrary: i rm vis sr)
  case (Cons a as)
  then obtain h where "bt_get (act_node a) (cg_nodes c) = Some h" by (auto simp: registered_def)
  with Cons show ?case by (auto simp: Let_def split: prod.split sum.split option.split)
qed simp

lemma par_results_total:
  "\<forall>a \<in> set as. registered c (act_node a) \<Longrightarrow> \<exists>rs. fst (par_results c env s i as rm) = Inr rs"
proof (induction as arbitrary: i rm)
  case (Cons a as)
  then obtain h where "bt_get (act_node a) (cg_nodes c) = Some h" by (auto simp: registered_def)
  moreover obtain ctx rm1 where "mk_node_context env (Some \<lparr>fork_branch_index = i, fork_node = act_node a\<rparr>) a rm
    = (ctx, rm1)" by fastforce
  moreover obtain rs rm2 where "par_results c env s (Suc i) as rm1 = (Inr rs, rm2)"
    using Cons.IH [of "Suc i" rm1] Cons.prems by (metis list.set_intros(2) prod.collapse)
  ultimately show ?case by simp
qed simp

lemma run_active_total:
  assumes "\<forall>a \<in> set active. registered c (act_node a)"
  shows "\<exists>sr rm' vis'. run_active c env s active rm vis = (Inr sr, rm', vis')"
proof (cases "cg_parallel c \<and> 1 < length active")
  case True
  obtain rs rm1 where "par_results c env s 0 active rm = (Inr rs, rm1)"
    using par_results_total [OF assms] by (metis prod.collapse)
  with True show ?thesis
    by (auto simp: run_active_def run_active_parallel_def Let_def split: prod.split)
next
  case False
  then show ?thesis
    using seq_loop_total [OF assms, of env s 0 rm vis empty_step]
    by (cases "seq_loop c env s 0 active rm vis empty_step")
      (auto simp: run_active_def run_active_sequential_def)
qed

section \<open>Sequential and parallel execution agree\<close>

text \<open>A handler that does not look at its branch identity.\<close>

definition fork_blind :: "('s, 'u) compiled_graph \<Rightarrow> bool" where
  "fork_blind c \<longleftrightarrow> (\<forall>n h s ctx f. bt_get n (cg_nodes c) = Some h \<longrightarrow> h s (ctx\<lparr>ctx_fork := f\<rparr>) = h s ctx)"

lemma mk_node_context_fork:
  "mk_node_context env f a rm =
    ((fst (mk_node_context env None a rm))\<lparr>ctx_fork := f\<rparr>, snd (mk_node_context env None a rm))"
  by (simp add: mk_node_context_def)

lemma seq_par_agree:
  assumes "fork_blind c"
  shows "seq_loop c env s i as rm vis sr = (Inr sr', rm', vis') \<Longrightarrow>
    sr_failure sr' = None \<Longrightarrow> sr_interrupts sr' = [] \<Longrightarrow>
    \<exists>rs. par_results c env s i as rm = (Inr rs, rm') \<and> par_fold i (zip as rs) vis sr = (sr', vis')"
proof (induction as arbitrary: i rm vis sr)
  case (Cons a as)
  obtain h where h: "bt_get (act_node a) (cg_nodes c) = Some h"
    using Cons.prems(1) by (auto split: option.splits)
  obtain ctx rm1 where ctx: "mk_node_context env None a rm = (ctx, rm1)" by fastforce
  have par: "mk_node_context env f a rm = (ctx\<lparr>ctx_fork := f\<rparr>, rm1)" for f
    using mk_node_context_fork [of env f a rm] ctx by simp
  obtain res where res: "h s ctx = Inr res"
    using Cons.prems h ctx by (auto split: sum.splits)
  obtain sr1 where fold: "fold_result i res sr = (sr1, None)"
    using Cons.prems h ctx res by (auto split: prod.splits option.splits)
  have "seq_loop c env s (Suc i) as rm1 (vis @ [act_node a])
      (sr1\<lparr>sr_completed := sr_completed sr1 @ [i]\<rparr>) = (Inr sr', rm', vis')"
    using Cons.prems(1) h ctx res fold by simp
  from Cons.IH [OF this Cons.prems(2,3)] obtain rs where
    "par_results c env s (Suc i) as rm1 = (Inr rs, rm')"
    "par_fold (Suc i) (zip as rs) (vis @ [act_node a])
      (sr1\<lparr>sr_completed := sr_completed sr1 @ [i]\<rparr>) = (sr', vis')" by blast
  moreover have "h s (ctx\<lparr>ctx_fork := f\<rparr>) = Inr res" for f
    using assms [unfolded fork_blind_def, rule_format, OF h, of s f ctx] res by simp
  ultimately show ?case using h par fold by (intro exI [of _ "Inr res # rs"]) simp
qed simp


section \<open>Nothing is lost at a boundary\<close>

lemma partition_loop_eq:
  "set ixs \<subseteq> {..<length active} \<Longrightarrow> partition_loop active gotos ixs acc routing =
    (acc @ map ((!) active) ixs,
     \<lambda>k. if length acc \<le> k \<and> k < length acc + length ixs \<and> gotos (ixs ! (k - length acc)) \<noteq> None
         then gotos (ixs ! (k - length acc)) else routing k)"
proof (induction ixs arbitrary: acc routing)
  case (Cons i ixs)
  then have "i < length active" "set ixs \<subseteq> {..<length active}" by auto
  with Cons.IH [of "acc @ [active ! i]"] show ?case
    by (auto simp: fun_eq_iff nth_Cons' Suc_le_eq split: option.split)
qed (auto simp: fun_eq_iff)

lemma partition_completed_eq:
  assumes "set ixs \<subseteq> {..<length active}"
  shows "partition_completed active gotos ixs =
    (map ((!) active) ixs, \<lambda>k. if k < length ixs then gotos (ixs ! k) else None)"
  using partition_loop_eq [OF assms, of gotos "[]"]
  by (auto simp: partition_completed_def fun_eq_iff)

lemma others_eq: "others active ixs = nths active (- set ixs)"
proof -
  have "nths active (- set ixs) = map fst (filter (\<lambda>p. snd p \<notin> set ixs) (zip active [0..<length active]))"
    by (simp add: nths_def)
  also have "\<dots> = map snd (filter (\<lambda>(i, _). i \<notin> set ixs) (zip [0..<length active] active))"
    by (subst zip_commute) (simp add: filter_map comp_def split_beta)
  finally show ?thesis by (simp add: others_def)
qed

lemma nths_filter: "nths xs A = map ((!) xs) (filter (\<lambda>i. i \<in> A) [0..<length xs])"
proof (induction xs rule: rev_induct)
  case (snoc x xs)
  have "map ((!) (xs @ [x])) (filter (\<lambda>i. i \<in> A) [0..<length xs])
      = map ((!) xs) (filter (\<lambda>i. i \<in> A) [0..<length xs])"
    by (auto simp: nth_append)
  with snoc show ?case by (simp add: nths_append)
qed simp

lemma mset_indices:
  assumes "distinct ixs" "set ixs \<subseteq> {..<length xs}"
  shows "mset (map ((!) xs) ixs) = mset (nths xs (set ixs))"
proof -
  have "mset (nths xs (set ixs)) = image_mset ((!) xs) (mset (filter (\<lambda>i. i \<in> set ixs) [0..<length xs]))"
    by (simp add: nths_filter)
  also have "mset (filter (\<lambda>i. i \<in> set ixs) [0..<length xs]) = mset ixs"
    using assms by (intro set_eq_iff_mset_eq_distinct [THEN iffD1]) auto
  finally show ?thesis by simp
qed

lemma mset_nths_compl: "mset (nths xs A) + mset (nths xs (- A)) = mset xs"
proof (induction xs arbitrary: A)
  case (Cons x xs)
  have "{j. Suc j \<in> - A} = - {j. Suc j \<in> A}" by auto
  with Cons [of "{j. Suc j \<in> A}"] show ?case by (simp add: nths_Cons)
qed simp


section \<open>Task identities\<close>

lemma show_nat_no_colon: "CHR '':'' \<notin> set (show_nat n)"
proof
  assume "CHR '':'' \<in> set (show_nat n)"
  then obtain d where d: "d < 10" "CHR '':'' = digit d" using show_nat_digits by blast
  then have "(of_char (CHR '':'') :: nat) = 48 + d" by (simp add: of_char_digit)
  with d(1) show False by simp
qed

lemma append_sep_inject:
  "c \<notin> set xs \<Longrightarrow> c \<notin> set ys \<Longrightarrow> xs @ c # us = ys @ c # vs \<longleftrightarrow> xs = ys \<and> us = vs"
proof (induction xs arbitrary: ys)
  case Nil
  then show ?case by (cases ys) auto
next
  case (Cons x xs)
  then show ?case by (cases ys) auto
qed

definition task_id :: "nat \<Rightarrow> nat \<Rightarrow> string \<Rightarrow> string" where
  "task_id steps i n = show_nat steps @ '':'' @ show_nat i @ '':'' @ n"

lemma task_id_inject [simp]: "task_id s i n = task_id s' i' n' \<longleftrightarrow> s = s' \<and> i = i' \<and> n = n'"
  by (simp add: task_id_def append_sep_inject show_nat_no_colon)

lemma assign_task_ids_nth [simp]:
  "length (assign_task_ids steps active) = length active"
  "i < length active \<Longrightarrow> assign_task_ids steps active ! i =
    (if act_task_id (active ! i) = [] then (active ! i)\<lparr>act_task_id := task_id steps i (act_node (active ! i))\<rparr>
     else active ! i)"
  by (simp_all add: assign_task_ids_def task_id_def)

lemma task_id_nonempty [simp]: "task_id s i n \<noteq> []" "[] \<noteq> task_id s i n"
  by (simp_all add: task_id_def)

text \<open>The identities handed out in one super-step are pairwise
  distinct and never empty, so two activations of the same node in one step keep separate
  completion markers.\<close>

theorem assign_task_ids_distinct:
  assumes "\<forall>a \<in> set active. act_task_id a = []"
  shows "distinct (map act_task_id (assign_task_ids steps active))
    \<and> [] \<notin> act_task_id ` set (assign_task_ids steps active)"
proof -
  have "\<forall>i < length active. act_task_id (assign_task_ids steps active ! i) = task_id steps i (act_node (active ! i))"
    using assms by (simp add: all_set_conv_all_nth)
  then show ?thesis by (auto simp: distinct_conv_nth in_set_conv_nth)
qed

theorem assign_task_ids_distinct_witness:
  "distinct (map act_task_id (assign_task_ids 1 [plain ''b'', plain ''b'']))
    \<and> map act_task_id (assign_task_ids 1 [plain ''b'', plain ''b'']) = [''1:0:b'', ''1:1:b'']"
  using assign_task_ids_distinct [of "[plain ''b'', plain ''b'']" 1]
  by (simp add: plain_def assign_task_ids_def show_nat_eval)

section \<open>Barriers survive persistence\<close>

lemma hm_insert_snoc: "k \<notin> set (bt_keys m) \<Longrightarrow> hm_insert k v m = m @ [(k, v)]"
  by (induction m rule: hm_insert.induct) (auto simp: bt_keys_def)

lemma barriers_roundtrip_aux:
  assumes "hm_wf (arr @ rest)" "\<forall>(b, ps) \<in> set rest. distinct ps"
  shows "fold (\<lambda>b. hm_insert (ba_node b) (hs_collect (ba_arrived b))) (barriers_to_persisted rest) arr = arr @ rest"
  using assms
proof (induction rest arbitrary: arr)
  case (Cons p rest)
  obtain b ps where p: "p = (b, ps)" by fastforce
  then have "hm_insert b (hs_collect ps) arr = arr @ [p]"
    using Cons.prems by (auto simp: hm_wf_def bt_keys_def hm_insert_snoc)
  with p Cons.IH [of "arr @ [p]"] Cons.prems show ?case by (simp add: barriers_to_persisted_def)
qed (simp add: barriers_to_persisted_def)

text \<open>The barrier progress written to a checkpoint is read back
  unchanged when the run resumes.\<close>

theorem barriers_roundtrip:
  assumes "open_barriers c arr"
  shows "barriers_from_persisted (barriers_to_persisted arr) = arr"
proof -
  have "hm_wf arr" "\<forall>(b, ps) \<in> set arr. distinct ps"
    using assms by (auto simp: open_barriers_def hm_get_iff_in)
  with barriers_roundtrip_aux [of "[]" arr] show ?thesis by (simp add: barriers_from_persisted_def)
qed

theorem barriers_roundtrip_witness:
  "barriers_from_persisted (barriers_to_persisted [(''j'', [''b''])]) = [(''j'', [''b''])]"
  by (rule barriers_roundtrip [OF diamond_open])

section \<open>A step of the diamond\<close>

definition sample_env :: step_env where
  "sample_env = \<lparr>se_run_id = ''r'', se_thread_id = None, se_step = 1, se_root_run_id = ''r'', se_frames = []\<rparr>"

lemma diamond_nodes:
  "cg_nodes diamond = [(''a'', sample_handler), (''b'', sample_handler), (''d'', sample_handler), (''j'', sample_handler)]"
  by (simp add: diamond_simps)

lemma diamond_sequential [simp]: "\<not> cg_parallel diamond"
  by (simp add: diamond_simps from_parts_def)

lemma diamond_step:
  "run_active_sequential diamond sample_env JNull [plain ''b'', plain ''d''] (\<lambda>_. None) [] =
    (Inr \<lparr>sr_updates = [], sr_gotos = (\<lambda>_. None), sr_completed = [0, 1],
      sr_interrupts = [], sr_failure = None\<rparr>, (\<lambda>_. None), [''b'', ''d''])"
  by (simp add: run_active_sequential_def diamond_nodes plain_def sample_handler_def command_new_def empty_step_def
      fold_result_def mk_node_context_def fun_upd_idem)



end
