(* ===== verification/Tf_Persist.thy ===== *)
theory Tf_Persist
  imports Tf_Exec
begin

text \<open>
  Checkpointing at a super-step boundary: id generation (\<open>graph/ids/mod.rs\<close>), background writes
  (\<open>AsyncCheckpointWrites\<close> in \<open>graph/compiled/types.rs\<close>) and
  \<open>graph/compiled/executor/persistence.rs\<close> with the failure boundary of \<open>outcomes.rs\<close>.

  What the process supplies is a \<open>runtime\<close>: its nonce, the elapsed time seen at each boundary,
  and how many background writes land between two boundaries.  The store behind the
  checkpointer and the process-wide id counter form the \<open>world\<close>.  Counters are \<open>nat\<close>: the id
  counter of the source wraps only after 2^64 ids.  Child runs report through a shared sink the
  handlers of the model do not have, so that part of the metadata is the empty list.
\<close>

section \<open>Runtime and world\<close>

record runtime =
  rt_nonce :: nat
  rt_elapsed :: "nat \<Rightarrow> nat"
  rt_landed :: "nat \<Rightarrow> nat"
  rt_tokio :: bool
  rt_show_duration :: "nat \<Rightarrow> string"

record 'st world =
  w_store :: 'st
  w_seq :: nat

definition next_seq :: "'st world \<Rightarrow> nat \<times> 'st world" where
  "next_seq w = (w_seq w, w\<lparr>w_seq := w_seq w + 1\<rparr>)"

definition new_run_id :: "runtime \<Rightarrow> 'st world \<Rightarrow> string \<times> 'st world" where
  "new_run_id rt w = (let (n, w') = next_seq w
     in (''run-'' @ show_nat (rt_nonce rt) @ ''-'' @ show_nat n, w'))"

definition new_checkpoint_id :: "runtime \<Rightarrow> 'st world \<Rightarrow> string \<times> 'st world" where
  "new_checkpoint_id rt w = (let (n, w') = next_seq w
     in (''ckpt-'' @ show_nat (rt_nonce rt) @ ''-'' @ show_nat n, w'))"

section \<open>Rendering\<close>

fun error_to_string :: "graph_error \<Rightarrow> string" where
  "error_to_string MissingStart = ''graph start node is not configured''"
| "error_to_string (MissingNode n) = ''node `'' @ n @ ''` does not exist''"
| "error_to_string (MissingEdgeTarget n) = ''edge points to missing node `'' @ n @ ''`''"
| "error_to_string (MissingRoute n r) =
    ''conditional route `'' @ r @ ''` from node `'' @ n @ ''` does not exist''"
| "error_to_string (RecursionLimit l) = ''graph exceeded the recursion limit of '' @ show_nat l @ '' steps''"
| "error_to_string (SubAgentDepth d) =
    ''sub-agent recursion exceeded the maximum depth of '' @ show_nat d"
| "error_to_string (NodeVisitLimit n l) = ''node `'' @ n @ ''` exceeded its visit limit of '' @ show_nat l"
| "error_to_string (Validation m) = ''validation error: '' @ m"
| "error_to_string (Timeout m) = ''run timed out: '' @ m"
| "error_to_string Cancelled = ''run cancelled''"
| "error_to_string (GraphErr m) = ''graph error: '' @ m"
| "error_to_string (Interrupted n m) = ''graph interrupted at node `'' @ n @ ''`: '' @ m"
| "error_to_string (InvalidConcurrentUpdate m) = ''invalid concurrent update: '' @ m"
| "error_to_string (CheckpointErr m) = ''checkpoint error: '' @ m"
| "error_to_string (ResumeErr m) = ''cannot resume: '' @ m"
| "error_to_string (Serialization m) = ''serialization error: '' @ m"

definition opt_string :: "string option \<Rightarrow> json" where
  "opt_string s = (case s of Some x \<Rightarrow> JString x | None \<Rightarrow> JNull)"

definition frame_json :: "recursion_frame \<Rightarrow> json" where
  "frame_json f = jobj [(''graph_id'', JString (fr_graph_id f)), (''node_id'', opt_string (fr_node_id f)),
     (''run_id'', JString (fr_run_id f)), (''task_id'', opt_string (fr_task_id f)),
     (''namespace'', JArray (map JString (fr_namespace f))), (''depth'', jnat (fr_depth f)),
     (''parent'', opt_string (fr_parent f))]"

section \<open>Background writes\<close>

text \<open>Each spawned write first awaits its predecessor, so at most one handle is held: the head of
  a chain.  The chain is its queue of writes not yet performed and the first error met.\<close>

record 's async_writes =
  aw_held :: bool
  aw_queue :: "'s checkpoint list"
  aw_error :: "graph_error option"

definition no_writes :: "'s async_writes" where
  "no_writes = \<lparr>aw_held = False, aw_queue = [], aw_error = None\<rparr>"

definition spawn_ordered :: "'s checkpoint \<Rightarrow> 's async_writes \<Rightarrow> 's async_writes" where
  "spawn_ordered ck aw = aw\<lparr>aw_held := True, aw_queue := aw_queue aw @ [ck]\<rparr>"

text \<open>The tasks of the chain making progress: \<open>k\<close> writes land, and after an error the rest of the
  chain is skipped.\<close>

fun land :: "('st, 's) checkpointer \<Rightarrow> nat \<Rightarrow> 's async_writes \<Rightarrow> 'st world \<Rightarrow>
    's async_writes \<times> 'st world" where
  "land cp 0 aw w = (aw, w)"
| "land cp (Suc k) aw w =
    (case aw_queue aw of
       [] \<Rightarrow> (aw, w)
     | ck # cks \<Rightarrow>
         if aw_error aw \<noteq> None then land cp k (aw\<lparr>aw_queue := cks\<rparr>) w
         else (case cp_put cp ck (w_store w) of
             (Inl e, st) \<Rightarrow> land cp k (aw\<lparr>aw_queue := cks, aw_error := Some e\<rparr>) (w\<lparr>w_store := st\<rparr>)
           | (Inr _, st) \<Rightarrow> land cp k (aw\<lparr>aw_queue := cks\<rparr>) (w\<lparr>w_store := st\<rparr>)))"

text \<open>Harvests the chain when it has finished, without waiting for it.\<close>

definition take_failure :: "'s async_writes \<Rightarrow> graph_error option \<times> 's async_writes" where
  "take_failure aw =
    (if \<not> aw_held aw then (None, aw)
     else if aw_queue aw \<noteq> [] then (None, aw)
     else (aw_error aw, no_writes))"

text \<open>Awaits the whole chain.\<close>

definition drain :: "('st, 's) checkpointer \<Rightarrow> 's async_writes \<Rightarrow> 'st world \<Rightarrow>
    (graph_error option \<times> 's async_writes) \<times> 'st world" where
  "drain cp aw w =
    (if \<not> aw_held aw then ((None, aw), w)
     else let (aw', w') = land cp (length (aw_queue aw)) aw w in ((aw_error aw', no_writes), w'))"

section \<open>Boundary checkpoints\<close>

text \<open>What a boundary records.\<close>

record 's boundary =
  bd_run_id :: string
  bd_state :: 's
  bd_pending :: "activation list"
  bd_completed :: "activation list"
  bd_interrupts :: "interrupt list"
  bd_interrupted :: "string list"
  bd_arrivals :: arrivals
  bd_parent :: "string option"
  bd_step :: nat
  bd_recursion :: json

definition loop_metadata :: "'s boundary \<Rightarrow> (string \<times> json) list" where
  "loop_metadata b = [(''source'', JString ''loop''), (''step'', jnat (bd_step b)),
     (''recursion'', bd_recursion b), (''child_runs'', JArray [])]"

definition build_loop_checkpoint ::
  "('s, 'u) compiled_graph \<Rightarrow> runtime \<Rightarrow> string \<Rightarrow> 's boundary \<Rightarrow> 'st world \<Rightarrow> 's checkpoint \<times> 'st world" where
  "build_loop_checkpoint c rt thread b w =
    (let (i, w') = new_checkpoint_id rt w
     in (\<lparr>ck_thread_id = thread, ck_id = i, ck_run_id = Some (bd_run_id b), ck_parent = bd_parent b,
          ck_namespace = cg_namespace c, ck_state = bd_state b,
          ck_next_nodes = activation_nodes (bd_pending b),
          ck_completed_tasks = activation_nodes (bd_completed b),
          ck_pending_writes = completion_writes (bd_completed b),
          ck_interrupts = bd_interrupts b,
          ck_pending_activations = Some (map to_pending (bd_pending b)),
          ck_barrier_arrivals = barriers_to_persisted (bd_arrivals b),
          ck_metadata = jobj (loop_metadata b @
            (if bd_interrupted b = [] then []
             else [(''interrupted_nodes'', JArray (map JString (bd_interrupted b)))]))\<rparr>, w'))"

definition config_of :: "'s checkpoint \<Rightarrow> checkpoint_config" where
  "config_of ck = \<lparr>cfg_thread_id = ck_thread_id ck, cfg_checkpoint_id = Some (ck_id ck),
     cfg_namespace = ck_namespace ck\<rparr>"

text \<open>\<open>put\<close> followed by \<open>put_writes\<close>, as the blocking persist paths do.\<close>

definition put_with_ledger ::
  "('st, 's) checkpointer \<Rightarrow> 's checkpoint \<Rightarrow> 'st world \<Rightarrow> (graph_error + string option) \<times> 'st world" where
  "put_with_ledger cp ck w =
    (case cp_put cp ck (w_store w) of
       (Inl e, st) \<Rightarrow> (Inl e, w\<lparr>w_store := st\<rparr>)
     | (Inr i, st) \<Rightarrow>
         (case cp_put_writes cp (config_of ck) (ck_pending_writes ck) st of
            (Inl e, st') \<Rightarrow> (Inl e, w\<lparr>w_store := st'\<rparr>)
          | (Inr _, st') \<Rightarrow> (Inr (Some i), w\<lparr>w_store := st'\<rparr>)))"

definition persist_checkpoint ::
  "('st, 's) checkpointer \<Rightarrow> ('s, 'u) compiled_graph \<Rightarrow> runtime \<Rightarrow> string option \<Rightarrow> 's boundary \<Rightarrow>
    'st world \<Rightarrow> (graph_error + string option) \<times> 'st world" where
  "persist_checkpoint cp c rt thread b w =
    (case thread of
       Some th \<Rightarrow>
         if cg_checkpointer c
         then let (ck, w') = build_loop_checkpoint c rt th b w in put_with_ledger cp ck w'
         else (Inr None, w)
     | None \<Rightarrow> (Inr None, w))"

definition persist_checkpoint_nonblocking ::
  "('st, 's) checkpointer \<Rightarrow> ('s, 'u) compiled_graph \<Rightarrow> runtime \<Rightarrow> string option \<Rightarrow> 's boundary \<Rightarrow>
    's async_writes \<Rightarrow> 'st world \<Rightarrow> (graph_error + string option) \<times> 's async_writes \<times> 'st world" where
  "persist_checkpoint_nonblocking cp c rt thread b aw w =
    (case thread of
       Some th \<Rightarrow>
         if cg_checkpointer c
         then let (ck, w') = build_loop_checkpoint c rt th b w
              in if rt_tokio rt then (Inr (Some (ck_id ck)), spawn_ordered ck aw, w')
                 else (case cp_put cp ck (w_store w') of
                     (Inl e, st) \<Rightarrow> (Inl e, aw, w'\<lparr>w_store := st\<rparr>)
                   | (Inr i, st) \<Rightarrow> (Inr (Some i), aw, w'\<lparr>w_store := st\<rparr>))
         else (Inr None, aw, w)
     | None \<Rightarrow> (Inr None, aw, w))"

definition persist_failure_checkpoint ::
  "('st, 's) checkpointer \<Rightarrow> ('s, 'u) compiled_graph \<Rightarrow> runtime \<Rightarrow> string option \<Rightarrow> 's boundary \<Rightarrow>
    string \<Rightarrow> graph_error \<Rightarrow> 'st world \<Rightarrow> (graph_error + string option) \<times> 'st world" where
  "persist_failure_checkpoint cp c rt thread b failed_node err w =
    (case thread of
       Some th \<Rightarrow>
         if cg_checkpointer c
         then let (i, w') = new_checkpoint_id rt w;
                  ck = \<lparr>ck_thread_id = th, ck_id = i, ck_run_id = Some (bd_run_id b), ck_parent = bd_parent b,
                    ck_namespace = cg_namespace c, ck_state = bd_state b,
                    ck_next_nodes = activation_nodes (bd_pending b),
                    ck_completed_tasks = activation_nodes (bd_completed b),
                    ck_pending_writes = completion_writes (bd_completed b), ck_interrupts = [],
                    ck_pending_activations = Some (map to_pending (bd_pending b)),
                    ck_barrier_arrivals = barriers_to_persisted (bd_arrivals b),
                    ck_metadata = jobj (loop_metadata b @
                      [(''failed_node'', JString failed_node), (''error'', JString (error_to_string err))])\<rparr>
              in put_with_ledger cp ck w'
         else (Inr None, w)
     | None \<Rightarrow> (Inr None, w))"

end
