(* ===== verification/Tf_Run.thy ===== *)
theory Tf_Run
  imports Tf_Persist
begin

text \<open>
  The super-step loop, \<open>graph/compiled/executor/run_loop.rs\<close>, with the outcomes of
  \<open>outcomes.rs\<close>.  One iteration of the loop is \<open>step_once\<close>; it either finishes the run or yields
  the state of the next iteration.  The loop is a total function: the step limit bounds its
  iterations.  Status records and events are not part of the model, except for the status the
  returned execution carries.
\<close>

section \<open>State\<close>

datatype execution_status = Completed | Paused

record run_status =
  rst_status :: execution_status
  rst_current_step :: nat
  rst_active_nodes :: "string list"
  rst_pending_interrupts :: "string list"
  rst_checkpoint_id :: "string option"

record 's graph_execution =
  ge_state :: 's
  ge_run_id :: string
  ge_graph_id :: string
  ge_root_run_id :: string
  ge_parent_run_id :: "string option"
  ge_visited :: "string list"
  ge_steps :: nat
  ge_interrupts :: "interrupt list"
  ge_status :: run_status
  ge_checkpoint_id :: "string option"

text \<open>What stays fixed during a run.\<close>

record run_context =
  rc_run_id :: string
  rc_thread :: "string option"
  rc_root :: string
  rc_parent_run :: "string option"
  rc_stack :: recursion_stack

text \<open>The local variables of the loop.\<close>

record 's loop_state =
  ls_state :: 's
  ls_active :: "activation list"
  ls_steps :: nat
  ls_barriers :: arrivals
  ls_visits :: visit_counts
  ls_resume :: resume_map
  ls_visited :: "string list"
  ls_parent :: "string option"
  ls_last :: "string option"
  ls_async :: "'s async_writes"

datatype 's step_outcome =
    Finished "graph_error + 's graph_execution"
  | Continue "'s loop_state"

section \<open>Outcomes\<close>

definition finish_completed :: "('s, 'u) compiled_graph \<Rightarrow> run_context \<Rightarrow> 's loop_state \<Rightarrow> 's graph_execution" where
  "finish_completed c rc ls = \<lparr>ge_state = ls_state ls, ge_run_id = rc_run_id rc, ge_graph_id = cg_graph_id c,
     ge_root_run_id = rc_root rc, ge_parent_run_id = rc_parent_run rc, ge_visited = ls_visited ls,
     ge_steps = ls_steps ls, ge_interrupts = [],
     ge_status = \<lparr>rst_status = Completed, rst_current_step = ls_steps ls, rst_active_nodes = [],
       rst_pending_interrupts = [], rst_checkpoint_id = ls_last ls\<rparr>,
     ge_checkpoint_id = ls_last ls\<rparr>"

text \<open>The error that aborts a run is returned after the background writes have settled; a write
  error does not replace it.\<close>

definition fail_and_return ::
  "('st, 's) checkpointer \<Rightarrow> 's async_writes \<Rightarrow> graph_error \<Rightarrow> 'st world \<Rightarrow> 's step_outcome \<times> 'st world" where
  "fail_and_return cp aw err w = (Finished (Inl err), snd (drain cp aw w))"

definition require_interrupt_durability ::
  "('s, 'u) compiled_graph \<Rightarrow> string option \<Rightarrow> graph_error + unit" where
  "require_interrupt_durability c thread =
    (if \<not> cg_checkpointer c then Inl (ResumeErr ''interrupt emitted without a configured checkpointer'')
     else if thread = None then Inl (ResumeErr ''interrupt emitted without a thread id'')
     else Inr ())"

definition boundary_of ::
  "run_context \<Rightarrow> 's loop_state \<Rightarrow> activation list \<Rightarrow> activation list \<Rightarrow> arrivals \<Rightarrow> 's boundary" where
  "boundary_of rc ls pending completed arr =
    \<lparr>bd_run_id = rc_run_id rc, bd_state = ls_state ls, bd_pending = pending, bd_completed = completed,
     bd_interrupts = [], bd_interrupted = [], bd_arrivals = arr, bd_parent = ls_parent ls,
     bd_step = ls_steps ls, bd_recursion = JArray (map frame_json (rs_frames (rc_stack rc)))\<rparr>"

text \<open>The branches a paused step reschedules: the interrupted ones, then those never started.\<close>

definition rescheduled :: "activation list \<Rightarrow> 'u step_run \<Rightarrow> activation list" where
  "rescheduled active sr = map (\<lambda>(i, _). active ! i) (sr_interrupts sr) @ others active (recorded sr)"

definition finish_interrupt ::
  "('st, 's) checkpointer \<Rightarrow> ('s, 'u) compiled_graph \<Rightarrow> runtime \<Rightarrow> run_context \<Rightarrow> 's loop_state \<Rightarrow>
    'u step_run \<Rightarrow> 'st world \<Rightarrow> 's step_outcome \<times> 'st world" where
  "finish_interrupt cp c rt rc ls sr w =
    (case require_interrupt_durability c (rc_thread rc) of
       Inl e \<Rightarrow> fail_and_return cp (ls_async ls) e w
     | Inr _ \<Rightarrow>
         let (completed, gotos) = partition_completed (ls_active ls) (sr_gotos sr) (sr_completed sr)
         in case route_completed c completed gotos (ls_state ls) (ls_barriers ls) of
              (Inl e, _) \<Rightarrow> fail_and_return cp (ls_async ls) e w
            | (Inr succs, arr) \<Rightarrow>
                let pending = succs @ rescheduled (ls_active ls) sr;
                    emitted = map snd (sr_interrupts sr);
                    b = (boundary_of rc ls pending completed arr)\<lparr>bd_interrupts := emitted,
                          bd_interrupted := map (\<lambda>(i, _). act_node (ls_active ls ! i)) (sr_interrupts sr)\<rparr>
                in case drain cp (ls_async ls) w of
                     ((Some e, aw), w1) \<Rightarrow> fail_and_return cp aw e w1
                   | ((None, aw), w1) \<Rightarrow>
                       (case persist_checkpoint cp c rt (rc_thread rc) b w1 of
                          (Inl e, w2) \<Rightarrow> fail_and_return cp aw e w2
                        | (Inr cid, w2) \<Rightarrow>
                            (Finished (Inr \<lparr>ge_state = ls_state ls, ge_run_id = rc_run_id rc,
                               ge_graph_id = cg_graph_id c, ge_root_run_id = rc_root rc,
                               ge_parent_run_id = rc_parent_run rc, ge_visited = ls_visited ls,
                               ge_steps = ls_steps ls, ge_interrupts = emitted,
                               ge_status = \<lparr>rst_status = Paused, rst_current_step = ls_steps ls,
                                 rst_active_nodes = activation_nodes pending,
                                 rst_pending_interrupts = map interrupt_id emitted,
                                 rst_checkpoint_id = cid\<rparr>,
                               ge_checkpoint_id = cid\<rparr>), w2)))"

definition finish_failure ::
  "('st, 's) checkpointer \<Rightarrow> ('s, 'u) compiled_graph \<Rightarrow> runtime \<Rightarrow> run_context \<Rightarrow> 's loop_state \<Rightarrow>
    'u step_run \<Rightarrow> nat \<Rightarrow> graph_error \<Rightarrow> 'st world \<Rightarrow> 's step_outcome \<times> 'st world" where
  "finish_failure cp c rt rc ls sr failed_index err w =
    (let (completed, gotos) = partition_completed (ls_active ls) (sr_gotos sr) (sr_completed sr)
     in case route_completed c completed gotos (ls_state ls) (ls_barriers ls) of
          (Inl e, _) \<Rightarrow> fail_and_return cp (ls_async ls) e w
        | (Inr succs, arr) \<Rightarrow>
            let pending = succs @ others (ls_active ls) (sr_completed sr);
                w1 = snd (drain cp (ls_async ls) w);
                w2 = snd (persist_failure_checkpoint cp c rt (rc_thread rc)
                       (boundary_of rc ls pending completed arr) (act_node (ls_active ls ! failed_index)) err w1)
            in (Finished (Inl err), w2))"

section \<open>One iteration\<close>

definition step_limit :: "('s, 'u) compiled_graph \<Rightarrow> nat" where
  "step_limit c = min (cg_recursion_limit c) (max_total_steps (cg_recursion_policy c))"

text \<open>The guards in front of a super-step.\<close>

definition admit_step ::
  "('s, 'u) compiled_graph \<Rightarrow> runtime \<Rightarrow> run_context \<Rightarrow> 's loop_state \<Rightarrow> graph_error + visit_counts" where
  "admit_step c rt rc ls =
    (if step_limit c \<le> ls_steps ls then Inl (RecursionLimit (step_limit c))
     else if (case cg_run_deadline c of Some d \<Rightarrow> d \<le> rt_elapsed rt (ls_steps ls) | None \<Rightarrow> False)
     then Inl (Timeout (''graph run exceeded its '' @ rt_show_duration rt (the (cg_run_deadline c))
       @ '' deadline after '' @ show_nat (ls_steps ls) @ '' super-step(s) (''
       @ rt_show_duration rt (rt_elapsed rt (ls_steps ls)) @ '' elapsed)''))
     else (case record_visits (rc_stack rc) (activation_nodes (ls_active ls)) (ls_visits ls) of
         (Inl e, _) \<Rightarrow> Inl e
       | (Inr _, visits') \<Rightarrow> Inr visits'))"

text \<open>Persisting the boundary of a step that neither failed nor paused.\<close>

definition persist_boundary ::
  "('st, 's) checkpointer \<Rightarrow> ('s, 'u) compiled_graph \<Rightarrow> runtime \<Rightarrow> run_context \<Rightarrow> 's boundary \<Rightarrow>
    's async_writes \<Rightarrow> 'st world \<Rightarrow> (graph_error + string option) \<times> 's async_writes \<times> 'st world" where
  "persist_boundary cp c rt rc b aw w =
    (let terminal = (bd_pending b = [])
     in if cg_durability c = DExit \<and> \<not> terminal then (Inr None, aw, w)
        else if cg_durability c = DAsync \<and> \<not> terminal
        then persist_checkpoint_nonblocking cp c rt (rc_thread rc) b aw w
        else (case (if terminal then drain cp aw w else ((None, aw), w)) of
            ((Some e, aw'), w1) \<Rightarrow> (Inl e, aw', w1)
          | ((None, aw'), w1) \<Rightarrow>
              (case persist_checkpoint cp c rt (rc_thread rc) b w1 of
                 (r, w2) \<Rightarrow> (r, aw', w2))))"

definition step_env_of :: "run_context \<Rightarrow> nat \<Rightarrow> step_env" where
  "step_env_of rc step = \<lparr>se_run_id = rc_run_id rc, se_thread_id = rc_thread rc, se_step = step,
     se_root_run_id = rc_root rc, se_frames = rs_frames (rc_stack rc)\<rparr>"

text \<open>The end of an iteration, after the updates have been applied: \<open>ls\<close> carries the new state.\<close>

definition finish_step ::
  "('st, 's) checkpointer \<Rightarrow> ('s, 'u) compiled_graph \<Rightarrow> runtime \<Rightarrow> run_context \<Rightarrow> 's loop_state \<Rightarrow>
    'u step_run \<Rightarrow> 'st world \<Rightarrow> 's step_outcome \<times> 'st world" where
  "finish_step cp c rt rc ls sr w =
    (case route_completed c (ls_active ls) (sr_gotos sr) (ls_state ls) (ls_barriers ls) of
       (Inl e, _) \<Rightarrow> fail_and_return cp (ls_async ls) e w
     | (Inr nxt, arr) \<Rightarrow>
         let (aw1, w1) = land cp (rt_landed rt (ls_steps ls)) (ls_async ls) w
         in case take_failure aw1 of
              (Some e, aw2) \<Rightarrow> fail_and_return cp aw2 e w1
            | (None, aw2) \<Rightarrow>
                (case persist_boundary cp c rt rc (boundary_of rc ls nxt (ls_active ls) arr) aw2 w1 of
                   (Inl e, aw3, w2) \<Rightarrow> fail_and_return cp aw3 e w2
                 | (Inr cid, aw3, w2) \<Rightarrow>
                     (Continue (ls\<lparr>ls_active := nxt, ls_barriers := arr, ls_async := aw3,
                        ls_parent := (if cid = None then ls_parent ls else cid),
                        ls_last := (if cid = None then ls_last ls else cid)\<rparr>), w2)))"

text \<open>The first half of an iteration runs the active set and applies its updates; the second half
  closes the boundary.\<close>

definition advance ::
  "('s, 'u) compiled_graph \<Rightarrow> runtime \<Rightarrow> run_context \<Rightarrow> 's loop_state \<Rightarrow>
    graph_error + 's loop_state \<times> 'u step_run" where
  "advance c rt rc ls =
    (case admit_step c rt rc ls of
       Inl e \<Rightarrow> Inl e
     | Inr visits' \<Rightarrow>
         let steps = ls_steps ls + 1; active = assign_task_ids steps (ls_active ls)
         in case run_active c (step_env_of rc steps) (ls_state ls) active (ls_resume ls) (ls_visited ls) of
              (Inl e, _, _) \<Rightarrow> Inl e
            | (Inr sr, rm, vis) \<Rightarrow>
                (case reduce_all (cg_reducer c) (ls_state ls) (sr_updates sr) of
                   Inl e \<Rightarrow> Inl e
                 | Inr s \<Rightarrow>
                     Inr (ls\<lparr>ls_state := s, ls_active := active, ls_steps := steps, ls_visits := visits',
                             ls_resume := rm, ls_visited := vis\<rparr>, sr)))"

definition close_step ::
  "('st, 's) checkpointer \<Rightarrow> ('s, 'u) compiled_graph \<Rightarrow> runtime \<Rightarrow> run_context \<Rightarrow> 's loop_state \<Rightarrow>
    'u step_run \<Rightarrow> 'st world \<Rightarrow> 's step_outcome \<times> 'st world" where
  "close_step cp c rt rc ls sr w =
    (case sr_failure sr of
       Some (i, e) \<Rightarrow> finish_failure cp c rt rc ls sr i e w
     | None \<Rightarrow>
         if sr_interrupts sr \<noteq> [] then finish_interrupt cp c rt rc ls sr w
         else finish_step cp c rt rc ls sr w)"

definition step_once ::
  "('st, 's) checkpointer \<Rightarrow> ('s, 'u) compiled_graph \<Rightarrow> runtime \<Rightarrow> run_context \<Rightarrow> 's loop_state \<Rightarrow>
    'st world \<Rightarrow> 's step_outcome \<times> 'st world" where
  "step_once cp c rt rc ls w =
    (case advance c rt rc ls of
       Inl e \<Rightarrow> fail_and_return cp (ls_async ls) e w
     | Inr (ls', sr) \<Rightarrow> close_step cp c rt rc ls' sr w)"

section \<open>The loop\<close>

lemma advance_Inr:
  assumes "advance c rt rc ls = Inr (ls', sr)"
  shows "ls_steps ls < step_limit c" "ls_steps ls' = Suc (ls_steps ls)"
    "ls_active ls' = assign_task_ids (Suc (ls_steps ls)) (ls_active ls)"
    "ls_barriers ls' = ls_barriers ls" "ls_async ls' = ls_async ls" "ls_parent ls' = ls_parent ls"
    "ls_last ls' = ls_last ls"
  using assms
  by (auto simp: advance_def admit_step_def Let_def split: prod.splits sum.splits if_splits)

lemma close_step_Continue:
  assumes "close_step cp c rt rc ls sr w = (Continue ls', w')"
  shows "sr_failure sr = None" "sr_interrupts sr = []" "finish_step cp c rt rc ls sr w = (Continue ls', w')"
    "ls_steps ls' = ls_steps ls"
  using assms
  by (auto simp: close_step_def finish_failure_def finish_interrupt_def finish_step_def fail_and_return_def Let_def
      split: prod.splits sum.splits option.splits if_splits)

lemma step_once_Continue:
  assumes "step_once cp c rt rc ls w = (Continue ls', w')"
  shows "ls_steps ls < step_limit c" "ls_steps ls' = Suc (ls_steps ls)"
proof -
  obtain ls1 sr where adv: "advance c rt rc ls = Inr (ls1, sr)" and
    close: "close_step cp c rt rc ls1 sr w = (Continue ls', w')"
    using assms by (auto simp: step_once_def fail_and_return_def split: sum.splits)
  show "ls_steps ls < step_limit c" "ls_steps ls' = Suc (ls_steps ls)"
    using advance_Inr(1,2) [OF adv] close_step_Continue(4) [OF close] by simp_all
qed

function run_loop ::
  "('st, 's) checkpointer \<Rightarrow> ('s, 'u) compiled_graph \<Rightarrow> runtime \<Rightarrow> run_context \<Rightarrow> 's loop_state \<Rightarrow>
    'st world \<Rightarrow> (graph_error + 's graph_execution) \<times> 'st world" where
  "run_loop cp c rt rc ls w =
    (if ls_active ls = [] then (Inr (finish_completed c rc ls), w)
     else (case step_once cp c rt rc ls w of
         (Finished r, w') \<Rightarrow> (r, w')
       | (Continue ls', w') \<Rightarrow> run_loop cp c rt rc ls' w'))"
  by auto
termination
proof (relation "measure (\<lambda>(cp, c, rt, rc, ls, w). step_limit c - ls_steps ls)", goal_cases)
  case (2 cp c rt rc ls w out w' ls')
  then show ?case using step_once_Continue [of cp c rt rc ls w ls' w'] by auto
qed simp

declare run_loop.simps [simp del]

definition execute_run ::
  "('st, 's) checkpointer \<Rightarrow> ('s, 'u) compiled_graph \<Rightarrow> runtime \<Rightarrow> string \<Rightarrow> 's \<Rightarrow> activation list \<Rightarrow>
    string option \<Rightarrow> resume_map \<Rightarrow> arrivals \<Rightarrow> string option \<Rightarrow> 'st world \<Rightarrow>
    (graph_error + 's graph_execution) \<times> 'st world" where
  "execute_run cp c rt run_id s active thread rm barriers parent w =
    (let stack = stack_with_frames (cg_recursion_frames c) (cg_recursion_policy c);
         root = (case cg_recursion_frames c of [] \<Rightarrow> run_id | f # _ \<Rightarrow> fr_run_id f);
         parent_run = map_option fr_run_id (last_opt (cg_recursion_frames c));
         this = \<lparr>fr_graph_id = cg_graph_id c, fr_node_id = cg_recursion_node c, fr_run_id = run_id,
                 fr_task_id = None, fr_namespace = cg_namespace c, fr_depth = stack_depth stack,
                 fr_parent = parent_run\<rparr>
     in case stack_push this stack of
          Inl e \<Rightarrow> (Inl e, w)
        | Inr stack' \<Rightarrow>
            run_loop cp c rt
              \<lparr>rc_run_id = run_id, rc_thread = thread, rc_root = root, rc_parent_run = parent_run,
               rc_stack = stack'\<rparr>
              \<lparr>ls_state = s, ls_active = active, ls_steps = 0, ls_barriers = barriers,
               ls_visits = (\<lambda>_. None), ls_resume = rm, ls_visited = [], ls_parent = parent,
               ls_last = None, ls_async = no_writes\<rparr> w)"

definition execute ::
  "('st, 's) checkpointer \<Rightarrow> ('s, 'u) compiled_graph \<Rightarrow> runtime \<Rightarrow> 's \<Rightarrow> activation list \<Rightarrow>
    string option \<Rightarrow> resume_map \<Rightarrow> arrivals \<Rightarrow> string option \<Rightarrow> 'st world \<Rightarrow>
    (graph_error + 's graph_execution) \<times> 'st world" where
  "execute cp c rt s active thread rm barriers parent w =
    (let (run_id, w') = new_run_id rt w
     in execute_run cp c rt run_id s active thread rm barriers parent w')"

end
