(* ===== verification/Tf_RunLaws.thy ===== *)
theory Tf_RunLaws
  imports Tf_Run
begin

text \<open>
  Properties of the super-step loop: the invariant of its iterations, the step bound, the
  equivalence of background and inline checkpoint writes, and the lineage of checkpoints a run
  leaves in its thread.
\<close>

section \<open>The invariant of the loop\<close>

definition loop_inv :: "('s, 'u) compiled_graph \<Rightarrow> 's loop_state \<Rightarrow> bool" where
  "loop_inv c ls \<longleftrightarrow> (\<forall>a \<in> set (ls_active ls). registered c (act_node a)) \<and> open_barriers c (ls_barriers ls)"

inductive loop_reach ::
  "('st, 's) checkpointer \<Rightarrow> ('s, 'u) compiled_graph \<Rightarrow> runtime \<Rightarrow> run_context \<Rightarrow>
    's loop_state \<Rightarrow> 'st world \<Rightarrow> 's loop_state \<Rightarrow> 'st world \<Rightarrow> bool"
  for cp c rt rc ls0 w0 where
  reach_start: "loop_reach cp c rt rc ls0 w0 ls0 w0"
| reach_step: "loop_reach cp c rt rc ls0 w0 ls w \<Longrightarrow> ls_active ls \<noteq> [] \<Longrightarrow>
    step_once cp c rt rc ls w = (Continue ls', w') \<Longrightarrow> loop_reach cp c rt rc ls0 w0 ls' w'"

lemma assign_task_ids_nodes [simp]:
  "act_node ` set (assign_task_ids steps active) = act_node ` set active"
proof -
  have "map act_node (assign_task_ids steps active) = map act_node active"
    by (intro nth_equalityI) simp_all
  then have "set (map act_node (assign_task_ids steps active)) = set (map act_node active)" by simp
  then show ?thesis by simp
qed

lemma assigned_registered:
  "\<forall>a \<in> set active. registered c (act_node a) \<Longrightarrow>
    \<forall>a \<in> set (assign_task_ids steps active). registered c (act_node a)"
  using assign_task_ids_nodes [of steps active] by (metis imageE imageI)

lemma step_once_split:
  assumes "step_once cp c rt rc ls w = (Continue ls', w')"
  obtains ls1 sr nxt arr where "advance c rt rc ls = Inr (ls1, sr)"
    "finish_step cp c rt rc ls1 sr w = (Continue ls', w')"
    "route_completed c (ls_active ls1) (sr_gotos sr) (ls_state ls1) (ls_barriers ls1) = (Inr nxt, arr)"
    "ls_active ls' = nxt" "ls_barriers ls' = arr"
proof -
  obtain ls1 sr where adv: "advance c rt rc ls = Inr (ls1, sr)" and
    close: "close_step cp c rt rc ls1 sr w = (Continue ls', w')"
    using assms by (auto simp: step_once_def fail_and_return_def split: sum.splits)
  note fin = close_step_Continue(3) [OF close]
  then obtain nxt arr where
    "route_completed c (ls_active ls1) (sr_gotos sr) (ls_state ls1) (ls_barriers ls1) = (Inr nxt, arr)"
    "ls_active ls' = nxt" "ls_barriers ls' = arr"
    by (auto simp: finish_step_def fail_and_return_def Let_def split: prod.splits sum.splits option.splits)
  with that adv fin show ?thesis by blast
qed

lemma step_once_inv:
  assumes "graph_ok c" "loop_inv c ls" "step_once cp c rt rc ls w = (Continue ls', w')"
  shows "loop_inv c ls'"
proof (rule step_once_split [OF assms(3)])
  fix ls1 sr nxt arr
  assume adv: "advance c rt rc ls = Inr (ls1, sr)"
    and r: "route_completed c (ls_active ls1) (sr_gotos sr) (ls_state ls1) (ls_barriers ls1) = (Inr nxt, arr)"
      "ls_active ls' = nxt" "ls_barriers ls' = arr"
  show ?thesis
    using route_to_registered [OF assms(1) r(1)] route_keeps_open [OF _ r(1)] assms(2) r(2,3) advance_Inr(4) [OF adv]
    by (simp add: loop_inv_def)
qed

lemma reach_inv:
  assumes "loop_reach cp c rt rc ls0 w0 ls w" "graph_ok c" "loop_inv c ls0"
  shows "loop_inv c ls"
  using assms by (induction rule: loop_reach.induct) (auto intro: step_once_inv)

text \<open>C16 (super_step_invariant): from a start whose activations are registered and whose barriers
  are open, every iteration the loop reaches has registered activations only and open barriers,
  and its step runs: the executor never aborts for want of a handler.\<close>

theorem super_step_invariant:
  assumes "runnable c" "loop_inv c ls0" "loop_reach cp c rt rc ls0 w0 ls w"
  shows "loop_inv c ls \<and> (\<exists>sr rm vis. run_active c env (ls_state ls)
    (assign_task_ids (ls_steps ls + 1) (ls_active ls)) (ls_resume ls) (ls_visited ls) = (Inr sr, rm, vis))"
proof -
  have inv: "loop_inv c ls" using reach_inv [OF assms(3) runnable_ok [OF assms(1)] assms(2)] .
  then have "\<forall>a \<in> set (assign_task_ids (ls_steps ls + 1) (ls_active ls)). registered c (act_node a)"
    by (intro assigned_registered) (simp add: loop_inv_def)
  from run_active_total [OF this] inv show ?thesis by blast
qed

section \<open>The step limit\<close>

lemma run_loop_induct [consumes 1, case_names stop finish cont]:
  assumes "run_loop cp c rt rc ls w = (r, w')"
    and stop: "\<And>ls w. ls_active ls = [] \<Longrightarrow> P ls w (Inr (finish_completed c rc ls)) w"
    and fin: "\<And>ls w r w'. ls_active ls \<noteq> [] \<Longrightarrow> step_once cp c rt rc ls w = (Finished r, w') \<Longrightarrow> P ls w r w'"
    and cont: "\<And>ls w ls1 w1 r w'. ls_active ls \<noteq> [] \<Longrightarrow> step_once cp c rt rc ls w = (Continue ls1, w1) \<Longrightarrow>
      run_loop cp c rt rc ls1 w1 = (r, w') \<Longrightarrow> P ls1 w1 r w' \<Longrightarrow> P ls w r w'"
  shows "P ls w r w'"
  using assms(1)
proof (induction "step_limit c - ls_steps ls" arbitrary: ls w rule: less_induct)
  case less
  show ?case
  proof (cases "ls_active ls = []")
    case True
    then have "r = Inr (finish_completed c rc ls)" "w' = w"
      using less.prems by (simp_all add: run_loop.simps)
    with stop [OF True] show ?thesis by simp
  next
    case False
    obtain out w1 where once: "step_once cp c rt rc ls w = (out, w1)" by fastforce
    show ?thesis
    proof (cases out)
      case (Finished r1)
      with False once less.prems have "r = r1" "w' = w1" by (simp_all add: run_loop.simps)
      with fin [OF False] once Finished show ?thesis by simp
    next
      case (Continue ls1)
      with once have step: "step_once cp c rt rc ls w = (Continue ls1, w1)" by simp
      have "run_loop cp c rt rc ls1 w1 = (r, w')"
        using less.prems False step by (simp add: run_loop.simps [of cp c rt rc ls])
      with cont [OF False step] less.hyps [of ls1] step_once_Continue [OF step] show ?thesis by simp
    qed
  qed
qed

lemma close_step_steps:
  "close_step cp c rt rc ls sr w = (Finished (Inr ge), w') \<Longrightarrow> ge_steps ge = ls_steps ls"
  by (auto simp: close_step_def finish_failure_def finish_interrupt_def finish_step_def fail_and_return_def Let_def
      split: prod.splits sum.splits option.splits if_splits)

lemma finished_steps:
  assumes "step_once cp c rt rc ls w = (Finished (Inr ge), w')"
  shows "ge_steps ge = Suc (ls_steps ls)" "ls_steps ls < step_limit c"
proof -
  obtain ls1 sr where adv: "advance c rt rc ls = Inr (ls1, sr)" and
    close: "close_step cp c rt rc ls1 sr w = (Finished (Inr ge), w')"
    using assms by (auto simp: step_once_def fail_and_return_def split: sum.splits)
  show "ge_steps ge = Suc (ls_steps ls)" "ls_steps ls < step_limit c"
    using advance_Inr(1,2) [OF adv] close_step_steps [OF close] by simp_all
qed

lemma run_loop_steps:
  "run_loop cp c rt rc ls w = (r, w') \<Longrightarrow> ls_steps ls \<le> step_limit c \<Longrightarrow> r = Inr ge \<Longrightarrow>
    ls_steps ls \<le> ge_steps ge \<and> ge_steps ge \<le> step_limit c"
proof (induction rule: run_loop_induct)
  case (stop ls w)
  then show ?case by (auto simp: finish_completed_def)
next
  case (finish ls w r w')
  then show ?case using finished_steps [of cp c rt rc ls w ge w'] by simp
next
  case (cont ls w ls1 w1 r w')
  then show ?case using step_once_Continue [OF cont(2)] by simp
qed

lemma execute_steps:
  assumes "execute cp c rt s active thread rm barriers parent w = (Inr ge, w')"
  shows "ge_steps ge \<le> step_limit c"
  using assms run_loop_steps [of cp c rt]
  by (fastforce simp: execute_def execute_run_def Let_def split: prod.splits sum.splits)

text \<open>A run that returns an execution has performed at most
  \<open>step_limit\<close> super-steps, the smaller of the graph's recursion limit and the policy's cap;
  a run that would need more returns an error instead of looping.\<close>

theorem run_step_bounded:
  assumes "execute cp c rt s active thread rm barriers parent w = (Inr ge, w')"
  shows "ge_steps ge \<le> step_limit c"
  by (rule execute_steps [OF assms])

section \<open>Background writes and inline writes\<close>

text \<open>A checkpointer whose writes succeed.\<close>

locale reliable_put =
  fixes cp :: "('st, 's) checkpointer"
  assumes put_ok: "\<exists>st'. cp_put cp ck st = (Inr (ck_id ck), st')"
begin

lemma put_eq: "cp_put cp ck st = (Inr (ck_id ck), snd (cp_put cp ck st))"
  using put_ok [of ck st] by auto

end

definition flush_queue :: "('st, 's) checkpointer \<Rightarrow> 's checkpoint list \<Rightarrow> 'st world \<Rightarrow> 'st world" where
  "flush_queue cp cks w = w\<lparr>w_store := fold (\<lambda>ck st. snd (cp_put cp ck st)) cks (w_store w)\<rparr>"

lemma flush_simps [simp]:
  "flush_queue cp [] w = w"
  "flush_queue cp (ck # cks) w = flush_queue cp cks (w\<lparr>w_store := snd (cp_put cp ck (w_store w))\<rparr>)"
  "flush_queue cp (cks @ [ck]) w = (flush_queue cp cks w)\<lparr>w_store := snd (cp_put cp ck (w_store (flush_queue cp cks w)))\<rparr>"
  "w_seq (flush_queue cp cks w) = w_seq w"
  by (simp_all add: flush_queue_def)

lemma flush_seq [simp]: "flush_queue cp cks (w\<lparr>w_seq := n\<rparr>) = (flush_queue cp cks w)\<lparr>w_seq := n\<rparr>"
  by (simp add: flush_queue_def)

text \<open>A chain without an error, held whenever it has writes left.\<close>

definition clean :: "'s async_writes \<Rightarrow> bool" where
  "clean aw \<longleftrightarrow> aw_error aw = None \<and> (aw_queue aw \<noteq> [] \<longrightarrow> aw_held aw)"

lemma clean_no_writes [simp]: "clean no_writes" "aw_queue no_writes = []"
  by (simp_all add: clean_def no_writes_def)

context reliable_put
begin

lemma land_flush:
  "clean aw \<Longrightarrow> land cp k aw w = (aw', w') \<Longrightarrow>
    clean aw' \<and> flush_queue cp (aw_queue aw') w' = flush_queue cp (aw_queue aw) w
    \<and> (length (aw_queue aw) \<le> k \<longrightarrow> aw_queue aw' = [])"
proof (induction k arbitrary: aw w)
  case (Suc k)
  show ?case
  proof (cases "aw_queue aw")
    case (Cons ck cks)
    have "clean (aw\<lparr>aw_queue := cks\<rparr>)" using Suc.prems(1) Cons by (auto simp: clean_def)
    moreover have "land cp k (aw\<lparr>aw_queue := cks\<rparr>) (w\<lparr>w_store := snd (cp_put cp ck (w_store w))\<rparr>) = (aw', w')"
      using Suc.prems Cons put_eq [of ck "w_store w"]
      by (auto simp: clean_def split: prod.splits sum.splits)
    ultimately show ?thesis using Suc.IH Cons by fastforce
  qed (use Suc.prems in auto)
qed auto

lemma drain_flush:
  assumes "clean aw"
  shows "drain cp aw w = ((None, if aw_held aw then no_writes else aw), flush_queue cp (aw_queue aw) w)"
proof (cases "aw_held aw")
  case True
  obtain aw' w' where l: "land cp (length (aw_queue aw)) aw w = (aw', w')" by fastforce
  with land_flush [OF assms l] True show ?thesis by (auto simp: drain_def clean_def)
qed (use assms in \<open>auto simp: drain_def clean_def\<close>)

lemma take_failure_clean:
  assumes "clean aw" "take_failure aw = (e, aw')"
  shows "e = None" "clean aw'" "aw_queue aw' = aw_queue aw"
  using assms by (auto simp: take_failure_def clean_def no_writes_def split: if_splits)

lemma fail_flush:
  "clean aw \<Longrightarrow> fail_and_return cp aw err w = (Finished (Inl err), flush_queue cp (aw_queue aw) w)"
  by (simp add: fail_and_return_def drain_flush)

lemma drained_queue: "clean aw \<Longrightarrow> aw_queue (if aw_held aw then no_writes else aw) = []"
  by (auto simp: clean_def)

lemma unheld: "clean aw \<Longrightarrow> \<not> aw_held aw \<longrightarrow> aw_queue aw = []"
  by (auto simp: clean_def)

lemma drained_clean: "clean aw \<Longrightarrow> clean (if aw_held aw then no_writes else aw)"
  by auto

end

definition inline :: "runtime \<Rightarrow> runtime" where
  "inline rt = rt\<lparr>rt_tokio := False\<rparr>"

lemma inline_sel [simp]:
  "rt_nonce (inline rt) = rt_nonce rt" "rt_elapsed (inline rt) = rt_elapsed rt"
  "rt_landed (inline rt) = rt_landed rt" "rt_show_duration (inline rt) = rt_show_duration rt"
  "\<not> rt_tokio (inline rt)"
  by (simp_all add: inline_def)

lemma inline_id [simp]: "new_checkpoint_id (inline rt) = new_checkpoint_id rt"
  by (simp add: fun_eq_iff new_checkpoint_id_def)

lemma inline_persist [simp]:
  "build_loop_checkpoint c (inline rt) th b w = build_loop_checkpoint c rt th b w"
  "persist_checkpoint cp c (inline rt) thread b w = persist_checkpoint cp c rt thread b w"
  "persist_failure_checkpoint cp c (inline rt) thread b n e w = persist_failure_checkpoint cp c rt thread b n e w"
  "admit_step c (inline rt) rc ls = admit_step c rt rc ls"
  unfolding persist_checkpoint_def persist_failure_checkpoint_def build_loop_checkpoint_def admit_step_def
    inline_id inline_sel by (rule refl)+

lemma land_empty: "aw_queue aw = [] \<Longrightarrow> land cp k aw w = (aw, w)"
  by (cases k) simp_all

lemma land_no_writes [simp]: "land cp k no_writes w = (no_writes, w)"
  by (simp add: land_empty)

lemma take_failure_no_writes [simp]: "take_failure no_writes = (None, no_writes)"
  by (simp add: take_failure_def no_writes_def)

lemma drain_no_writes [simp]: "drain cp no_writes w = ((None, no_writes), w)"
  by (simp add: drain_def no_writes_def)

lemma build_seq:
  "build_loop_checkpoint c rt th b w = (ck, w') \<Longrightarrow>
    w' = w\<lparr>w_seq := w_seq w + 1\<rparr> \<and> build_loop_checkpoint c rt th b (flush_queue cp cks w) = (ck, flush_queue cp cks w')"
  by (auto simp: build_loop_checkpoint_def new_checkpoint_id_def next_seq_def)

text \<open>The state of a run with background writes, and of the run that writes inline.\<close>

definition caught_up ::
  "('st, 's) checkpointer \<Rightarrow> ('s, 'u) compiled_graph \<Rightarrow> 's loop_state \<Rightarrow> bool" where
  "caught_up cp c ls \<longleftrightarrow> clean (ls_async ls)
     \<and> (cg_durability c \<noteq> DAsync \<or> ls_active ls = [] \<longrightarrow> aw_queue (ls_async ls) = [])"

context reliable_put
begin

lemma nonblocking_sim:
  assumes "rt_tokio rt" "clean aw"
    "persist_checkpoint_nonblocking cp c rt thread b aw w = (r, aw', w')"
  shows "persist_checkpoint_nonblocking cp c (inline rt) thread b no_writes (flush_queue cp (aw_queue aw) w)
      = (r, no_writes, flush_queue cp (aw_queue aw') w') \<and> clean aw'"
proof (cases "thread = None \<or> \<not> cg_checkpointer c")
  case True
  with assms show ?thesis by (auto simp: persist_checkpoint_nonblocking_def split: option.splits)
next
  case False
  then obtain th where th: "thread = Some th" "cg_checkpointer c" by auto
  obtain ck w1 where b: "build_loop_checkpoint c rt th b w = (ck, w1)" by fastforce
  have res: "r = Inr (Some (ck_id ck))" "aw' = spawn_ordered ck aw" "w' = w1"
    using assms(1,3) th b by (auto simp: persist_checkpoint_nonblocking_def)
  have "cp_put cp ck (w_store (flush_queue cp (aw_queue aw) w1)) =
      (Inr (ck_id ck), w_store (flush_queue cp (aw_queue aw') w1))"
    using put_eq [of ck "w_store (flush_queue cp (aw_queue aw) w1)"] res(2) by (simp add: spawn_ordered_def)
  moreover have "flush_queue cp (aw_queue aw') w1 =
      (flush_queue cp (aw_queue aw) w1)\<lparr>w_store := w_store (flush_queue cp (aw_queue aw') w1)\<rparr>"
    using res(2) by (simp add: spawn_ordered_def)
  moreover have "clean aw'" using assms(2) res(2) by (simp add: clean_def spawn_ordered_def)
  ultimately show ?thesis
    using th res build_seq [OF b, of cp "aw_queue aw", THEN conjunct2]
    by (simp add: persist_checkpoint_nonblocking_def)
qed

lemma persist_boundary_sim:
  assumes "rt_tokio rt" "clean aw" "cg_durability c \<noteq> DAsync \<longrightarrow> aw_queue aw = []"
    "persist_boundary cp c rt rc b aw w = (r, aw', w')"
  shows "persist_boundary cp c (inline rt) rc b no_writes (flush_queue cp (aw_queue aw) w)
      = (r, no_writes, flush_queue cp (aw_queue aw') w')
    \<and> clean aw' \<and> (cg_durability c \<noteq> DAsync \<or> bd_pending b = [] \<longrightarrow> aw_queue aw' = [])"
proof (cases "bd_pending b = []")
  case True
  with assms(4) have "persist_checkpoint cp c rt (rc_thread rc) b (flush_queue cp (aw_queue aw) w) = (r, w')"
    "aw' = (if aw_held aw then no_writes else aw)"
    by (auto simp: persist_boundary_def drain_flush [OF assms(2)] Let_def split: prod.splits)
  with True drained_queue [OF assms(2)] drained_clean [OF assms(2)] show ?thesis
    by (simp add: persist_boundary_def)
next
  case False
  show ?thesis
  proof (cases "cg_durability c = DAsync")
    case True
    with False assms(4) have "persist_checkpoint_nonblocking cp c rt (rc_thread rc) b aw w = (r, aw', w')"
      by (simp add: persist_boundary_def)
    from nonblocking_sim [OF assms(1,2) this] True False show ?thesis by (simp add: persist_boundary_def)
  next
    case sync: False
    then have "aw_queue aw = []" using assms(3) by simp
    with sync False assms(2,4) show ?thesis
      by (auto simp: persist_boundary_def split: if_splits prod.splits)
  qed
qed

lemma finish_step_sim:
  assumes "rt_tokio rt" "clean (ls_async ls)" "cg_durability c \<noteq> DAsync \<longrightarrow> aw_queue (ls_async ls) = []"
    "finish_step cp c rt rc ls sr w = (out, w')"
  shows "case out of
     Finished r \<Rightarrow> finish_step cp c (inline rt) rc (ls\<lparr>ls_async := no_writes\<rparr>) sr
        (flush_queue cp (aw_queue (ls_async ls)) w) = (Finished r, w')
   | Continue ls' \<Rightarrow> finish_step cp c (inline rt) rc (ls\<lparr>ls_async := no_writes\<rparr>) sr
        (flush_queue cp (aw_queue (ls_async ls)) w)
          = (Continue (ls'\<lparr>ls_async := no_writes\<rparr>), flush_queue cp (aw_queue (ls_async ls')) w')
       \<and> caught_up cp c ls'"
proof -
  obtain rr arr where route: "route_completed c (ls_active ls) (sr_gotos sr) (ls_state ls) (ls_barriers ls) = (rr, arr)"
    by fastforce
  show ?thesis
  proof (cases rr)
    case (Inl e)
    with assms(4) route show ?thesis
      by (auto simp: finish_step_def fail_flush [OF assms(2)] fail_flush)
  next
    case (Inr nxt)
    obtain aw1 w1 where land: "land cp (rt_landed rt (ls_steps ls)) (ls_async ls) w = (aw1, w1)" by fastforce
    note l = land_flush [OF assms(2) land]
    obtain e aw2 where take: "take_failure aw1 = (e, aw2)" by fastforce
    note t = take_failure_clean [OF conjunct1 [OF l] take]
    let ?b = "boundary_of rc ls nxt (ls_active ls) arr"
    obtain r aw3 w2 where p: "persist_boundary cp c rt rc ?b aw2 w1 = (r, aw3, w2)" by (metis prod_cases3)
    have q: "cg_durability c \<noteq> DAsync \<longrightarrow> aw_queue aw2 = []"
      using assms(3) land t(3) by (auto simp: land_empty)
    note sim = persist_boundary_sim [OF assms(1) t(2) q p]
    have flush: "flush_queue cp (aw_queue (ls_async ls)) w = flush_queue cp (aw_queue aw2) w1"
      using l t(3) by simp
    have b: "boundary_of rc (ls\<lparr>ls_async := no_writes\<rparr>) nxt (ls_active ls) arr = ?b"
      by (simp add: boundary_of_def)
    show ?thesis
    proof (cases r)
      case (Inl err)
      with assms(4) route Inr land take t(1) p have "out = Finished (Inl err)" "w' = flush_queue cp (aw_queue aw3) w2"
        using sim by (auto simp: finish_step_def fail_flush)
      with Inl route Inr sim flush show ?thesis
        by (simp add: finish_step_def b fail_flush)
    next
      case (Inr cid)
      let ?ls' = "ls\<lparr>ls_active := nxt, ls_barriers := arr, ls_async := aw3,
         ls_parent := (if cid = None then ls_parent ls else cid),
         ls_last := (if cid = None then ls_last ls else cid)\<rparr>"
      have "out = Continue ?ls'" "w' = w2"
        using assms(4) route \<open>rr = Inr nxt\<close> land take t(1) p Inr by (auto simp: finish_step_def)
      moreover have "caught_up cp c ?ls'"
        using sim by (simp add: caught_up_def boundary_of_def)
      ultimately show ?thesis
        using route \<open>rr = Inr nxt\<close> sim flush Inr by (simp add: finish_step_def b)
    qed
  qed
qed

lemma finish_failure_sim:
  assumes "clean (ls_async ls)"
  shows "finish_failure cp c (inline rt) rc (ls\<lparr>ls_async := no_writes\<rparr>) sr i e
      (flush_queue cp (aw_queue (ls_async ls)) w) = finish_failure cp c rt rc ls sr i e w"
  by (simp add: finish_failure_def boundary_of_def drain_flush [OF assms] fail_flush [OF assms] fail_flush
      split: prod.split sum.split)

lemma finish_interrupt_sim:
  assumes "clean (ls_async ls)"
  shows "finish_interrupt cp c (inline rt) rc (ls\<lparr>ls_async := no_writes\<rparr>) sr
      (flush_queue cp (aw_queue (ls_async ls)) w) = finish_interrupt cp c rt rc ls sr w"
  using drained_clean [OF assms] drained_queue [OF assms] unheld [OF assms]
  by (simp add: finish_interrupt_def boundary_of_def drain_flush [OF assms] fail_flush [OF assms] fail_flush Let_def
      split: prod.split sum.split)

lemma close_step_sim:
  assumes "rt_tokio rt" "clean (ls_async ls)" "cg_durability c \<noteq> DAsync \<longrightarrow> aw_queue (ls_async ls) = []"
    "close_step cp c rt rc ls sr w = (out, w')"
  shows "case out of
     Finished r \<Rightarrow> close_step cp c (inline rt) rc (ls\<lparr>ls_async := no_writes\<rparr>) sr
        (flush_queue cp (aw_queue (ls_async ls)) w) = (Finished r, w')
   | Continue ls' \<Rightarrow> close_step cp c (inline rt) rc (ls\<lparr>ls_async := no_writes\<rparr>) sr
        (flush_queue cp (aw_queue (ls_async ls)) w)
          = (Continue (ls'\<lparr>ls_async := no_writes\<rparr>), flush_queue cp (aw_queue (ls_async ls')) w')
       \<and> caught_up cp c ls'"
proof (cases "sr_failure sr = None \<and> sr_interrupts sr = []")
  case True
  with assms(4) have "finish_step cp c rt rc ls sr w = (out, w')" by (simp add: close_step_def)
  from finish_step_sim [OF assms(1-3) this] True show ?thesis
    by (simp add: close_step_def split: step_outcome.splits)
next
  case False
  then have "close_step cp c (inline rt) rc (ls\<lparr>ls_async := no_writes\<rparr>) sr
      (flush_queue cp (aw_queue (ls_async ls)) w) = close_step cp c rt rc ls sr w"
    using finish_failure_sim [OF assms(2)] finish_interrupt_sim [OF assms(2)]
    by (auto simp: close_step_def split: option.split)
  moreover have "\<exists>r. out = Finished r"
    using close_step_Continue(1,2) [of cp c rt rc ls sr w _ w'] assms(4) False
    by (cases out) auto
  ultimately show ?thesis using assms(4) by auto
qed

lemma advance_sim:
  "advance c (inline rt) rc (ls\<lparr>ls_async := aw\<rparr>) =
    (case advance c rt rc ls of Inl e \<Rightarrow> Inl e | Inr (ls', sr) \<Rightarrow> Inr (ls'\<lparr>ls_async := aw\<rparr>, sr))"
proof -
  have "admit_step c rt rc (ls\<lparr>ls_async := aw\<rparr>) = admit_step c rt rc ls"
    by (simp add: admit_step_def cong: option.case_cong)
  then show ?thesis
    by (simp add: advance_def Let_def split: sum.split prod.split)
qed

lemma step_once_sim:
  assumes "rt_tokio rt" "caught_up cp c ls" "step_once cp c rt rc ls w = (out, w')"
  shows "case out of
     Finished r \<Rightarrow> step_once cp c (inline rt) rc (ls\<lparr>ls_async := no_writes\<rparr>)
        (flush_queue cp (aw_queue (ls_async ls)) w) = (Finished r, w')
   | Continue ls' \<Rightarrow> step_once cp c (inline rt) rc (ls\<lparr>ls_async := no_writes\<rparr>)
        (flush_queue cp (aw_queue (ls_async ls)) w)
          = (Continue (ls'\<lparr>ls_async := no_writes\<rparr>), flush_queue cp (aw_queue (ls_async ls')) w')
       \<and> caught_up cp c ls'"
proof -
  have cl: "clean (ls_async ls)" "cg_durability c \<noteq> DAsync \<longrightarrow> aw_queue (ls_async ls) = []"
    using assms(2) by (auto simp: caught_up_def)
  show ?thesis
  proof (cases "advance c rt rc ls")
    case (Inl e)
    with assms(3) show ?thesis
      by (auto simp: step_once_def advance_sim fail_flush [OF cl(1)] fail_flush)
  next
    case (Inr p)
    then obtain ls1 sr where adv: "advance c rt rc ls = Inr (ls1, sr)" by (cases p) auto
    note async = advance_Inr(5) [OF adv]
    have "close_step cp c rt rc ls1 sr w = (out, w')" using assms(3) adv by (simp add: step_once_def)
    from close_step_sim [OF assms(1) _ _ this] cl async show ?thesis
      by (simp add: step_once_def advance_sim adv split: step_outcome.splits)
  qed
qed

lemma run_loop_sim:
  assumes "run_loop cp c rt rc ls w = (r, w')" "rt_tokio rt" "caught_up cp c ls"
  shows "run_loop cp c (inline rt) rc (ls\<lparr>ls_async := no_writes\<rparr>)
    (flush_queue cp (aw_queue (ls_async ls)) w) = (r, w')"
  using assms(1,3)
proof (induction rule: run_loop_induct)
  case (stop ls w)
  then show ?case by (simp add: run_loop.simps caught_up_def finish_completed_def)
next
  case (finish ls w r w')
  with step_once_sim [OF assms(2) finish(3,2)] show ?case by (simp add: run_loop.simps)
next
  case (cont ls w ls1 w1 r w')
  with step_once_sim [OF assms(2) cont(5,2)] show ?case
    by (simp add: run_loop.simps [of cp c "inline rt" rc "ls\<lparr>ls_async := no_writes\<rparr>"])
qed

end

interpretation mem_put: reliable_put in_memory
  by unfold_locales (simp add: in_memory_def mem_put_def)

lemma execute_inline:
  "execute in_memory c rt s active thread rm barriers parent w =
    execute in_memory c (inline rt) s active thread rm barriers parent w"
proof (cases "rt_tokio rt")
  case True
  have "run_loop in_memory c rt rc ls w = run_loop in_memory c (inline rt) rc ls w"
    if "ls_async ls = no_writes" for rc ls w
  proof -
    obtain r w' where run: "run_loop in_memory c rt rc ls w = (r, w')" by fastforce
    have "ls\<lparr>ls_async := no_writes\<rparr> = ls" using that by simp
    with mem_put.run_loop_sim [OF run True] run that show ?thesis by (simp add: caught_up_def)
  qed
  then show ?thesis
    by (simp add: execute_def execute_run_def new_run_id_def Let_def split: prod.split sum.split)
next
  case False
  then have "inline rt = rt" by (cases rt) (simp add: inline_def)
  then show ?thesis by simp
qed


section \<open>The lineage a run leaves\<close>

fun chained :: "string option \<Rightarrow> 's checkpoint list \<Rightarrow> bool" where
  "chained p [] \<longleftrightarrow> True"
| "chained p (ck # cks) \<longleftrightarrow> ck_parent ck = p \<and> chained (Some (ck_id ck)) cks"

definition appended :: "string \<Rightarrow> 's mem_store world \<Rightarrow> 's mem_store world \<Rightarrow> 's checkpoint list \<Rightarrow> bool" where
  "appended th w w' cks \<longleftrightarrow>
    (\<forall>t. mem_records (w_store w') t = mem_records (w_store w) t @ (if t = th then cks else []))"

lemma appended_refl [simp]: "appended th w w []"
  by (simp add: appended_def)

lemma appended_trans: "appended th w1 w2 xs \<Longrightarrow> appended th w2 w3 ys \<Longrightarrow> appended th w1 w3 (xs @ ys)"
  by (simp add: appended_def)

lemma appended_seq [simp]: "appended th (w\<lparr>w_seq := n\<rparr>) w' cks \<longleftrightarrow> appended th w w' cks"
  by (simp add: appended_def)

lemma mem_put_records [simp]:
  "mem_records (snd (mem_put ck st)) t = mem_records st t @ (if t = ck_thread_id ck then [ck] else [])"
  by (simp add: mem_put_def mem_records_def)

lemma mem_put_writes_records [simp]: "mem_records (snd (mem_put_writes conf ws st)) t = mem_records st t"
  by (simp add: mem_put_writes_def mem_records_def Let_def split: sum.split)

lemma ledger_mem:
  "\<exists>w'. put_with_ledger in_memory ck w = (Inr (Some (ck_id ck)), w') \<and> appended (ck_thread_id ck) w w' [ck]"
proof -
  obtain st where st: "mem_put ck (w_store w) = (Inr (ck_id ck), st)" by (simp add: mem_put_def)
  have "fst (mem_put_writes (config_of ck) (ck_pending_writes ck) st) = Inr ()"
    by (simp add: mem_put_writes_def require_checkpoint_id_def config_of_def Let_def)
  then obtain st' where st': "mem_put_writes (config_of ck) (ck_pending_writes ck) st = (Inr (), st')"
    by (metis prod.collapse)
  have "mem_records st' t = mem_records (w_store w) t @ (if t = ck_thread_id ck then [ck] else [])" for t
    using mem_put_records [of ck "w_store w" t] mem_put_writes_records [of "config_of ck" "ck_pending_writes ck" st t]
      st st' by simp
  with st st' show ?thesis by (auto simp: put_with_ledger_def in_memory_def appended_def)
qed

definition wrote ::
  "('s, 'u) compiled_graph \<Rightarrow> string \<Rightarrow> 's boundary \<Rightarrow> 's mem_store world \<Rightarrow> 's mem_store world \<Rightarrow> 's checkpoint \<Rightarrow> bool" where
  "wrote c th b w w' ck \<longleftrightarrow> appended th w w' [ck] \<and> ck_parent ck = bd_parent b
     \<and> ck_run_id ck = Some (bd_run_id b) \<and> ck_namespace ck = cg_namespace c"

lemma persist_mem:
  assumes "cg_checkpointer c"
  shows "\<exists>ck w'. persist_checkpoint in_memory c rt (Some th) b w = (Inr (Some (ck_id ck)), w') \<and> wrote c th b w w' ck"
proof -
  obtain ck w1 where b: "build_loop_checkpoint c rt th b w = (ck, w1)" by fastforce
  obtain w' where "put_with_ledger in_memory ck w1 = (Inr (Some (ck_id ck)), w')" "appended (ck_thread_id ck) w1 w' [ck]"
    using ledger_mem by blast
  with b assms show ?thesis
    by (auto simp: persist_checkpoint_def wrote_def build_loop_checkpoint_def new_checkpoint_id_def next_seq_def)
qed

lemma nonblocking_mem:
  assumes "cg_checkpointer c"
  shows "\<exists>ck w'. persist_checkpoint_nonblocking in_memory c (inline rt) (Some th) b aw w
    = (Inr (Some (ck_id ck)), aw, w') \<and> wrote c th b w w' ck"
proof -
  obtain ck w1 where b: "build_loop_checkpoint c rt th b w = (ck, w1)" by fastforce
  obtain st where st: "mem_put ck (w_store w1) = (Inr (ck_id ck), st)" by (simp add: mem_put_def)
  have "mem_records st t = mem_records (w_store w1) t @ (if t = ck_thread_id ck then [ck] else [])" for t
    using mem_put_records [of ck "w_store w1" t] st by simp
  with b st assms show ?thesis
    by (auto simp: persist_checkpoint_nonblocking_def wrote_def in_memory_def build_loop_checkpoint_def
        new_checkpoint_id_def next_seq_def appended_def)
qed

lemma wrote_seq [simp]: "wrote c th b (w\<lparr>w_seq := n\<rparr>) w' ck \<longleftrightarrow> wrote c th b w w' ck"
  by (simp add: wrote_def)

lemma ledger_wrote:
  assumes "ck_thread_id ck = th" "ck_parent ck = bd_parent b" "ck_run_id ck = Some (bd_run_id b)"
    "ck_namespace ck = cg_namespace c"
  shows "wrote c th b w (snd (put_with_ledger in_memory ck w)) ck"
  using ledger_mem [of ck w] assms by (auto simp: wrote_def)

lemma persist_failure_mem:
  assumes "cg_checkpointer c"
  shows "\<exists>ck. wrote c th b w (snd (persist_failure_checkpoint in_memory c rt (Some th) b n e w)) ck"
proof -
  obtain i w1 where i: "new_checkpoint_id rt w = (i, w1)" by fastforce
  then have w1: "w1 = w\<lparr>w_seq := w_seq w + 1\<rparr>" by (auto simp: new_checkpoint_id_def next_seq_def)
  show ?thesis
    unfolding persist_failure_checkpoint_def Let_def i option.case prod.case if_P [OF assms]
    unfolding w1 by (rule exI, rule ledger_wrote [THEN wrote_seq [THEN iffD1]]) simp_all
qed

definition same_chain :: "('s, 'u) compiled_graph \<Rightarrow> run_context \<Rightarrow> 's checkpoint list \<Rightarrow> bool" where
  "same_chain c rc cks \<longleftrightarrow>
    (\<forall>ck \<in> set cks. ck_run_id ck = Some (rc_run_id rc) \<and> ck_namespace ck = cg_namespace c)"

text \<open>What the rest of a run adds to the thread's log.\<close>

definition extends_log ::
  "('s, 'u) compiled_graph \<Rightarrow> run_context \<Rightarrow> string \<Rightarrow> 's loop_state \<Rightarrow> 's mem_store world \<Rightarrow>
    's mem_store world \<Rightarrow> 's checkpoint list \<Rightarrow> bool" where
  "extends_log c rc th ls w w' cks \<longleftrightarrow>
    appended th w w' cks \<and> chained (ls_parent ls) cks \<and> same_chain c rc cks"

lemma extends_one:
  "wrote c th b w w' ck \<Longrightarrow> bd_parent b = ls_parent ls \<Longrightarrow> bd_run_id b = rc_run_id rc \<Longrightarrow>
    extends_log c rc th ls w w' [ck]"
  by (simp add: wrote_def extends_log_def same_chain_def)

lemma fail_no_writes [simp]: "fail_and_return cp no_writes e w = (Finished (Inl e), w)"
  by (simp add: fail_and_return_def)

lemma persist_boundary_mem:
  assumes "cg_checkpointer c" "rc_thread rc = Some th" "bd_parent b = ls_parent ls" "bd_run_id b = rc_run_id rc"
  shows "(cg_durability c = DExit \<and> bd_pending b \<noteq> [] \<and>
      persist_boundary in_memory c (inline rt) rc b no_writes w = (Inr None, no_writes, w))
    \<or> (\<exists>ck w'. persist_boundary in_memory c (inline rt) rc b no_writes w = (Inr (Some (ck_id ck)), no_writes, w')
        \<and> extends_log c rc th ls w w' [ck])"
proof (cases "cg_durability c = DExit \<and> bd_pending b \<noteq> []")
  case True
  then show ?thesis by (simp add: persist_boundary_def)
next
  case False
  show ?thesis
  proof (cases "cg_durability c = DAsync \<and> bd_pending b \<noteq> []")
    case True
    obtain ck w' where "persist_checkpoint_nonblocking in_memory c (inline rt) (Some th) b no_writes w
        = (Inr (Some (ck_id ck)), no_writes, w')" "wrote c th b w w' ck"
      using nonblocking_mem [OF assms(1), of rt th b no_writes w] by blast
    with True assms(2) extends_one [OF _ assms(3,4)] show ?thesis
      by (intro disjI2 exI [of _ ck] exI [of _ w']) (simp add: persist_boundary_def)
  next
    case sync: False
    obtain ck w' where "persist_checkpoint in_memory c rt (Some th) b w = (Inr (Some (ck_id ck)), w')"
      "wrote c th b w w' ck"
      using persist_mem [OF assms(1), of rt th b w] by blast
    with sync False assms(2) extends_one [OF _ assms(3,4)] show ?thesis
      by (intro disjI2 exI [of _ ck] exI [of _ w']) (auto simp: persist_boundary_def)
  qed
qed

lemma finish_step_mem:
  assumes "cg_checkpointer c" "rc_thread rc = Some th" "ls_async ls = no_writes"
    "finish_step in_memory c (inline rt) rc ls sr w = (out, w')"
  shows "\<exists>cks. extends_log c rc th ls w w' cks \<and> (case out of
      Finished r \<Rightarrow> (\<exists>e. r = Inl e)
    | Continue ls' \<Rightarrow> ls_async ls' = no_writes
        \<and> ls_parent ls' = (if cks = [] then ls_parent ls else Some (ck_id (last cks)))
        \<and> ls_last ls' = (if cks = [] then ls_last ls else Some (ck_id (last cks))))"
proof -
  obtain rr arr where route: "route_completed c (ls_active ls) (sr_gotos sr) (ls_state ls) (ls_barriers ls) = (rr, arr)"
    by fastforce
  have nil: "extends_log c rc th ls w w []" by (simp add: extends_log_def same_chain_def)
  show ?thesis
  proof (cases rr)
    case (Inl e)
    then have "out = Finished (Inl e)" "w' = w"
      using assms(3,4) route by (simp_all add: finish_step_def)
    with nil show ?thesis by (intro exI [of _ "[]"]) simp
  next
    case (Inr nxt)
    let ?b = "boundary_of rc ls nxt (ls_active ls) arr"
    have b: "bd_parent ?b = ls_parent ls" "bd_run_id ?b = rc_run_id rc" by (simp_all add: boundary_of_def)
    from persist_boundary_mem [OF assms(1,2) b, of rt w] show ?thesis
    proof (elim disjE exE conjE)
      assume "persist_boundary in_memory c (inline rt) rc ?b no_writes w = (Inr None, no_writes, w)"
      then have "out = Continue (ls\<lparr>ls_active := nxt, ls_barriers := arr, ls_async := no_writes\<rparr>)" "w' = w"
        using assms(3,4) route Inr by (auto simp add: finish_step_def)
      with nil assms(3) show ?thesis by (intro exI [of _ "[]"]) simp
    next
      fix ck w1
      assume "persist_boundary in_memory c (inline rt) rc ?b no_writes w = (Inr (Some (ck_id ck)), no_writes, w1)"
        and e: "extends_log c rc th ls w w1 [ck]"
      then have "out = Continue (ls\<lparr>ls_active := nxt, ls_barriers := arr, ls_async := no_writes,
          ls_parent := Some (ck_id ck), ls_last := Some (ck_id ck)\<rparr>)" "w' = w1"
        using assms(3,4) route Inr by (simp_all add: finish_step_def)
      with e show ?thesis by (intro exI [of _ "[ck]"]) simp
    qed
  qed
qed

lemma extends_fail:
  "extends_log c rc th ls w w []"
  by (simp add: extends_log_def same_chain_def)

lemma finish_failure_mem:
  assumes "cg_checkpointer c" "rc_thread rc = Some th" "ls_async ls = no_writes"
    "finish_failure in_memory c rt rc ls sr i e w = (out, w')"
  shows "\<exists>cks. extends_log c rc th ls w w' cks \<and> (\<exists>err. out = Finished (Inl err))"
proof -
  obtain acts gotos where part: "partition_completed (ls_active ls) (sr_gotos sr) (sr_completed sr) = (acts, gotos)"
    by fastforce
  obtain rr arr where route: "route_completed c acts gotos (ls_state ls) (ls_barriers ls) = (rr, arr)"
    by fastforce
  show ?thesis
  proof (cases rr)
    case (Inl e)
    then have "out = Finished (Inl e)" "w' = w"
      using assms(3,4) part route by (simp_all add: finish_failure_def)
    with extends_fail show ?thesis by blast
  next
    case (Inr succs)
    let ?b = "boundary_of rc ls (succs @ others (ls_active ls) (sr_completed sr)) acts arr"
    have "\<exists>ck. wrote c th ?b w w' ck"
      using assms(2-4) part route Inr
        persist_failure_mem [OF assms(1), of th ?b w rt "act_node (ls_active ls ! i)" e]
      by (auto simp: finish_failure_def)
    moreover have "\<exists>err. out = Finished (Inl err)"
      using assms(3,4) part route Inr by (auto simp: finish_failure_def)
    ultimately show ?thesis using extends_one [of c th ?b w w' _ ls rc] by (auto simp: boundary_of_def)
  qed
qed

lemma finish_interrupt_mem:
  assumes "cg_checkpointer c" "rc_thread rc = Some th" "ls_async ls = no_writes"
    "finish_interrupt in_memory c rt rc ls sr w = (out, w')"
  shows "\<exists>cks r. extends_log c rc th ls w w' cks \<and> out = Finished r
    \<and> (\<forall>ge. r = Inr ge \<longrightarrow> cks \<noteq> [] \<and> ge_checkpoint_id ge = Some (ck_id (last cks)))"
proof -
  obtain acts gotos where part: "partition_completed (ls_active ls) (sr_gotos sr) (sr_completed sr) = (acts, gotos)"
    by fastforce
  obtain rr arr where route: "route_completed c acts gotos (ls_state ls) (ls_barriers ls) = (rr, arr)"
    by fastforce
  have dur: "require_interrupt_durability c (Some th) = Inr ()"
    using assms(1) by (simp add: require_interrupt_durability_def)
  show ?thesis
  proof (cases rr)
    case (Inl e)
    with assms part route dur extends_fail [of c rc th ls w] show ?thesis
      by (intro exI [of _ "[]"] exI [of _ "Inl e"]) (auto simp: finish_interrupt_def)
  next
    case (Inr succs)
    let ?b = "(boundary_of rc ls (succs @ rescheduled (ls_active ls) sr) acts arr)\<lparr>bd_interrupts := map snd (sr_interrupts sr),
       bd_interrupted := map (\<lambda>(i, _). act_node (ls_active ls ! i)) (sr_interrupts sr)\<rparr>"
    obtain ck w1 where p: "persist_checkpoint in_memory c rt (Some th) ?b w = (Inr (Some (ck_id ck)), w1)"
      "wrote c th ?b w w1 ck"
      using persist_mem [OF assms(1), of rt th ?b w] by blast
    with assms part route dur Inr have "w' = w1"
      "\<exists>ge. out = Finished (Inr ge) \<and> ge_checkpoint_id ge = Some (ck_id ck)"
      by (auto simp: finish_interrupt_def)
    with extends_one [OF p(2), of ls rc] show ?thesis by (fastforce simp: boundary_of_def)
  qed
qed

lemma close_step_mem:
  assumes "cg_checkpointer c" "rc_thread rc = Some th" "ls_async ls = no_writes"
    "close_step in_memory c (inline rt) rc ls sr w = (out, w')"
  shows "\<exists>cks. extends_log c rc th ls w w' cks \<and> (case out of
      Finished r \<Rightarrow> (\<forall>ge. r = Inr ge \<longrightarrow> cks \<noteq> [] \<and> ge_checkpoint_id ge = Some (ck_id (last cks)))
    | Continue ls' \<Rightarrow> ls_async ls' = no_writes
        \<and> ls_parent ls' = (if cks = [] then ls_parent ls else Some (ck_id (last cks)))
        \<and> ls_last ls' = (if cks = [] then ls_last ls else Some (ck_id (last cks))))"
proof (cases "sr_failure sr")
  case (Some ie)
  obtain i e where "ie = (i, e)" by fastforce
  with Some assms(4) have "finish_failure in_memory c (inline rt) rc ls sr i e w = (out, w')"
    by (simp add: close_step_def)
  from finish_failure_mem [OF assms(1-3) this] show ?thesis by (elim exE conjE) (rule exI, rule conjI, assumption, simp)
next
  case None
  show ?thesis
  proof (cases "sr_interrupts sr = []")
    case True
    with None assms(4) have "finish_step in_memory c (inline rt) rc ls sr w = (out, w')" by (simp add: close_step_def)
    from finish_step_mem [OF assms(1-3) this] obtain cks where
      cks: "extends_log c rc th ls w w' cks" "case out of Finished r \<Rightarrow> (\<exists>e. r = Inl e)
        | Continue ls' \<Rightarrow> ls_async ls' = no_writes
          \<and> ls_parent ls' = (if cks = [] then ls_parent ls else Some (ck_id (last cks)))
          \<and> ls_last ls' = (if cks = [] then ls_last ls else Some (ck_id (last cks)))" by blast
    then show ?thesis by (intro exI [of _ cks]) (cases out; auto)
  next
    case False
    with None assms(4) have "finish_interrupt in_memory c (inline rt) rc ls sr w = (out, w')" by (simp add: close_step_def)
    from finish_interrupt_mem [OF assms(1-3) this] show ?thesis by (elim exE conjE) (rule exI, rule conjI, assumption, simp)
  qed
qed

lemma extends_trans:
  assumes "extends_log c rc th ls w w1 xs" "extends_log c rc th ls1 w1 w2 ys"
    "ls_parent ls1 = (if xs = [] then ls_parent ls else Some (ck_id (last xs)))"
  shows "extends_log c rc th ls w w2 (xs @ ys)"
proof -
  have "chained p xs \<Longrightarrow> chained (if xs = [] then p else Some (ck_id (last xs))) ys \<Longrightarrow> chained p (xs @ ys)" for p
    by (induction xs arbitrary: p) (auto split: if_splits)
  with assms show ?thesis by (auto simp: extends_log_def same_chain_def intro: appended_trans)
qed

lemma extends_log_parent: "ls_parent ls = ls_parent ls' \<Longrightarrow> extends_log c rc th ls = extends_log c rc th ls'"
  by (simp add: extends_log_def fun_eq_iff)

lemma step_once_mem:
  assumes "cg_checkpointer c" "rc_thread rc = Some th" "ls_async ls = no_writes"
    "step_once in_memory c (inline rt) rc ls w = (out, w')"
  shows "\<exists>cks. extends_log c rc th ls w w' cks \<and> (case out of
      Finished r \<Rightarrow> (\<forall>ge. r = Inr ge \<longrightarrow> cks \<noteq> [] \<and> ge_checkpoint_id ge = Some (ck_id (last cks)))
    | Continue ls' \<Rightarrow> ls_async ls' = no_writes
        \<and> ls_parent ls' = (if cks = [] then ls_parent ls else Some (ck_id (last cks)))
        \<and> ls_last ls' = (if cks = [] then ls_last ls else Some (ck_id (last cks))))"
proof (cases "advance c (inline rt) rc ls")
  case (Inl e)
  then have "out = Finished (Inl e)" "w' = w" using assms(3,4) by (simp_all add: step_once_def)
  with extends_fail show ?thesis by (intro exI [of _ "[]"]) simp
next
  case (Inr p)
  then obtain ls1 sr where adv: "advance c (inline rt) rc ls = Inr (ls1, sr)" by (cases p) auto
  note same = advance_Inr(5-7) [OF adv]
  have close: "close_step in_memory c (inline rt) rc ls1 sr w = (out, w')"
    using assms(4) adv by (simp add: step_once_def)
  have "ls_async ls1 = no_writes" using assms(3) same(1) by simp
  from close_step_mem [OF assms(1,2) this close] show ?thesis
    unfolding same extends_log_parent [OF same(2)] .
qed

lemma run_loop_lineage:
  assumes "run_loop in_memory c (inline rt) rc ls w = (r, w')" "cg_checkpointer c" "rc_thread rc = Some th"
    "ls_async ls = no_writes"
  shows "\<exists>cks. extends_log c rc th ls w w' cks
    \<and> (\<forall>ge. r = Inr ge \<longrightarrow> ge_checkpoint_id ge = (if cks = [] then ls_last ls else Some (ck_id (last cks))))"
  using assms(1,4)
proof (induction rule: run_loop_induct)
  case (stop ls w)
  show ?case using extends_fail by (intro exI [of _ "[]"]) (simp add: finish_completed_def)
next
  case (finish ls w r w')
  from step_once_mem [OF assms(2,3) finish(3,2)] show ?case by (elim exE conjE) (rule exI, rule conjI, assumption, auto)
next
  case (cont ls w ls1 w1 r w')
  from step_once_mem [OF assms(2,3) cont(5,2)] obtain xs where
    xs: "extends_log c rc th ls w w1 xs" "ls_async ls1 = no_writes"
      "ls_parent ls1 = (if xs = [] then ls_parent ls else Some (ck_id (last xs)))"
      "ls_last ls1 = (if xs = [] then ls_last ls else Some (ck_id (last xs)))" by auto
  from cont.IH [OF xs(2)] obtain ys where
    ys: "extends_log c rc th ls1 w1 w' ys"
      "\<forall>ge. r = Inr ge \<longrightarrow> ge_checkpoint_id ge = (if ys = [] then ls_last ls1 else Some (ck_id (last ys)))" by blast
  show ?case
    using extends_trans [OF xs(1) ys(1) xs(3)] ys(2) xs(4) by (intro exI [of _ "xs @ ys"]) auto
qed

text \<open>C15 (run_lineage): whatever its outcome and durability mode, a checkpointed run only appends
  to its own thread: the records it adds carry its run id and namespace and form one chain,
  the first hanging off the checkpoint the run was started from and each next one off its
  predecessor, and a returned execution names the last of them.\<close>

theorem run_lineage:
  assumes "cg_checkpointer c"
    "execute in_memory c rt s active (Some th) rm barriers parent w = (r, w')"
  shows "\<exists>cks. (\<forall>t. mem_records (w_store w') t = mem_records (w_store w) t @ (if t = th then cks else []))
    \<and> chained parent cks
    \<and> (\<forall>ck \<in> set cks. ck_run_id ck = Some (fst (new_run_id rt w)) \<and> ck_namespace ck = cg_namespace c)
    \<and> (\<forall>ge. r = Inr ge \<longrightarrow> ge_checkpoint_id ge = map_option ck_id (last_opt cks))"
proof -
  obtain run_id w1 where id: "new_run_id rt w = (run_id, w1)" by fastforce
  then have recs: "w_store w1 = w_store w" and id': "new_run_id (inline rt) w = (run_id, w1)"
    by (auto simp: new_run_id_def next_seq_def)
  have exec: "execute_run in_memory c (inline rt) run_id s active (Some th) rm barriers parent w1 = (r, w')"
    using assms(2) unfolding execute_inline [of c rt] by (simp add: execute_def id')
  show ?thesis
  proof (cases "\<exists>e. execute_run in_memory c (inline rt) run_id s active (Some th) rm barriers parent w1 = (Inl e, w1)")
    case True
    with exec recs show ?thesis by (intro exI [of _ "[]"]) auto
  next
    case False
    with exec obtain rc ls where run: "run_loop in_memory c (inline rt) rc ls w1 = (r, w')"
      "rc_thread rc = Some th" "rc_run_id rc = run_id" "ls_async ls = no_writes" "ls_parent ls = parent" "ls_last ls = None"
      by (auto simp: execute_run_def Let_def split: sum.splits)
    from run_loop_lineage [OF run(1) assms(1) run(2,4)] obtain cks where
      cks: "extends_log c rc th ls w1 w' cks"
        "\<forall>ge. r = Inr ge \<longrightarrow> ge_checkpoint_id ge = (if cks = [] then ls_last ls else Some (ck_id (last cks)))" by blast
    then show ?thesis
      using id recs run(3,5,6)
      by (intro exI [of _ cks]) (auto simp: extends_log_def appended_def same_chain_def last_opt_def)
  qed
qed

section \<open>A run of two nodes\<close>

definition demo :: "(json, json) compiled_graph" where
  "demo = with_checkpointer (from_parts sample_builder ''a'' overwrite_reduce)"

definition demo_rt :: runtime where
  "demo_rt = \<lparr>rt_nonce = 7, rt_elapsed = (\<lambda>_. 0), rt_landed = (\<lambda>_. 0), rt_tokio = True,
     rt_show_duration = (\<lambda>_. [])\<rparr>"

definition demo_world :: "json mem_store world" where
  "demo_world = \<lparr>w_store = mem_new, w_seq = 0\<rparr>"

abbreviation demo_exec :: "(graph_error + json graph_execution) \<times> json mem_store world" where
  "demo_exec \<equiv> execute in_memory demo demo_rt JNull [plain ''a''] (Some ''t'') (\<lambda>_. None) [] None demo_world"

lemma demo_runnable: "runnable demo"
proof -
  have "compile sample_builder = Inr (from_parts sample_builder ''a'' overwrite_reduce)"
    by (simp add: sample_simps builder_defs compile_def require_node_def check_edge_def check_branch_def
        check_waiting_def check_command_node_def reject_if_def)
  then show ?thesis unfolding demo_def by (intro runnable_checkpointer runnable_compiled [OF sample_built])
qed

lemma demo_checkpointer: "cg_checkpointer demo"
  by (simp add: demo_def with_checkpointer_def)

lemma demo_completes: "\<not> isl (fst demo_exec)"
  by code_simp

definition demo_start :: "json loop_state" where
  "demo_start = \<lparr>ls_state = JNull, ls_active = [plain ''a''], ls_steps = 0, ls_barriers = [],
     ls_visits = (\<lambda>_. None), ls_resume = (\<lambda>_. None), ls_visited = [], ls_parent = None,
     ls_last = None, ls_async = no_writes\<rparr>"

theorem super_step_invariant_witness:
  "\<exists>sr rm vis. run_active demo sample_env JNull (assign_task_ids 1 [plain ''a'']) (\<lambda>_. None) [] = (Inr sr, rm, vis)"
proof -
  have "loop_inv demo demo_start"
    by (simp add: loop_inv_def demo_start_def plain_def registered_def open_barriers_def demo_def
        with_checkpointer_def sample_simps)
  from super_step_invariant [OF demo_runnable this reach_start, of sample_env] show ?thesis
    by (simp add: demo_start_def)
qed

theorem run_step_bounded_witness: "\<exists>ge w'. demo_exec = (Inr ge, w') \<and> ge_steps ge \<le> 50"
proof -
  obtain ge w' where run: "demo_exec = (Inr ge, w')"
    using demo_completes by (cases demo_exec; cases "fst demo_exec") auto
  moreover have "step_limit demo = 50"
    by (simp add: step_limit_def demo_def with_checkpointer_def sample_simps default_policy_def)
  ultimately show ?thesis using run_step_bounded [OF run] by auto
qed

theorem run_lineage_witness:
  "\<exists>cks. mem_records (w_store (snd demo_exec)) ''t'' = cks \<and> length cks = 2 \<and> chained None cks"
proof -
  have "length (mem_records (w_store (snd demo_exec)) ''t'') = 2" by code_simp
  moreover obtain cks where "mem_records (w_store (snd demo_exec)) ''t'' = mem_records (w_store demo_world) ''t'' @ cks"
    "chained None cks"
    using run_lineage [OF demo_checkpointer prod.collapse [symmetric], of demo_rt JNull "[plain ''a'']" "''t''" "\<lambda>_. None" "[]" None demo_world]
    by auto
  moreover have "mem_records (w_store demo_world) ''t'' = []"
    by (simp add: demo_world_def mem_new_def mem_records_def)
  ultimately show ?thesis by simp
qed

end
