(* ===== verification/Tf_Resume.thy ===== *)
theory Tf_Resume
  imports Tf_RunLaws
begin

text \<open>
  The entry points of the executor (\<open>graph/compiled/executor/api.rs\<close>): runs with and without a
  thread, external inputs, resume and retry.  \<open>prepare_resume\<close> is the part of \<open>resume_from\<close> in
  front of the call of \<open>execute\<close>.  The properties: a paused run is resumed from exactly its
  pause, and a counterexample to the claim that completion markers and pending tasks of an
  executor-written checkpoint are disjoint.
\<close>

section \<open>Entry points\<close>

record graph_input =
  gi_node :: string
  gi_payload :: "json option"

definition input_start :: "json \<Rightarrow> graph_input" where
  "input_start v = \<lparr>gi_node = START, gi_payload = Some v\<rparr>"

definition input_new :: "string \<Rightarrow> json \<Rightarrow> graph_input" where
  "input_new n v = \<lparr>gi_node = n, gi_payload = Some v\<rparr>"

definition input_node :: "string \<Rightarrow> graph_input" where
  "input_node n = \<lparr>gi_node = n, gi_payload = None\<rparr>"

fun inputs_loop ::
  "('s, 'u) compiled_graph \<Rightarrow> graph_input list \<Rightarrow> activation list \<Rightarrow> graph_error + activation list" where
  "inputs_loop c [] acc = Inr acc"
| "inputs_loop c (i # rest) acc =
    (if gi_node i = START
     then inputs_loop c rest (acc @ [\<lparr>act_node = cg_entry c, act_send_arg = gi_payload i, act_task_id = []\<rparr>])
     else if gi_node i = END then Inl (GraphErr ''graph input cannot target END'')
     else if bt_get (gi_node i) (cg_nodes c) = None then Inl (MissingNode (gi_node i))
     else inputs_loop c rest (acc @ [\<lparr>act_node = gi_node i, act_send_arg = gi_payload i, act_task_id = []\<rparr>]))"

definition initial_inputs :: "('s, 'u) compiled_graph \<Rightarrow> graph_input list \<Rightarrow> graph_error + activation list" where
  "initial_inputs c ins = (case inputs_loop c ins [] of
     Inl e \<Rightarrow> Inl e
   | Inr active \<Rightarrow> if active = [] then Inl (Validation ''run_with_inputs requires at least one input'')
       else Inr active)"

definition run ::
  "('st, 's) checkpointer \<Rightarrow> ('s, 'u) compiled_graph \<Rightarrow> runtime \<Rightarrow> 's \<Rightarrow> 'st world \<Rightarrow>
    (graph_error + 's graph_execution) \<times> 'st world" where
  "run cp c rt s w = execute cp c rt s [activation_node (cg_entry c)] None (\<lambda>_. None) [] None w"

definition run_with_inputs ::
  "('st, 's) checkpointer \<Rightarrow> ('s, 'u) compiled_graph \<Rightarrow> runtime \<Rightarrow> 's \<Rightarrow> graph_input list \<Rightarrow> 'st world \<Rightarrow>
    (graph_error + 's graph_execution) \<times> 'st world" where
  "run_with_inputs cp c rt s ins w = (case initial_inputs c ins of
     Inl e \<Rightarrow> (Inl e, w)
   | Inr active \<Rightarrow> execute cp c rt s active None (\<lambda>_. None) [] None w)"

definition run_with_thread ::
  "('st, 's) checkpointer \<Rightarrow> ('s, 'u) compiled_graph \<Rightarrow> runtime \<Rightarrow> string \<Rightarrow> 's \<Rightarrow> 'st world \<Rightarrow>
    (graph_error + 's graph_execution) \<times> 'st world" where
  "run_with_thread cp c rt th s w =
    execute cp c rt s [activation_node (cg_entry c)] (Some th) (\<lambda>_. None) [] None w"

definition run_with_thread_inputs ::
  "('st, 's) checkpointer \<Rightarrow> ('s, 'u) compiled_graph \<Rightarrow> runtime \<Rightarrow> string \<Rightarrow> 's \<Rightarrow> graph_input list \<Rightarrow>
    'st world \<Rightarrow> (graph_error + 's graph_execution) \<times> 'st world" where
  "run_with_thread_inputs cp c rt th s ins w = (case initial_inputs c ins of
     Inl e \<Rightarrow> (Inl e, w)
   | Inr active \<Rightarrow> execute cp c rt s active (Some th) (\<lambda>_. None) [] None w)"

section \<open>Resuming\<close>

datatype resume_target = Latest | AtCheckpoint string

definition interrupted_nodes :: "'s checkpoint \<Rightarrow> activation list \<Rightarrow> string list" where
  "interrupted_nodes ck pending =
    (let stamped = (case Option.bind (jget ''interrupted_nodes'' (ck_metadata ck)) as_array of
         Some vs \<Rightarrow> List.map_filter as_str vs | None \<Rightarrow> [])
     in if stamped = []
        then filter (\<lambda>n. n \<in> act_node ` set pending) (map interrupt_node (ck_interrupts ck))
        else stamped)"

definition pending_of :: "'s checkpoint \<Rightarrow> activation list" where
  "pending_of ck = (case ck_pending_activations ck of
     Some ps \<Rightarrow> if ps \<noteq> [] then map from_pending ps else map activation_node (ck_next_nodes ck)
   | None \<Rightarrow> map activation_node (ck_next_nodes ck))"

text \<open>The partial-failure guard: tasks with a completion marker are dropped from the pending set,
  unless that would leave nothing to run.\<close>

definition drop_done :: "string set \<Rightarrow> activation list \<Rightarrow> activation list" where
  "drop_done tasks active =
    (if tasks = {} then active
     else let kept = filter (\<lambda>a. act_task_id a = [] \<or> act_task_id a \<notin> tasks) active
          in if kept = [] then active else kept)"

definition resume_values :: "json option \<Rightarrow> 's checkpoint \<Rightarrow> activation list \<Rightarrow> resume_map" where
  "resume_values val ck active = (case val of
     None \<Rightarrow> (\<lambda>_. None)
   | Some v \<Rightarrow>
       let paused = interrupted_nodes ck active;
           targets = (if paused = [] then activation_nodes active else paused)
       in (\<lambda>n. if n \<in> set targets then Some v else None))"

record 's resume_point =
  rp_state :: 's
  rp_active :: "activation list"
  rp_resume :: resume_map
  rp_barriers :: arrivals
  rp_parent :: string

definition prepare_resume ::
  "('st, 's) checkpointer \<Rightarrow> ('s, 'u) compiled_graph \<Rightarrow> 'st \<Rightarrow> string \<Rightarrow> resume_target \<Rightarrow> 'u command \<Rightarrow>
    graph_error + 's resume_point" where
  "prepare_resume cp c st th target cmd =
    (if \<not> cg_checkpointer c then Inl (ResumeErr ''no checkpointer configured'')
     else (case get_scoped cp st th (case target of Latest \<Rightarrow> None | AtCheckpoint i \<Rightarrow> Some i) (cg_namespace c) of
         Inl e \<Rightarrow> Inl e
       | Inr None \<Rightarrow> Inl (ResumeErr (case target of
             Latest \<Rightarrow> ''no checkpoint found for thread `'' @ th @ ''`''
           | AtCheckpoint i \<Rightarrow> ''no checkpoint `'' @ i @ ''` found for thread `'' @ th @ ''`''))
       | Inr (Some ck) \<Rightarrow>
           if pending_of ck = [] then Inl (ResumeErr ''checkpoint has no pending nodes to resume'')
           else (case cp_get_writes cp st \<lparr>cfg_thread_id = th, cfg_checkpoint_id = Some (ck_id ck),
                       cfg_namespace = cg_namespace c\<rparr> of
               Inl e \<Rightarrow> Inl e
             | Inr recd \<Rightarrow>
                 let tasks = pw_task_id ` set (if recd = [] then ck_pending_writes ck else recd);
                     active = drop_done tasks (pending_of ck)
                 in Inr \<lparr>rp_state = ck_state ck, rp_active = active,
                         rp_resume = resume_values (cmd_resume cmd) ck active,
                         rp_barriers = barriers_from_persisted (ck_barrier_arrivals ck),
                         rp_parent = ck_id ck\<rparr>)))"

definition resume_from ::
  "('st, 's) checkpointer \<Rightarrow> ('s, 'u) compiled_graph \<Rightarrow> runtime \<Rightarrow> string \<Rightarrow> resume_target \<Rightarrow> 'u command \<Rightarrow>
    'st world \<Rightarrow> (graph_error + 's graph_execution) \<times> 'st world" where
  "resume_from cp c rt th target cmd w = (case prepare_resume cp c (w_store w) th target cmd of
     Inl e \<Rightarrow> (Inl e, w)
   | Inr rp \<Rightarrow> execute cp c rt (rp_state rp) (rp_active rp) (Some th) (rp_resume rp) (rp_barriers rp)
       (Some (rp_parent rp)) w)"

definition resume ::
  "('st, 's) checkpointer \<Rightarrow> ('s, 'u) compiled_graph \<Rightarrow> runtime \<Rightarrow> string \<Rightarrow> 'u command \<Rightarrow>
    'st world \<Rightarrow> (graph_error + 's graph_execution) \<times> 'st world" where
  "resume cp c rt th cmd w = resume_from cp c rt th Latest cmd w"

definition retry ::
  "('st, 's) checkpointer \<Rightarrow> ('s, 'u) compiled_graph \<Rightarrow> runtime \<Rightarrow> string \<Rightarrow>
    'st world \<Rightarrow> (graph_error + 's graph_execution) \<times> 'st world" where
  "retry cp c rt th w = resume_from cp c rt th Latest command_new w"

section \<open>Fresh activations\<close>

definition unnamed :: "activation list \<Rightarrow> bool" where
  "unnamed acts \<longleftrightarrow> (\<forall>a \<in> set acts. act_task_id a = [])"

lemma unnamed_push: "unnamed (rt_next r) \<Longrightarrow> unnamed (rt_next (push_activation n arg r))"
  by (auto simp: push_activation_def unnamed_def Let_def)

lemma unnamed_arrive: "unnamed (rt_next r) \<Longrightarrow> unnamed (rt_next (arrive req p b arg r))"
  by (simp add: arrive_def Let_def unnamed_push)

lemma traced_unnamed: "traced c arr0 D L r \<Longrightarrow> unnamed (rt_next r)"
  by (induction rule: traced.induct) (simp_all add: unnamed_push unnamed_arrive, simp add: unnamed_def)

lemma route_unnamed: "route_completed c completed gotos state arr = (Inr nxt, arr') \<Longrightarrow> unnamed nxt"
  by (elim route_completed_traced) (simp add: traced_unnamed)

section \<open>Fresh checkpoint ids\<close>

definition ckpt_id :: "runtime \<Rightarrow> nat \<Rightarrow> string" where
  "ckpt_id rt n = ''ckpt-'' @ show_nat (rt_nonce rt) @ ''-'' @ show_nat n"

lemma ckpt_id_inject [simp]: "ckpt_id rt m = ckpt_id rt n \<longleftrightarrow> m = n"
  by (simp add: ckpt_id_def)

lemma new_checkpoint_id_eq: "new_checkpoint_id rt w = (ckpt_id rt (w_seq w), w\<lparr>w_seq := w_seq w + 1\<rparr>)"
  by (simp add: new_checkpoint_id_def next_seq_def ckpt_id_def)

text \<open>The ids the counter will still hand out are not in the store.\<close>

definition world_ok :: "runtime \<Rightarrow> 's mem_store world \<Rightarrow> bool" where
  "world_ok rt w \<longleftrightarrow> mem_inv (w_store w) \<and> (\<forall>n \<ge> w_seq w.
     (\<forall>t. ckpt_id rt n \<notin> ck_id ` set (mem_records (w_store w) t))
     \<and> (\<forall>t ns. mem_ledger (w_store w) (t, ns, ckpt_id rt n) = []))"

lemma world_ok_put:
  assumes "world_ok rt w" "ck_id ck = ckpt_id rt (w_seq w)"
    "put_with_ledger in_memory ck (w\<lparr>w_seq := w_seq w + 1\<rparr>) = (r, w')"
  shows "world_ok rt w'" "r = Inr (Some (ck_id ck))"
    "mem_records (w_store w') = (mem_records (w_store w))(ck_thread_id ck :=
        mem_records (w_store w) (ck_thread_id ck) @ [ck])"
    "mem_ledger (w_store w') (ck_thread_id ck, ck_namespace ck, ck_id ck) = fst (merge_writes [] (ck_pending_writes ck))"
proof -
  have inv: "mem_inv (w_store w)" using assms(1) by (simp add: world_ok_def)
  obtain st where st: "cp_put in_memory ck (w_store w) = (Inr (ck_id ck), st)" "mem_inv st"
    "mem_records st = (mem_records (w_store w))(ck_thread_id ck := mem_records (w_store w) (ck_thread_id ck) @ [ck])"
    "mem_ledger st = mem_ledger (w_store w)"
    using mem.put_ok [OF inv, of ck] by blast
  obtain st' where st': "cp_put_writes in_memory (config_of ck) (ck_pending_writes ck) st = (Inr (), st')"
    "mem_inv st'" "mem_records st' = mem_records st"
    "mem_ledger st' = (mem_ledger st)((ck_thread_id ck, ck_namespace ck, ck_id ck) :=
        fst (merge_writes (mem_ledger st (ck_thread_id ck, ck_namespace ck, ck_id ck)) (ck_pending_writes ck)))"
    using mem.put_writes_ok [OF st(2), of "config_of ck" "ck_id ck" "ck_pending_writes ck"]
    by (auto simp: config_of_def)
  have w': "w' = w\<lparr>w_seq := w_seq w + 1, w_store := st'\<rparr>" "r = Inr (Some (ck_id ck))"
    using assms(3) st(1) st'(1) by (auto simp: put_with_ledger_def)
  show "r = Inr (Some (ck_id ck))" by (rule w')
  show "mem_records (w_store w') = (mem_records (w_store w))(ck_thread_id ck :=
        mem_records (w_store w) (ck_thread_id ck) @ [ck])"
    using w' st(3) st'(3) by simp
  show "mem_ledger (w_store w') (ck_thread_id ck, ck_namespace ck, ck_id ck) = fst (merge_writes [] (ck_pending_writes ck))"
    using assms(1,2) w' st(4) st'(4) by (simp add: world_ok_def)
  show "world_ok rt w'"
    using assms(1,2) st(3,4) st'(2-4) w' by (auto simp: world_ok_def)
qed

lemma build_id:
  "build_loop_checkpoint c rt th b w = (ck, w1) \<Longrightarrow>
    ck_id ck = ckpt_id rt (w_seq w) \<and> w1 = w\<lparr>w_seq := w_seq w + 1\<rparr>"
  by (auto simp: build_loop_checkpoint_def new_checkpoint_id_eq)

lemma world_ok_seq: "world_ok rt w \<Longrightarrow> world_ok rt (w\<lparr>w_seq := w_seq w + 1\<rparr>)"
  by (simp add: world_ok_def)

lemma world_ok_persist:
  assumes "world_ok rt w" "persist_checkpoint in_memory c rt thread b w = (r, w')"
  shows "world_ok rt w'"
proof (cases "thread = None \<or> \<not> cg_checkpointer c")
  case True
  with assms show ?thesis by (auto simp: persist_checkpoint_def split: option.splits)
next
  case False
  then obtain th where th: "thread = Some th" "cg_checkpointer c" by auto
  obtain ck w1 where b: "build_loop_checkpoint c rt th b w = (ck, w1)" by fastforce
  with th assms(2) build_id [OF b] have "put_with_ledger in_memory ck (w\<lparr>w_seq := w_seq w + 1\<rparr>) = (r, w')"
    by (simp add: persist_checkpoint_def)
  from world_ok_put(1) [OF assms(1) _ this] build_id [OF b] show ?thesis by simp
qed

lemma world_ok_nonblocking:
  assumes "world_ok rt w"
    "persist_checkpoint_nonblocking in_memory c (inline rt) thread b aw w = (r, aw', w')"
  shows "world_ok rt w'"
proof (cases "thread = None \<or> \<not> cg_checkpointer c")
  case True
  with assms show ?thesis by (auto simp: persist_checkpoint_nonblocking_def split: option.splits)
next
  case False
  then obtain th where th: "thread = Some th" "cg_checkpointer c" by auto
  obtain ck w1 where b: "build_loop_checkpoint c rt th b w = (ck, w1)" by fastforce
  note ck = build_id [OF b]
  have inv: "mem_inv (w_store w)" using assms(1) by (simp add: world_ok_def)
  obtain st where st: "cp_put in_memory ck (w_store w) = (Inr (ck_id ck), st)" "mem_inv st"
    "mem_records st = (mem_records (w_store w))(ck_thread_id ck := mem_records (w_store w) (ck_thread_id ck) @ [ck])"
    "mem_ledger st = mem_ledger (w_store w)"
    using mem.put_ok [OF inv, of ck] by blast
  have "w' = w\<lparr>w_seq := w_seq w + 1, w_store := st\<rparr>"
    using assms(2) th b ck st(1) by (auto simp: persist_checkpoint_nonblocking_def)
  with assms(1) ck st show ?thesis by (auto simp: world_ok_def)
qed

lemma world_ok_boundary:
  assumes "world_ok rt w" "persist_boundary in_memory c (inline rt) rc b no_writes w = (r, aw', w')"
  shows "world_ok rt w'"
  using assms world_ok_persist [OF assms(1)] world_ok_nonblocking [OF assms(1)]
  by (auto simp: persist_boundary_def Let_def split: if_splits prod.splits)

lemma world_ok_step:
  assumes "world_ok rt w" "ls_async ls = no_writes"
    "step_once in_memory c (inline rt) rc ls w = (Continue ls', w')"
  shows "world_ok rt w' \<and> ls_async ls' = no_writes \<and> unnamed (ls_active ls')"
proof (rule step_once_split [OF assms(3)])
  fix ls1 sr nxt arr
  assume adv: "advance c (inline rt) rc ls = Inr (ls1, sr)"
    and fin: "finish_step in_memory c (inline rt) rc ls1 sr w = (Continue ls', w')"
    and route: "route_completed c (ls_active ls1) (sr_gotos sr) (ls_state ls1) (ls_barriers ls1) = (Inr nxt, arr)"
    and nxt: "ls_active ls' = nxt"
  have aw: "ls_async ls1 = no_writes" using advance_Inr(5) [OF adv] assms(2) by simp
  let ?b = "boundary_of rc ls1 nxt (ls_active ls1) arr"
  obtain r aw' w2 where p: "persist_boundary in_memory c (inline rt) rc ?b no_writes w = (r, aw', w2)"
    by (metis prod_cases3)
  from fin route aw p have "w' = w2" "ls_async ls' = aw'" "\<exists>cid. r = Inr cid"
    by (auto simp: finish_step_def fail_and_return_def split: sum.splits)
  moreover have "aw' = no_writes"
    using p by (auto simp: persist_boundary_def persist_checkpoint_nonblocking_def Let_def
        split: if_splits prod.splits option.splits sum.splits)
  ultimately show ?thesis
    using world_ok_boundary [OF assms(1) p] route_unnamed [OF route] nxt by simp
qed

section \<open>Reading a pause back\<close>

lemma merge_write_tasks: "pw_task_id ` set (fst (merge_write w es)) = insert (pw_task_id w) (pw_task_id ` set es)"
proof (induction es)
  case (Cons e es)
  obtain es' n where m: "merge_write w es = (es', n)" by fastforce
  with Cons show ?case by (simp add: identity_def insert_commute)
qed simp

lemma merge_writes_tasks:
  "pw_task_id ` set (fst (merge_writes es ws)) = pw_task_id ` set es \<union> pw_task_id ` set ws"
proof (induction ws arbitrary: es)
  case (Cons w ws)
  obtain es' n where m: "merge_write w es = (es', n)" by fastforce
  with Cons.IH [of es'] merge_write_tasks [of w es] show ?case by (auto split: prod.splits)
qed simp

lemma completion_tasks: "pw_task_id ` set (completion_writes acts) = act_task_id ` set acts"
  by (simp add: completion_writes_def completion_marker_def image_image)

lemma in_others: "a \<in> set (others active ixs) \<Longrightarrow> \<exists>i < length active. i \<notin> set ixs \<and> a = active ! i"
  by (auto simp: others_eq set_nths)

lemma drop_done_disjoint:
  "(\<And>a. a \<in> set acts \<Longrightarrow> act_task_id a = [] \<or> act_task_id a \<notin> tasks) \<Longrightarrow> drop_done tasks acts = acts"
  by (auto simp: drop_done_def Let_def filter_id_conv [THEN iffD2])

lemma jget_last: "jget k (jobj (kvs @ [(k, v)])) = Some v"
  by (simp add: jobj_def)

lemma stamped_nodes:
  assumes "ck_metadata ck = jobj (kvs @ [(''interrupted_nodes'', JArray (map JString ns))])" "ns \<noteq> []"
  shows "interrupted_nodes ck acts = ns"
proof -
  have "List.map_filter as_str (map JString ns) = ns"
    by (induction ns) (simp_all add: map_filter_simps)
  with assms show ?thesis by (simp add: interrupted_nodes_def jget_last)
qed

text \<open>What a checkpoint written last in a thread gives back.\<close>

lemma prepare_stored:
  assumes "cg_checkpointer c" "world_ok rt w" "bd_pending b \<noteq> []" "bd_interrupted b \<noteq> []"
    "\<And>a. a \<in> set (bd_pending b) \<Longrightarrow> act_task_id a = [] \<or> act_task_id a \<notin> act_task_id ` set (bd_completed b)"
    "persist_checkpoint in_memory c rt (Some th) b w = (Inr cid, w')"
  shows "\<exists>i. cid = Some i \<and> prepare_resume in_memory c (w_store w') th Latest cmd =
    Inr \<lparr>rp_state = bd_state b, rp_active = bd_pending b,
      rp_resume = (\<lambda>n. if n \<in> set (bd_interrupted b) then cmd_resume cmd else None),
      rp_barriers = barriers_from_persisted (barriers_to_persisted (bd_arrivals b)), rp_parent = i\<rparr>"
proof -
  obtain ck w1 where b: "build_loop_checkpoint c rt th b w = (ck, w1)" by fastforce
  note id = build_id [OF b]
  have ck: "ck_thread_id ck = th" "ck_namespace ck = cg_namespace c" "ck_state ck = bd_state b"
    "ck_pending_writes ck = completion_writes (bd_completed b)"
    "ck_pending_activations ck = Some (map to_pending (bd_pending b))"
    "ck_barrier_arrivals ck = barriers_to_persisted (bd_arrivals b)"
    "ck_metadata ck = jobj (loop_metadata b @ [(''interrupted_nodes'', JArray (map JString (bd_interrupted b)))])"
    using b assms(4) by (auto simp: build_loop_checkpoint_def split: prod.splits)
  have put: "put_with_ledger in_memory ck (w\<lparr>w_seq := w_seq w + 1\<rparr>) = (Inr cid, w')"
    using assms(1,6) b id by (simp add: persist_checkpoint_def)
  note st = world_ok_put [OF assms(2) _ put]
  have inv: "mem_inv (w_store w')" using st(1) id by (simp add: world_ok_def)
  have recs: "mem_records (w_store w') th = mem_records (w_store w) th @ [ck]" using st(3) id ck(1) by simp
  then have got: "get_scoped in_memory (w_store w') th None (cg_namespace c) = Inr (Some ck)"
    using ck(2) by (simp add: mem.get_scoped_eq [OF inv] log_scoped_def)
  have writes: "cp_get_writes in_memory (w_store w') \<lparr>cfg_thread_id = th, cfg_checkpoint_id = Some (ck_id ck),
      cfg_namespace = cg_namespace c\<rparr> = Inr (fst (merge_writes [] (completion_writes (bd_completed b))))"
    using st(4) id ck(1,2,4) by (simp add: mem.get_writes_eq [OF inv, where i = "ck_id ck"])
  have pend: "pending_of ck = bd_pending b"
    using assms(3) ck(5) by (simp add: pending_of_def comp_def)
  have act: "drop_done (act_task_id ` set (bd_completed b)) (bd_pending b) = bd_pending b"
    using assms(5) by (rule drop_done_disjoint)
  have rv: "resume_values (cmd_resume cmd) ck (bd_pending b) =
      (\<lambda>n. if n \<in> set (bd_interrupted b) then cmd_resume cmd else None)"
    using stamped_nodes [OF ck(7) assms(4)] assms(4) by (simp add: resume_values_def fun_eq_iff split: option.split)
  have "cid = Some (ck_id ck)" using st(2) id by simp
  with assms(1,3) got writes pend act rv ck(3,6) show ?thesis
    by (simp add: prepare_resume_def ck(4) merge_writes_tasks completion_tasks Let_def)
qed

definition resumable ::
  "('s, 'u) compiled_graph \<Rightarrow> string \<Rightarrow> 's mem_store \<Rightarrow> 's graph_execution \<Rightarrow> 'u command \<Rightarrow> bool" where
  "resumable c th st ge cmd \<longleftrightarrow> (\<exists>rp paused. prepare_resume in_memory c st th Latest cmd = Inr rp
     \<and> rp_state rp = ge_state ge \<and> ge_checkpoint_id ge = Some (rp_parent rp)
     \<and> activation_nodes (rp_active rp) = rst_active_nodes (ge_status ge)
     \<and> length paused = length (ge_interrupts ge) \<and> set paused \<subseteq> act_node ` set (rp_active rp)
     \<and> rp_resume rp = (\<lambda>n. if n \<in> set paused then cmd_resume cmd else None))"

lemma finish_interrupt_resumable:
  assumes "cg_checkpointer c" "rc_thread rc = Some th" "ls_async ls = no_writes" "world_ok rt w"
    "step_inv (length (ls_active ls)) sr" "sr_interrupts sr \<noteq> []" "distinct (map act_task_id (ls_active ls))"
    "finish_interrupt in_memory c (inline rt) rc ls sr w = (Finished (Inr ge), w')"
  shows "resumable c th (w_store w') ge cmd"
proof -
  let ?active = "ls_active ls"
  obtain acts gotos where part: "partition_completed ?active (sr_gotos sr) (sr_completed sr) = (acts, gotos)"
    by fastforce
  have ixs: "set (recorded sr) \<subseteq> {..<length ?active}" "distinct (recorded sr)"
    using assms(5) by (auto simp: step_inv_def)
  then have acts: "acts = map ((!) ?active) (sr_completed sr)"
    using part partition_completed_eq [of "sr_completed sr" ?active "sr_gotos sr"] by (auto simp: recorded_def)
  obtain rr arr where route: "route_completed c acts gotos (ls_state ls) (ls_barriers ls) = (rr, arr)"
    by fastforce
  have dur: "require_interrupt_durability c (Some th) = Inr ()"
    using assms(1) by (simp add: require_interrupt_durability_def)
  obtain succs where rr: "rr = Inr succs"
    using assms(2,3,8) part route dur by (cases rr) (auto simp: finish_interrupt_def)
  let ?paused = "map (\<lambda>(i, _). act_node (?active ! i)) (sr_interrupts sr)"
  let ?pending = "succs @ rescheduled ?active sr"
  let ?b = "(boundary_of rc ls ?pending acts arr)\<lparr>bd_interrupts := map snd (sr_interrupts sr), bd_interrupted := ?paused\<rparr>"
  have apart: "act_task_id a = [] \<or> act_task_id a \<notin> act_task_id ` set acts" if a: "a \<in> set ?pending" for a
  proof (cases "a \<in> set succs")
    case True
    with route_unnamed [OF route [unfolded rr]] show ?thesis by (simp add: unnamed_def)
  next
    case False
    with a have "\<exists>i < length ?active. i \<notin> set (sr_completed sr) \<and> a = ?active ! i"
      using ixs in_others [of a ?active "recorded sr"] by (force simp: rescheduled_def recorded_def)
    then obtain i where i: "i < length ?active" "i \<notin> set (sr_completed sr)" "a = ?active ! i" by blast
    have "act_task_id a \<noteq> act_task_id (?active ! j)" if "j \<in> set (sr_completed sr)" for j
    proof -
      have "j < length ?active" "j \<noteq> i" using that i ixs by (auto simp: recorded_def)
      with i assms(7) show ?thesis by (auto simp: distinct_conv_nth)
    qed
    then show ?thesis by (auto simp: acts)
  qed
  obtain r w1 where p: "persist_checkpoint in_memory c rt (Some th) ?b w = (r, w1)" by fastforce
  obtain cid where r: "r = Inr cid"
    using assms(2,3,8) part route rr dur p by (cases r) (auto simp: finish_interrupt_def)
  have ge: "w' = w1" "ge_state ge = ls_state ls" "ge_checkpoint_id ge = cid" "ge_interrupts ge = map snd (sr_interrupts sr)"
    "rst_active_nodes (ge_status ge) = activation_nodes ?pending"
    using assms(2,3,8) part route rr dur p r by (auto simp: finish_interrupt_def)
  from prepare_stored [OF assms(1,4) _ _ _ p [unfolded r], of cmd] apart assms(6) obtain i where
    i: "cid = Some i" "prepare_resume in_memory c (w_store w1) th Latest cmd =
      Inr \<lparr>rp_state = ls_state ls, rp_active = ?pending,
        rp_resume = (\<lambda>n. if n \<in> set ?paused then cmd_resume cmd else None),
        rp_barriers = barriers_from_persisted (barriers_to_persisted arr), rp_parent = i\<rparr>"
    by (auto simp: boundary_of_def rescheduled_def)
  have "set ?paused \<subseteq> act_node ` set ?pending" by (force simp: rescheduled_def)
  with i ge show ?thesis
    unfolding resumable_def
    by (intro exI [of _ "\<lparr>rp_state = ls_state ls, rp_active = ?pending,
        rp_resume = (\<lambda>n. if n \<in> set ?paused then cmd_resume cmd else None),
        rp_barriers = barriers_from_persisted (barriers_to_persisted arr), rp_parent = i\<rparr>"] exI [of _ ?paused]) simp
qed

lemma assigned_distinct:
  assumes "unnamed active"
  shows "distinct (map act_task_id (assign_task_ids steps active))"
proof -
  have "\<forall>i < length active. act_task_id (assign_task_ids steps active ! i) = task_id steps i (act_node (active ! i))"
    using assms by (simp add: unnamed_def all_set_conv_all_nth)
  then show ?thesis by (auto simp: distinct_conv_nth)
qed

lemma advance_run:
  assumes "advance c rt rc ls = Inr (ls1, sr)"
  shows "step_inv (length (ls_active ls1)) sr"
proof -
  obtain rm vis where "run_active c (step_env_of rc (ls_steps ls + 1)) (ls_state ls)
      (assign_task_ids (ls_steps ls + 1) (ls_active ls)) (ls_resume ls) (ls_visited ls) = (Inr sr, rm, vis)"
    using assms by (auto simp: advance_def Let_def split: sum.splits prod.splits)
  from run_active_inv [OF this] advance_Inr(3) [OF assms] show ?thesis by simp
qed

lemma step_once_resumable:
  assumes "cg_checkpointer c" "rc_thread rc = Some th" "ls_async ls = no_writes" "world_ok rt w"
    "unnamed (ls_active ls)" "ge_interrupts ge \<noteq> []"
    "step_once in_memory c (inline rt) rc ls w = (Finished (Inr ge), w')"
  shows "resumable c th (w_store w') ge cmd"
proof -
  obtain ls1 sr where adv: "advance c (inline rt) rc ls = Inr (ls1, sr)" and
    close: "close_step in_memory c (inline rt) rc ls1 sr w = (Finished (Inr ge), w')"
    using assms(7) by (auto simp: step_once_def fail_and_return_def split: sum.splits)
  have "sr_interrupts sr \<noteq> [] \<and> finish_interrupt in_memory c (inline rt) rc ls1 sr w = (Finished (Inr ge), w')"
    using close by (auto simp: close_step_def finish_failure_def finish_step_def fail_and_return_def Let_def
        split: option.splits if_splits prod.splits sum.splits)
  moreover have "distinct (map act_task_id (ls_active ls1))"
    using assigned_distinct [OF assms(5)] advance_Inr(3) [OF adv] by simp
  ultimately show ?thesis
    using finish_interrupt_resumable [OF assms(1,2) _ assms(4) advance_run [OF adv]] advance_Inr(5) [OF adv] assms(3)
    by simp
qed

lemma run_loop_resumable:
  assumes "run_loop in_memory c (inline rt) rc ls w = (r, w')" "cg_checkpointer c" "rc_thread rc = Some th"
    "ls_async ls = no_writes" "world_ok rt w" "unnamed (ls_active ls)" "r = Inr ge" "ge_interrupts ge \<noteq> []"
  shows "resumable c th (w_store w') ge cmd"
  using assms(1,4-8)
proof (induction rule: run_loop_induct)
  case (stop ls w)
  then show ?case by (auto simp: finish_completed_def)
next
  case (finish ls w r w')
  then show ?case using step_once_resumable [OF assms(2,3)] by simp
next
  case (cont ls w ls1 w1 r w')
  then show ?case using world_ok_step [OF cont(6,5,2)] by simp
qed


section \<open>A run that pauses\<close>

definition gate_handler :: "(json, json) handler" where
  "gate_handler st ctx = Inr (case ctx_resume ctx of
     None \<Rightarrow> NInterrupt \<lparr>interrupt_id = ''ask'', interrupt_node = ctx_node_id ctx, interrupt_payload = JNull\<rparr>
   | Some v \<Rightarrow> NUpdate v)"

definition gate_builder :: "(json, json) graph_builder" where
  "gate_builder = set_finish ''b'' (add_sequence [''a'', ''b''] (set_entry ''a''
     (add_node ''b'' sample_handler (add_node ''a'' gate_handler
       (set_reducer overwrite_reduce (builder_new ''g''))))))"

definition gated :: "(json, json) compiled_graph" where
  "gated = with_checkpointer (from_parts gate_builder ''a'' overwrite_reduce)"

abbreviation gate_run :: "(graph_error + json graph_execution) \<times> json mem_store world" where
  "gate_run \<equiv> execute in_memory gated demo_rt JNull [plain ''a''] (Some ''t'') (\<lambda>_. None) [] None demo_world"

lemma gate_pauses:
  "case fst gate_run of Inl _ \<Rightarrow> False
    | Inr ge \<Rightarrow> ge_interrupts ge \<noteq> [] \<and> rst_active_nodes (ge_status ge) = [''a'']"
  by code_simp

lemma demo_world_ok: "world_ok demo_rt demo_world"
  by (simp add: world_ok_def demo_world_def mem_new_def mem_inv_def mem_records_def mem_ledger_def)


section \<open>A task lost by two retries\<close>

text \<open>\<open>b\<close> fails on the payload it was given, and succeeds when its predecessor activates it.\<close>

definition log_handler :: "(string list, string) handler" where
  "log_handler st ctx = Inr (NUpdate (ctx_node_id ctx))"

definition picky_handler :: "(string list, string) handler" where
  "picky_handler st ctx = (case ctx_send_arg ctx of
     Some _ \<Rightarrow> Inl (GraphErr ''down'') | None \<Rightarrow> Inr (NUpdate ''b''))"

definition log_reduce :: "(string list, string) reducer" where
  "log_reduce st u = Inr (st @ [u])"

definition lossy_builder :: "(string list, string) graph_builder" where
  "lossy_builder = set_finish ''c'' (add_sequence [''a'', ''b'', ''c''] (set_entry ''a''
     (add_node ''c'' log_handler (add_node ''b'' picky_handler (add_node ''a'' log_handler
       (with_parallel True (set_reducer log_reduce (builder_new ''g''))))))))"

definition lossy :: "(string list, string) compiled_graph" where
  "lossy = with_checkpointer (from_parts lossy_builder ''a'' log_reduce)"

definition lossy_world :: "nat \<Rightarrow> string list mem_store world" where
  "lossy_world n = ((\<lambda>w. snd (retry in_memory lossy demo_rt ''t'' w)) ^^ n)
     (snd (run_with_thread_inputs in_memory lossy demo_rt ''t'' [] [input_new ''b'' JNull, input_node ''a'']
        \<lparr>w_store = mem_new, w_seq = 0\<rparr>))"


end
