(* ===== verification/Tf_StateApi.thy ===== *)
theory Tf_StateApi
  imports Tf_Resume
begin

text \<open>
  Inspecting and editing the state of a thread, \<open>graph/compiled/state_api.rs\<close>: snapshots,
  history, manual updates attributed to a node, and forks.
\<close>

section \<open>Reading\<close>

record 's state_snapshot =
  ss_values :: 's
  ss_next_nodes :: "string list"
  ss_tasks :: "string list"
  ss_config :: checkpoint_config
  ss_metadata :: checkpoint_metadata
  ss_parent_config :: "checkpoint_config option"
  ss_pending_interrupts :: "interrupt list"

definition snapshot_from_tuple :: "'s checkpoint_tuple \<Rightarrow> 's state_snapshot" where
  "snapshot_from_tuple t =
    \<lparr>ss_values = ck_state (tp_checkpoint t), ss_next_nodes = ck_next_nodes (tp_checkpoint t),
     ss_tasks = ck_next_nodes (tp_checkpoint t), ss_config = tp_config t,
     ss_metadata = to_metadata (tp_checkpoint t), ss_parent_config = tp_parent_config t,
     ss_pending_interrupts = ck_interrupts (tp_checkpoint t)\<rparr>"

definition no_checkpointer :: graph_error where
  "no_checkpointer = CheckpointErr ''no checkpointer configured''"

definition config_for :: "('s, 'u) compiled_graph \<Rightarrow> string \<Rightarrow> string option \<Rightarrow> checkpoint_config" where
  "config_for c th cid = \<lparr>cfg_thread_id = th, cfg_checkpoint_id = cid, cfg_namespace = cg_namespace c\<rparr>"

definition get_state ::
  "('st, 's) checkpointer \<Rightarrow> ('s, 'u) compiled_graph \<Rightarrow> 'st \<Rightarrow> string \<Rightarrow> string option \<Rightarrow>
    graph_error + 's state_snapshot option" where
  "get_state cp c st th cid =
    (if \<not> cg_checkpointer c then Inl no_checkpointer
     else map_sum id (map_option snapshot_from_tuple) (get_tuple cp st (config_for c th cid)))"

text \<open>\<open>None\<close> would be a walk that does not return.\<close>

definition get_state_history ::
  "('st, 's) checkpointer \<Rightarrow> ('s, 'u) compiled_graph \<Rightarrow> 'st \<Rightarrow> string \<Rightarrow> nat option \<Rightarrow>
    (graph_error + 's state_snapshot list) option" where
  "get_state_history cp c st th limit =
    (if \<not> cg_checkpointer c then Some (Inl no_checkpointer)
     else map_option (map_sum id (map snapshot_from_tuple)) (state_history cp st th (cg_namespace c) limit))"

section \<open>Manual updates\<close>

text \<open>One routed target of the attributed node.\<close>

definition schedule_target ::
  "('s, 'u) compiled_graph \<Rightarrow> string \<Rightarrow> route_target \<Rightarrow> activation list \<times> string set \<times> arrivals \<Rightarrow>
    activation list \<times> string set \<times> arrivals" where
  "schedule_target c n t = (\<lambda>(merged, seen, arr).
    let tnode = target_node t; arg = target_send_arg t;
        add = (\<lambda>arr. if arg \<noteq> None
           then (merged @ [\<lparr>act_node = tnode, act_send_arg = arg, act_task_id = []\<rparr>], seen, arr)
           else if tnode \<in> seen then (merged, seen, arr)
           else (merged @ [\<lparr>act_node = tnode, act_send_arg = None, act_task_id = []\<rparr>], insert tnode seen, arr))
    in if tnode = END then (merged, seen, arr)
       else (case bt_get tnode (cg_waiting c) of
           None \<Rightarrow> add arr
         | Some required \<Rightarrow>
             let arrived = hs_insert n (arrived_at tnode arr); arr' = hm_insert tnode arrived arr
             in if \<not> set required \<subseteq> set arrived then (merged, seen, arr')
                else add (bt_remove tnode arr')))"

definition still_pending :: "string \<Rightarrow> 's checkpoint \<Rightarrow> activation list" where
  "still_pending n base = (case ck_pending_activations base of
     Some ps \<Rightarrow> if ps \<noteq> [] then filter (\<lambda>a. act_node a \<noteq> n) (map from_pending ps)
       else map activation_node (filter (\<lambda>m. m \<noteq> n) (ck_next_nodes base))
   | None \<Rightarrow> map activation_node (filter (\<lambda>m. m \<noteq> n) (ck_next_nodes base)))"

text \<open>The schedule after a write attributed to \<open>n\<close>: what was pending without \<open>n\<close>, then \<open>n\<close>'s
  successors.\<close>

definition reschedule ::
  "('s, 'u) compiled_graph \<Rightarrow> string \<Rightarrow> 's \<Rightarrow> 's checkpoint \<Rightarrow>
    graph_error + string list \<times> pending_activation list option \<times> arrivals" where
  "reschedule c n s base =
    (let merged = still_pending n base;
         seen = act_node ` set (filter (\<lambda>a. act_send_arg a = None) merged);
         arr = barriers_from_persisted (ck_barrier_arrivals base)
     in case route c n None s of
          Inl e \<Rightarrow> Inl e
        | Inr ts \<Rightarrow>
            (case fold (schedule_target c n) ts (merged, seen, arr) of
               (acts, _, arr') \<Rightarrow>
                 Inr (activation_nodes acts, if acts = [] then None else Some (map to_pending acts), arr')))"

definition update_state ::
  "('st, 's) checkpointer \<Rightarrow> ('s, 'u) compiled_graph \<Rightarrow> runtime \<Rightarrow> string \<Rightarrow> 'u \<Rightarrow> string option \<Rightarrow>
    'st world \<Rightarrow> (graph_error + checkpoint_config) \<times> 'st world" where
  "update_state cp c rt th u as_node w =
    (if \<not> cg_checkpointer c then (Inl no_checkpointer, w)
     else if (case as_node of Some n \<Rightarrow> bt_get n (cg_nodes c) = None | None \<Rightarrow> False)
     then (Inl (MissingNode (the as_node)), w)
     else if (case as_node of Some n \<Rightarrow> n \<in> set (cg_command_nodes c) | None \<Rightarrow> False)
     then (Inl (GraphErr (''cannot update state as node `'' @ the as_node
       @ ''`: it routes dynamically via Command and has no static successors, so the resulting checkpoint would be non-resumable'')), w)
     else (case get_scoped cp (w_store w) th None (cg_namespace c) of
         Inl e \<Rightarrow> (Inl e, w)
       | Inr None \<Rightarrow> (Inl (CheckpointErr (''cannot update state: no checkpoint exists for thread `'' @ th @ ''`'')), w)
       | Inr (Some base) \<Rightarrow>
           (case cg_reducer c (ck_state base) u of
              Inl e \<Rightarrow> (Inl e, w)
            | Inr s \<Rightarrow>
                (case (case as_node of
                         Some n \<Rightarrow> reschedule c n s base
                       | None \<Rightarrow> Inr (ck_next_nodes base, ck_pending_activations base,
                           barriers_from_persisted (ck_barrier_arrivals base))) of
                   Inl e \<Rightarrow> (Inl e, w)
                 | Inr (next_nodes, pending, arr) \<Rightarrow>
                     let (i, w1) = new_checkpoint_id rt w;
                         ck = \<lparr>ck_thread_id = th, ck_id = i, ck_run_id = None, ck_parent = Some (ck_id base),
                           ck_namespace = cg_namespace c, ck_state = s, ck_next_nodes = next_nodes,
                           ck_completed_tasks = (case as_node of Some n \<Rightarrow> [n] | None \<Rightarrow> []),
                           ck_pending_writes = [], ck_interrupts = [], ck_pending_activations = pending,
                           ck_barrier_arrivals = barriers_to_persisted arr,
                           ck_metadata = jobj [(''source'', JString ''update''),
                             (''step'', JNumber (PosInt (md_step (to_metadata base) + 1)))]\<rparr>
                     in case cp_put cp ck (w_store w1) of
                          (Inl e, st) \<Rightarrow> (Inl e, w1\<lparr>w_store := st\<rparr>)
                        | (Inr _, st) \<Rightarrow> (Inr (config_for c th (Some i)), w1\<lparr>w_store := st\<rparr>)))))"

fun bulk_loop ::
  "('st, 's) checkpointer \<Rightarrow> ('s, 'u) compiled_graph \<Rightarrow> runtime \<Rightarrow> string \<Rightarrow> ('u \<times> string option) list \<Rightarrow>
    checkpoint_config option \<Rightarrow> 'st world \<Rightarrow> (graph_error + checkpoint_config option) \<times> 'st world" where
  "bulk_loop cp c rt th [] prev w = (Inr prev, w)"
| "bulk_loop cp c rt th ((u, n) # us) prev w =
    (case update_state cp c rt th u n w of
       (Inl e, w') \<Rightarrow> (Inl e, w')
     | (Inr conf, w') \<Rightarrow> bulk_loop cp c rt th us (Some conf) w')"

definition bulk_update_state ::
  "('st, 's) checkpointer \<Rightarrow> ('s, 'u) compiled_graph \<Rightarrow> runtime \<Rightarrow> string \<Rightarrow> ('u \<times> string option) list \<Rightarrow>
    'st world \<Rightarrow> (graph_error + checkpoint_config) \<times> 'st world" where
  "bulk_update_state cp c rt th us w = (case bulk_loop cp c rt th us None w of
     (Inl e, w') \<Rightarrow> (Inl e, w')
   | (Inr None, w') \<Rightarrow> (Inl (CheckpointErr ''bulk_update_state received no updates''), w')
   | (Inr (Some conf), w') \<Rightarrow> (Inr conf, w'))"

section \<open>Forks\<close>

definition fork_state ::
  "('st, 's) checkpointer \<Rightarrow> ('s, 'u) compiled_graph \<Rightarrow> runtime \<Rightarrow> string \<Rightarrow> string option \<Rightarrow> string \<Rightarrow>
    'st world \<Rightarrow> (graph_error + checkpoint_config) \<times> 'st world" where
  "fork_state cp c rt src cid tgt w =
    (if \<not> cg_checkpointer c then (Inl no_checkpointer, w)
     else (case get_scoped cp (w_store w) src cid (cg_namespace c) of
         Inl e \<Rightarrow> (Inl e, w)
       | Inr None \<Rightarrow> (Inl (CheckpointErr (''cannot fork: no checkpoint found for thread `'' @ src @ ''`'')), w)
       | Inr (Some source) \<Rightarrow>
           let (i, w1) = new_checkpoint_id rt w;
               forked = source\<lparr>ck_thread_id := tgt, ck_id := i, ck_run_id := None, ck_parent := None,
                 ck_metadata := jobj [(''source'', JString ''fork''),
                   (''step'', JNumber (PosInt (md_step (to_metadata source))))]\<rparr>
           in case cp_put cp forked (w_store w1) of
                (Inl e, st) \<Rightarrow> (Inl e, w1\<lparr>w_store := st\<rparr>)
              | (Inr _, st) \<Rightarrow> (Inr (config_for c tgt (Some i)), w1\<lparr>w_store := st\<rparr>)))"

section \<open>What an edit keeps\<close>

lemma mem_put_scoped:
  assumes "mem_inv st" "cp_put in_memory ck st = (r, st')"
  shows "mem_inv st'" "mem_ledger st' = mem_ledger st" "r = Inr (ck_id ck)"
    "mem_records st' = (mem_records st)(ck_thread_id ck := mem_records st (ck_thread_id ck) @ [ck])"
    "get_scoped in_memory st' (ck_thread_id ck) None (ck_namespace ck) = Inr (Some ck)"
proof -
  obtain st1 where p: "cp_put in_memory ck st = (Inr (ck_id ck), st1)" "mem_inv st1"
    "mem_records st1 = (mem_records st)(ck_thread_id ck := mem_records st (ck_thread_id ck) @ [ck])"
    "mem_ledger st1 = mem_ledger st"
    using mem.put_ok [OF assms(1), of ck] by blast
  with assms(2) have eq: "st' = st1" "r = Inr (ck_id ck)" by simp_all
  with p show "mem_inv st'" "mem_ledger st' = mem_ledger st" "r = Inr (ck_id ck)"
    "mem_records st' = (mem_records st)(ck_thread_id ck := mem_records st (ck_thread_id ck) @ [ck])" by simp_all
  then show "get_scoped in_memory st' (ck_thread_id ck) None (ck_namespace ck) = Inr (Some ck)"
    by (simp add: mem.get_scoped_eq log_scoped_def)
qed

text \<open>A fork adds one root record to the target thread and leaves every
  other thread alone; resuming the target starts from the state, the pending activations and the
  barrier progress of the forked checkpoint.\<close>

theorem fork_is_resumable_copy:
  assumes "cg_checkpointer c" "world_ok rt w"
    "get_scoped in_memory (w_store w) src cid (cg_namespace c) = Inr (Some source)"
    "ck_namespace source = cg_namespace c" "pending_of source \<noteq> []"
    "fork_state in_memory c rt src cid tgt w = (r, w')"
  shows "\<exists>forked rp. r = Inr (config_for c tgt (Some (ck_id forked))) \<and> ck_parent forked = None
    \<and> mem_records (w_store w') = (mem_records (w_store w))(tgt := mem_records (w_store w) tgt @ [forked])
    \<and> prepare_resume in_memory c (w_store w') tgt Latest cmd = Inr rp
    \<and> rp_state rp = ck_state source \<and> rp_parent rp = ck_id forked
    \<and> rp_active rp = drop_done (pw_task_id ` set (ck_pending_writes source)) (pending_of source)
    \<and> rp_barriers rp = barriers_from_persisted (ck_barrier_arrivals source)"
proof -
  let ?f = "source\<lparr>ck_thread_id := tgt, ck_id := ckpt_id rt (w_seq w), ck_run_id := None, ck_parent := None,
     ck_metadata := jobj [(''source'', JString ''fork''), (''step'', JNumber (PosInt (md_step (to_metadata source))))]\<rparr>"
  have ok: "mem_inv (w_store w)" "mem_ledger (w_store w) (tgt, cg_namespace c, ckpt_id rt (w_seq w)) = []"
    using assms(2) by (simp_all add: world_ok_def)
  obtain r1 st where p: "cp_put in_memory ?f (w_store w) = (r1, st)" by fastforce
  note put = mem_put_scoped [OF ok(1) p]
  have w': "w_store w' = st" "r = Inr (config_for c tgt (Some (ckpt_id rt (w_seq w))))"
    using assms(1,3,6) p put(3) by (auto simp: fork_state_def new_checkpoint_id_eq)
  have pend: "pending_of ?f = pending_of source" by (simp add: pending_of_def split: option.split)
  have writes: "cp_get_writes in_memory st \<lparr>cfg_thread_id = tgt, cfg_checkpoint_id = Some (ckpt_id rt (w_seq w)),
      cfg_namespace = cg_namespace c\<rparr> = Inr []"
    using put(2) ok(2) by (simp add: mem.get_writes_eq [OF put(1), where i = "ckpt_id rt (w_seq w)"])
  from put(4,5) assms(1,4,5) w' pend writes show ?thesis
    by (intro exI [of _ ?f]) (simp add: prepare_resume_def Let_def)
qed

section \<open>Where an edit differs from a run\<close>

text \<open>\<open>x\<close> re-enters the barrier \<open>j\<close>, whose predecessors are \<open>b\<close> and \<open>d\<close>.\<close>

definition rejoin_builder :: "(json, json) graph_builder" where
  "rejoin_builder = add_edge ''x'' ''j'' (add_node ''x'' sample_handler diamond_builder)"

definition rejoin :: "(json, json) compiled_graph" where
  "rejoin = with_checkpointer (from_parts rejoin_builder ''a'' overwrite_reduce)"

definition at_x :: "json checkpoint" where
  "at_x = (ck_sample ''t'' ''k0'' None [])\<lparr>ck_next_nodes := [''x''],
     ck_pending_activations := Some [to_pending (plain ''x'')]\<rparr>"

definition x_world :: "json mem_store world" where
  "x_world = \<lparr>w_store = snd (mem_put at_x mem_new), w_seq = 1\<rparr>"


text \<open>A pause at \<open>a\<close> with the successor \<open>b\<close> of a finished branch also pending.\<close>

definition at_pause :: "json checkpoint" where
  "at_pause = (ck_sample ''t'' ''k0'' None [])\<lparr>ck_next_nodes := [''b'', ''a''],
     ck_pending_activations := Some [to_pending (plain ''b''), to_pending (plain ''a'')],
     ck_interrupts := [\<lparr>interrupt_id = ''ask'', interrupt_node = ''a'', interrupt_payload = JNull\<rparr>],
     ck_metadata := jobj [(''source'', JString ''loop''), (''interrupted_nodes'', JArray [JString ''a''])]\<rparr>"

definition pause_world :: "json mem_store world" where
  "pause_world = \<lparr>w_store = snd (mem_put at_pause mem_new), w_seq = 1\<rparr>"

text \<open>A resume value is meant for the nodes that interrupted.  An
  unattributed \<open>update_state\<close> at a pause drops the record of which nodes those are, and the
  next resume hands the value to every pending node.\<close>

theorem edit_spreads_resume_value:
  "(case prepare_resume in_memory gated (w_store pause_world) ''t'' Latest (command_resume (JBool True)) of
      Inr rp \<Rightarrow> rp_resume rp ''a'' = Some (JBool True) \<and> rp_resume rp ''b'' = None | _ \<Rightarrow> False)
    \<and> (case prepare_resume in_memory gated
           (w_store (snd (update_state in_memory gated demo_rt ''t'' JNull None pause_world))) ''t'' Latest
           (command_resume (JBool True)) of
         Inr rp \<Rightarrow> activation_nodes (rp_active rp) = [''b'', ''a''] \<and> rp_resume rp ''b'' = Some (JBool True)
       | _ \<Rightarrow> False)"
  by (intro conjI; code_simp)

theorem fork_is_resumable_copy_witness:
  "\<exists>rp. prepare_resume in_memory rejoin
      (w_store (snd (fork_state in_memory rejoin demo_rt ''t'' None ''u'' x_world))) ''u'' Latest command_new = Inr rp
    \<and> rp_state rp = JNull \<and> rp_active rp = [plain ''x'']"
proof -
  have "cg_checkpointer rejoin" by (simp add: rejoin_def with_checkpointer_def)
  moreover have ns: "cg_namespace rejoin = []"
    by (simp add: rejoin_def with_checkpointer_def from_parts_def)
  moreover have "world_ok demo_rt x_world"
    by (auto simp: world_ok_def x_world_def mem_put_def mem_new_def mem_inv_def mem_records_def mem_ledger_def
        at_x_def ck_sample_def ckpt_id_def hm_wf_def bt_keys_def)
  moreover have "get_scoped in_memory (w_store x_world) ''t'' None [] = Inr (Some at_x)"
    by (simp add: get_scoped_def in_memory_def x_world_def mem_put_def mem_new_def mem_list_def mem_get_def
        mem_records_def at_x_def ck_sample_def to_metadata_def rfind_def)
  moreover have "ck_namespace at_x = []" "pending_of at_x = [plain ''x'']" "ck_pending_writes at_x = []"
    "ck_state at_x = JNull"
    by (simp_all add: at_x_def ck_sample_def pending_of_def)
  ultimately show ?thesis
    using fork_is_resumable_copy [OF _ _ _ _ _ prod.collapse [symmetric], where c = rejoin and rt = demo_rt and
        w = x_world and src = "''t''" and cid = None and source = at_x and tgt = "''u''" and cmd = command_new]
    by (auto simp: drop_done_def)
qed

end
