(* ===== verification/Tf_Admission.thy ===== *)
theory Tf_Admission
  imports Tf_Exec
begin

text \<open>
  The bounded window of \<open>run_active_parallel\<close> (\<open>graph/compiled/executor/node_execution.rs\<close>): which
  branches are in flight, under the graph-wide limit and the per-node caps, and in which slot
  the result of a branch ends up.  The futures are named by their branch, and a slot holds the
  branch whose result was stored there.

  \<open>select_all\<close> of the futures library is not part of the source.  It reports the position of
  the future that completed and returns the others; its documentation gives no guarantee on
  their order.  It appears as the relation \<open>keep k xs rest\<close>: position \<open>k\<close> of \<open>xs\<close> completed and
  \<open>rest\<close> is left.
\<close>

section \<open>Model\<close>

record admission =
  am_queue :: "nat list"
  am_running :: "nat list"
  am_index :: "nat list"
  am_counts :: "string \<Rightarrow> nat"
  am_slots :: "nat \<Rightarrow> nat option"

fun caps_exceeded :: "('s, 'u) compiled_graph \<Rightarrow> activation list \<Rightarrow> (string \<Rightarrow> nat) \<Rightarrow> bool" where
  "caps_exceeded c [] counts = False"
| "caps_exceeded c (a # as) counts =
    (let n = counts (act_node a) + 1
     in (case cg_node_concurrency c (act_node a) of Some cap \<Rightarrow> cap < n | None \<Rightarrow> False)
        \<or> caps_exceeded c as (counts(act_node a := n)))"

definition window_binds :: "('s, 'u) compiled_graph \<Rightarrow> activation list \<Rightarrow> bool" where
  "window_binds c active \<longleftrightarrow>
    (case cg_max_concurrency c of Some limit \<Rightarrow> limit < length active | None \<Rightarrow> False)
    \<or> caps_exceeded c active (\<lambda>_. 0)"

definition window_limit :: "('s, 'u) compiled_graph \<Rightarrow> activation list \<Rightarrow> nat" where
  "window_limit c active =
    max (case cg_max_concurrency c of Some limit \<Rightarrow> limit | None \<Rightarrow> length active) 1"

definition may_start :: "('s, 'u) compiled_graph \<Rightarrow> activation list \<Rightarrow> admission \<Rightarrow> nat \<Rightarrow> bool" where
  "may_start c active st i \<longleftrightarrow> (case cg_node_concurrency c (act_node (active ! i)) of
     None \<Rightarrow> True | Some cap \<Rightarrow> am_counts st (act_node (active ! i)) < cap)"

definition start_branch :: "activation list \<Rightarrow> nat \<Rightarrow> admission \<Rightarrow> admission" where
  "start_branch active i st = (let n = act_node (active ! i) in
    st\<lparr>am_queue := remove1 i (am_queue st), am_counts := (am_counts st)(n := am_counts st n + 1),
       am_running := am_running st @ [i], am_index := am_index st @ [i]\<rparr>)"

function admit :: "('s, 'u) compiled_graph \<Rightarrow> activation list \<Rightarrow> admission \<Rightarrow> admission" where
  "admit c active st =
    (if length (am_running st) < window_limit c active
     then (case find (may_start c active st) (am_queue st) of
         None \<Rightarrow> st
       | Some i \<Rightarrow> admit c active (start_branch active i st))
     else st)"
  by auto
termination
proof (relation "measure (\<lambda>(c, active, st). length (am_queue st))", goal_cases)
  case (2 c active st i)
  then have "i \<in> set (am_queue st)" by (auto simp: find_Some_iff)
  then show ?case by (auto simp: start_branch_def Let_def length_remove1 dest: length_pos_if_in_set)
qed simp

declare admit.simps [simp del]

definition finish_branch :: "activation list \<Rightarrow> nat \<Rightarrow> nat list \<Rightarrow> admission \<Rightarrow> admission" where
  "finish_branch active k rest st = (let i = am_index st ! k; n = act_node (active ! i) in
    st\<lparr>am_index := take k (am_index st) @ drop (Suc k) (am_index st),
       am_counts := (am_counts st)(n := am_counts st n - 1),
       am_slots := (am_slots st)(i \<mapsto> am_running st ! k), am_running := rest\<rparr>)"

definition window_start :: "activation list \<Rightarrow> admission" where
  "window_start active = \<lparr>am_queue = [0..<length active], am_running = [], am_index = [],
     am_counts = (\<lambda>_. 0), am_slots = (\<lambda>_. None)\<rparr>"

inductive window ::
  "(nat \<Rightarrow> nat list \<Rightarrow> nat list \<Rightarrow> bool) \<Rightarrow> ('s, 'u) compiled_graph \<Rightarrow> activation list \<Rightarrow> admission \<Rightarrow> bool"
  for keep c active where
  opened: "window keep c active (admit c active (window_start active))"
| rolled: "window keep c active st \<Longrightarrow> k < length (am_running st) \<Longrightarrow> keep k (am_running st) rest \<Longrightarrow>
    window keep c active (admit c active (finish_branch active k rest st))"

definition any_order :: "nat \<Rightarrow> nat list \<Rightarrow> nat list \<Rightarrow> bool" where
  "any_order k xs rest \<longleftrightarrow> mset rest = mset xs - {# xs ! k #}"

definition in_order :: "nat \<Rightarrow> nat list \<Rightarrow> nat list \<Rightarrow> bool" where
  "in_order k xs rest \<longleftrightarrow> rest = take k xs @ drop (Suc k) xs"

section \<open>The window\<close>

definition on_node :: "activation list \<Rightarrow> string \<Rightarrow> nat list \<Rightarrow> nat list" where
  "on_node active n ixs = filter (\<lambda>i. act_node (active ! i) = n) ixs"

definition window_inv :: "('s, 'u) compiled_graph \<Rightarrow> activation list \<Rightarrow> admission \<Rightarrow> bool" where
  "window_inv c active st \<longleftrightarrow> length (am_running st) \<le> window_limit c active
    \<and> length (am_index st) = length (am_running st)
    \<and> distinct (am_index st @ am_queue st)
    \<and> set (am_index st) \<union> set (am_queue st) \<union> dom (am_slots st) = {..<length active}
    \<and> dom (am_slots st) \<inter> (set (am_index st) \<union> set (am_queue st)) = {}
    \<and> (\<forall>n. am_counts st n = length (on_node active n (am_index st)))
    \<and> (\<forall>n cap. cg_node_concurrency c n = Some cap \<longrightarrow> am_counts st n \<le> cap)"

lemma window_inv_start [simp]: "window_inv c active (window_start active)"
  by (auto simp: window_inv_def window_start_def on_node_def)

lemma window_inv_start_branch:
  assumes "window_inv c active st" "length (am_running st) < window_limit c active"
    "i \<in> set (am_queue st)" "may_start c active st i"
  shows "window_inv c active (start_branch active i st)"
  using assms
  by (auto simp: window_inv_def start_branch_def Let_def on_node_def may_start_def distinct_remove1
      split: option.splits)

lemma window_inv_admit: "window_inv c active st \<Longrightarrow> window_inv c active (admit c active st)"
proof (induction c active st rule: admit.induct)
  case (1 c active st)
  show ?case
  proof (cases "length (am_running st) < window_limit c active")
    case True
    show ?thesis
    proof (cases "find (may_start c active st) (am_queue st)")
      case None
      with 1 True show ?thesis by (simp add: admit.simps)
    next
      case (Some i)
      then have "i \<in> set (am_queue st)" "may_start c active st i" by (auto simp: find_Some_iff)
      from window_inv_start_branch [OF "1.prems" True this] 1 True Some show ?thesis
        by (simp add: admit.simps [of c active st])
    qed
  qed (use 1 in \<open>simp add: admit.simps\<close>)
qed

lemma remove_nth:
  assumes "k < length xs" "distinct xs"
  shows "take k xs @ drop (Suc k) xs = remove1 (xs ! k) xs"
proof -
  have xs: "xs = take k xs @ xs ! k # drop (Suc k) xs" using assms(1) by (rule id_take_nth_drop)
  then have "xs ! k \<notin> set (take k xs)"
    using assms(2) by (metis distinct_append disjoint_insert(1) list.simps(15))
  then show ?thesis by (metis remove1.simps(2) remove1_append xs)
qed

lemma window_inv_finish:
  assumes "window_inv c active st" "k < length (am_running st)" "any_order k (am_running st) rest"
  shows "window_inv c active (finish_branch active k rest st)"
proof -
  let ?i = "am_index st ! k"
  have k: "k < length (am_index st)" and d: "distinct (am_index st @ am_queue st)"
    using assms(1,2) by (simp_all add: window_inv_def)
  from k have i1: "?i \<in> set (am_index st)" by (rule nth_mem)
  moreover have "set (am_index st) \<inter> set (am_queue st) = {}" using d by simp
  ultimately have i: "?i \<in> set (am_index st)" "?i \<notin> set (am_queue st)" by blast+
  have ix: "take k (am_index st) @ drop (Suc k) (am_index st) = remove1 ?i (am_index st)"
    using remove_nth [OF k] d by simp
  have len: "length rest = length (am_running st) - 1"
    using assms(2,3) mset_eq_length [of rest "remove1 (am_running st ! k) (am_running st)"]
    by (simp add: any_order_def length_remove1)
  have filt: "length (on_node active n (remove1 ?i (am_index st))) =
      length (on_node active n (am_index st)) - (if act_node (active ! ?i) = n then 1 else 0)" for n
    using d i(1) by (simp add: on_node_def filter_remove1 length_remove1 remove1_idem)
  note inv = assms(1) [unfolded window_inv_def]
  let ?n = "act_node (active ! ?i)"
  have "length rest \<le> window_limit c active" using inv len by linarith
  moreover have "length (remove1 ?i (am_index st)) = length rest" using inv len i(1) by (simp add: length_remove1)
  moreover have "distinct (remove1 ?i (am_index st) @ am_queue st)" using d by (auto simp: distinct_remove1)
  moreover have "set (remove1 ?i (am_index st)) \<union> set (am_queue st) \<union> insert ?i (dom (am_slots st)) = {..<length active}"
    using inv i d by auto
  moreover have "insert ?i (dom (am_slots st)) \<inter> (set (remove1 ?i (am_index st)) \<union> set (am_queue st)) = {}"
    using inv i d by auto
  moreover have "\<forall>n. ((am_counts st)(?n := am_counts st ?n - 1)) n = length (on_node active n (remove1 ?i (am_index st)))"
    using inv filt by simp
  moreover have "\<forall>n cap. cg_node_concurrency c n = Some cap \<longrightarrow> ((am_counts st)(?n := am_counts st ?n - 1)) n \<le> cap"
    using inv by (auto intro: le_trans [OF diff_le_self])
  ultimately show ?thesis
    by (simp add: window_inv_def finish_branch_def Let_def ix)
qed

lemma window_inv_reached:
  "window keep c active st \<Longrightarrow> (\<And>k xs rest. keep k xs rest \<Longrightarrow> k < length xs \<Longrightarrow> any_order k xs rest) \<Longrightarrow>
    window_inv c active st"
proof (induction rule: window.induct)
  case (rolled st k rest)
  then show ?case using window_inv_admit window_inv_finish by blast
qed (simp add: window_inv_admit)

text \<open>Admission stops only at the limit or when every queued branch is held by its cap.\<close>

lemma admit_stops:
  "length (am_running (admit c active st)) < window_limit c active \<Longrightarrow>
    find (may_start c active (admit c active st)) (am_queue (admit c active st)) = None"
proof (induction c active st rule: admit.induct)
  case (1 c active st)
  show ?case
  proof (cases "length (am_running st) < window_limit c active \<and> find (may_start c active st) (am_queue st) \<noteq> None")
    case True
    then obtain i where "find (may_start c active st) (am_queue st) = Some i" by auto
    with True 1 show ?thesis by (simp add: admit.simps [of c active st])
  next
    case False
    then have "admit c active st = st" by (auto simp: admit.simps)
    with False "1.prems" show ?thesis by auto
  qed
qed

lemma window_stops:
  "window keep c active st \<Longrightarrow> length (am_running st) < window_limit c active \<Longrightarrow>
    find (may_start c active st) (am_queue st) = None"
  by (induction rule: window.induct) (simp_all add: admit_stops)

definition caps_positive :: "('s, 'u) compiled_graph \<Rightarrow> bool" where
  "caps_positive c \<longleftrightarrow> (\<forall>n. cg_node_concurrency c n \<noteq> Some 0)"

text \<open>C30 (window_completes): whatever order the branches finish in, the window never has more than
  the limit in flight, and when nothing is in flight any more no branch is left in the queue
  and every slot holds a result: the executor neither deadlocks nor misses a slot.\<close>

theorem window_completes:
  assumes "caps_positive c" "window any_order c active st"
  shows "length (am_running st) \<le> window_limit c active
    \<and> (am_running st = [] \<longrightarrow> am_queue st = [] \<and> dom (am_slots st) = {..<length active})"
proof -
  have inv: "window_inv c active st" using window_inv_reached [OF assms(2)] by blast
  have "am_queue st = []" if "am_running st = []"
  proof -
    have ix: "am_index st = []" using inv that by (simp add: window_inv_def)
    have "may_start c active st i" for i
      using inv ix assms(1) by (auto simp: may_start_def window_inv_def on_node_def caps_positive_def
          split: option.split intro: gr0I)
    moreover have "0 < window_limit c active" by (simp add: window_limit_def)
    ultimately show ?thesis using window_stops [OF assms(2)] that
      by (cases "am_queue st") (simp_all add: find_None_iff)
  qed
  with inv show ?thesis by (auto simp: window_inv_def)
qed

section \<open>Which result is in which slot\<close>

definition in_place :: "admission \<Rightarrow> bool" where
  "in_place st \<longleftrightarrow> am_index st = am_running st \<and> (\<forall>i j. am_slots st i = Some j \<longrightarrow> j = i)"

lemma in_place_admit: "in_place st \<Longrightarrow> in_place (admit c active st)"
proof (induction c active st rule: admit.induct)
  case (1 c active st)
  then show ?case
    by (auto simp: admit.simps [of c active st] in_place_def start_branch_def Let_def split: option.split)
qed

lemma in_order_any: "k < length xs \<Longrightarrow> in_order k xs rest \<Longrightarrow> any_order k xs rest"
  by (simp add: in_order_def any_order_def) (metis add_mset_remove_trivial id_take_nth_drop mset.simps(2) mset_append union_mset_add_mset_right)

text \<open>If the futures that are left keep their order, every result is stored
  in the slot of its own branch, and no node has more activations in flight than its cap.\<close>

theorem window_in_order:
  assumes "window in_order c active st"
  shows "(\<forall>i j. am_slots st i = Some j \<longrightarrow> j = i)
    \<and> (\<forall>n cap. cg_node_concurrency c n = Some cap \<longrightarrow> length (on_node active n (am_running st)) \<le> cap)"
proof -
  have "in_place st"
    using assms
  proof (induction rule: window.induct)
    case opened
    then show ?case by (intro in_place_admit) (simp add: in_place_def window_start_def)
  next
    case (rolled st k rest)
    then show ?case
      by (intro in_place_admit) (auto simp: in_place_def finish_branch_def Let_def in_order_def split: if_splits)
  qed
  moreover have "window_inv c active st" using window_inv_reached [OF assms] in_order_any by blast
  ultimately show ?thesis by (auto simp: in_place_def window_inv_def)
qed

text \<open>Four branches under a limit of three.\<close>

definition wide :: "(json, json) compiled_graph" where
  "wide = from_parts (with_max_concurrency 3 sample_builder) ''a'' overwrite_reduce"

definition four :: "activation list" where
  "four = [plain ''p'', plain ''q'', plain ''r'', plain ''s'']"

definition roll :: "nat \<Rightarrow> nat list \<Rightarrow> admission \<Rightarrow> admission" where
  "roll k rest st = admit wide four (finish_branch four k rest st)"

lemma rolled_to:
  "window keep wide four st \<Longrightarrow> am_running st = xs \<Longrightarrow> k < length xs \<Longrightarrow> keep k xs rest \<Longrightarrow>
    window keep wide four (roll k rest st)"
  unfolding roll_def by (rule rolled) simp_all

definition four_start :: admission where
  "four_start = admit wide four (window_start four)"

lemma four_started: "window keep wide four four_start"
  unfolding four_start_def by (rule opened)

lemma swap_running:
  "am_running four_start = [0, 1, 2]"
  "am_running (roll 0 [2, 1] four_start) = [2, 1, 3]"
  "am_running (roll 0 [3, 1] (roll 0 [2, 1] four_start)) = [3, 1]"
  "am_running (roll 0 [1] (roll 0 [3, 1] (roll 0 [2, 1] four_start))) = [1]"
  by code_simp+

abbreviation swapped :: admission where
  "swapped \<equiv> roll 0 [] (roll 0 [1] (roll 0 [3, 1] (roll 0 [2, 1] four_start)))"

lemma swapped_reached: "window any_order wide four swapped"
  by (rule rolled_to [OF rolled_to [OF rolled_to [OF rolled_to [OF four_started swap_running(1)]
      swap_running(2)] swap_running(3)] swap_running(4)]) (simp_all add: any_order_def)


theorem window_completes_witness:
  "length (am_running swapped) \<le> 3 \<and> am_queue swapped = [] \<and> dom (am_slots swapped) = {..<4}"
proof -
  have "am_running swapped = []" by code_simp
  moreover have "caps_positive wide" "window_limit wide four = 3"
    by (simp_all add: caps_positive_def window_limit_def wide_def with_max_concurrency_def sample_simps from_parts_def)
  moreover have "length four = 4" by (simp add: four_def)
  ultimately show ?thesis using window_completes [OF _ swapped_reached] by simp
qed

theorem window_in_order_witness:
  "window in_order wide four (roll 0 [1, 2] four_start) \<and> am_slots (roll 0 [1, 2] four_start) 0 = Some 0"
proof -
  have w: "window in_order wide four (roll 0 [1, 2] four_start)"
    by (rule rolled_to [OF four_started swap_running(1)]) (simp_all add: in_order_def)
  moreover have "am_slots (roll 0 [1, 2] four_start) 0 \<noteq> None" by code_simp
  ultimately show ?thesis using window_in_order [OF w] by auto
qed

end
