(* ===== verification/Tf_State.thy ===== *)
theory Tf_State
  imports Tf_Model Tf_Command
begin

text \<open>
  The run state and its reducer: \<open>engine/state.rs\<close> (merge, lane slots and envelopes, input
  collection, activation stamps) and the update builders of \<open>engine/routing.rs\<close>
  (\<open>items_update\<close>, \<open>items_update_with_meta\<close>, \<open>error_item\<close>).  The run state is one JSON object
  with a \<open>nodes\<close> map of per-node slots.  The lemmas show that the reducer keeps values
  well-formed, that updates of different nodes commute, and that lanes of one node write
  disjoint slots.
\<close>

named_theorems state_simps \<open>lookups in merged run states\<close>

section \<open>The reducer\<close>

definition REPLACE :: string where
  "REPLACE = ''$replace''"

definition replace :: "json \<Rightarrow> json" where
  "replace v = jobj [(REPLACE, v)]"

text \<open>The sentinel test: exactly one key, and it is \<^const>\<open>REPLACE\<close>.\<close>

definition sentinel :: "jmap \<Rightarrow> json option" where
  "sentinel m = (if length m = 1 then bt_get REPLACE m else None)"

fun merge :: "json \<Rightarrow> json \<Rightarrow> json"
  and merge_entries :: "jmap \<Rightarrow> (string \<times> json) list \<Rightarrow> jmap" where
  "merge base (JObject u) =
    (case sentinel u of
       Some v \<Rightarrow> v
     | None \<Rightarrow> JObject (merge_entries (case base of JObject b \<Rightarrow> b | _ \<Rightarrow> []) u))"
| "merge base upd = upd"
| "merge_entries b [] = b"
| "merge_entries b ((k, v) # u) =
    merge_entries
      (bt_insert k (merge (case bt_get k b of None \<Rightarrow> JNull | Some old \<Rightarrow> old) v) b) u"

definition merge_reducer_apply :: "(json, json) reducer" where
  "merge_reducer_apply state upd = Inr (merge state upd)"

section \<open>Updates a node contributes\<close>

definition with_meta :: "json option \<Rightarrow> jmap \<Rightarrow> jmap" where
  "with_meta meta slot =
    (case meta of
       Some (JObject m) \<Rightarrow> fold (\<lambda>(k, v). bt_insert k v) m slot
     | _ \<Rightarrow> slot)"

definition port_value :: "string option \<Rightarrow> json" where
  "port_value p = (case p of None \<Rightarrow> JNull | Some s \<Rightarrow> JString s)"

text \<open>The shape \<open>{"nodes": {id: slot}}\<close> every node update has.\<close>

definition node_update :: "string \<Rightarrow> json \<Rightarrow> json" where
  "node_update i slot = jobj [(''nodes'', jobj [(i, slot)])]"

definition items_update_with_meta ::
  "string \<Rightarrow> item list \<Rightarrow> string option \<Rightarrow> json option \<Rightarrow> json" where
  "items_update_with_meta i its p meta =
    node_update i (JObject (with_meta meta
      (bt_insert ''port'' (port_value p) (bt_insert ''items'' (items_to_value its) []))))"

definition items_update :: "string \<Rightarrow> item list \<Rightarrow> string option \<Rightarrow> json" where
  "items_update i its p = items_update_with_meta i its p None"

definition error_item :: "string \<Rightarrow> string \<Rightarrow> item" where
  "error_item i msg =
    item_new (jobj [(''error'', jobj [(''message'', JString msg), (''node'', JString i)])])"

section \<open>Lanes\<close>

record lane_context =
  lane_id :: string
  lane_origin :: string
  lane_index :: "64 word"
  lane_count :: "64 word"

definition LANE_KEY :: string where
  "LANE_KEY = ''_lane''"

definition lane_items_update ::
  "string \<Rightarrow> lane_context \<Rightarrow> item list \<Rightarrow> string option \<Rightarrow> string \<Rightarrow> json option \<Rightarrow> json" where
  "lane_items_update i lane its p status meta =
    node_update i (jobj [(''lanes'', jobj [(lane_id lane, JObject (with_meta meta (bt_from_list
      [(''items'', items_to_value its), (''port'', port_value p), (''status'', JString status),
       (''index'', JNumber (PosInt (lane_index lane)))])))])])"

definition mk_lane_id :: "string \<Rightarrow> nat \<Rightarrow> string" where
  "mk_lane_id origin i = origin @ ''#'' @ show_nat i"

definition lane_envelope :: "string \<Rightarrow> nat \<Rightarrow> nat \<Rightarrow> item list \<Rightarrow> json" where
  "lane_envelope origin i lanes its =
    jobj [(LANE_KEY, jobj [(''id'', JString (mk_lane_id origin i)), (''origin'', JString origin),
                           (''index'', jnat i), (''count'', jnat lanes)]),
          (''items'', items_to_value its)]"

definition lane_input :: "json option \<Rightarrow> item list" where
  "lane_input send_arg =
    (case Option.bind (Option.bind send_arg (jget ''items'')) as_array of
       None \<Rightarrow> []
     | Some vs \<Rightarrow> items_from_values vs)"

definition lane_context_of :: "json option \<Rightarrow> lane_context option" where
  "lane_context_of send_arg =
    (case Option.bind send_arg (jget LANE_KEY) of
       None \<Rightarrow> None
     | Some lane \<Rightarrow>
        (case (Option.bind (jget ''id'' lane) as_str, Option.bind (jget ''origin'' lane) as_str,
               Option.bind (jget ''index'' lane) as_u64, Option.bind (jget ''count'' lane) as_u64) of
           (Some i, Some origin, Some ix, Some lanes) \<Rightarrow>
             Some \<lparr>lane_id = i, lane_origin = origin, lane_index = ix, lane_count = lanes\<rparr>
         | _ \<Rightarrow> None))"

section \<open>Input collection\<close>

definition node_slot :: "json \<Rightarrow> string \<Rightarrow> json option" where
  "node_slot state i = Option.bind (jget ''nodes'' state) (jget i)"

definition emitted_port :: "json option \<Rightarrow> string" where
  "emitted_port slot =
    (case Option.bind (Option.bind slot (jget ''port'')) as_str of None \<Rightarrow> ''main'' | Some p \<Rightarrow> p)"

definition stale :: "64 word option \<Rightarrow> json option \<Rightarrow> bool" where
  "stale min_step slot =
    (case min_step of
       None \<Rightarrow> False
     | Some minimum \<Rightarrow>
        (case Option.bind (Option.bind slot (jget ''_activation_step'')) as_u64 of
           None \<Rightarrow> True
         | Some step \<Rightarrow> step < minimum))"

definition slot_items :: "json option \<Rightarrow> item list" where
  "slot_items slot =
    (case Option.bind (Option.bind slot (jget ''items'')) as_array of
       None \<Rightarrow> []
     | Some vs \<Rightarrow> items_from_values vs)"

fun collect_input_since ::
  "json \<Rightarrow> (string \<times> string) list \<Rightarrow> 64 word option \<Rightarrow> item list" where
  "collect_input_since state [] min_step = []"
| "collect_input_since state ((pred, port) # incoming) min_step =
    (let slot = node_slot state pred in
     if stale min_step slot then collect_input_since state incoming min_step
     else if emitted_port slot \<noteq> port then collect_input_since state incoming min_step
     else slot_items slot @ collect_input_since state incoming min_step)"

definition collect_input :: "json \<Rightarrow> (string \<times> string) list \<Rightarrow> item list" where
  "collect_input state incoming = collect_input_since state incoming None"

definition stamp_activation_step :: "json \<Rightarrow> string \<Rightarrow> nat \<Rightarrow> json" where
  "stamp_activation_step upd i step =
    (case upd of
       JObject root \<Rightarrow>
         (case bt_get ''nodes'' root of
            Some (JObject ns) \<Rightarrow>
              (case bt_get i ns of
                 Some (JObject slot) \<Rightarrow>
                   JObject (bt_insert ''nodes''
                     (JObject (bt_insert i (JObject (bt_insert ''_activation_step'' (jnat step) slot)) ns))
                     root)
               | _ \<Rightarrow> upd)
          | _ \<Rightarrow> upd)
     | _ \<Rightarrow> upd)"

section \<open>Well-formedness\<close>

lemma sentinel_in: "sentinel u = Some v \<Longrightarrow> (REPLACE, v) \<in> set u"
  by (auto simp: sentinel_def split: if_splits dest: bt_get_Some_in_set)

lemma merge_wf:
  "json_wf base \<Longrightarrow> json_wf upd \<Longrightarrow> json_wf (merge base upd)"
  "json_wf (JObject b) \<Longrightarrow> (\<And>kv. kv \<in> set u \<Longrightarrow> json_wf (snd kv)) \<Longrightarrow>
     json_wf (JObject (merge_entries b u))"
proof (induction base upd and b u rule: merge_merge_entries.induct)
  case (1 base u)
  show ?case
  proof (cases "sentinel u")
    case None
    have "json_wf (JObject (case base of JObject b \<Rightarrow> b | _ \<Rightarrow> []))"
      using "1.prems"(1) by (cases base) auto
    with 1 None show ?thesis by simp
  next
    case (Some v)
    with "1.prems"(2) sentinel_in [OF Some] show ?thesis by force
  qed
next
  case (4 b k v u)
  have "json_wf (case bt_get k b of None \<Rightarrow> JNull | Some old \<Rightarrow> old)"
    using json_wf_bt_get [OF "4.prems"(1)] by (simp split: option.splits)
  moreover have "json_wf v" using "4.prems"(2) [of "(k, v)"] by simp
  ultimately have "json_wf (JObject (bt_insert k
      (merge (case bt_get k b of None \<Rightarrow> JNull | Some old \<Rightarrow> old) v) b))"
    using "4.prems"(1) "4.IH"(1) by (intro json_wf_insert)
  from "4.IH"(2) [OF this] "4.prems"(2) show ?case by simp
qed simp_all

section \<open>Where an update lands\<close>

definition obj_of :: "json \<Rightarrow> jmap" where
  "obj_of v = (case v of JObject m \<Rightarrow> m | _ \<Rightarrow> [])"

definition or_null :: "json option \<Rightarrow> json" where
  "or_null v = (case v of None \<Rightarrow> JNull | Some x \<Rightarrow> x)"

lemma obj_of_JObject [simp]: "obj_of (JObject m) = m"
  by (simp add: obj_of_def)

lemma jget_obj_of: "jget k v = bt_get k (obj_of v)"
  by (cases v) (simp_all add: obj_of_def)

lemma or_null_simps [simp]: "or_null None = JNull" "or_null (Some v) = v"
  by (simp_all add: or_null_def)

lemma obj_of_null [simp]: "obj_of JNull = []"
  by (simp add: obj_of_def)

lemma jobj_single [simp]: "jobj [(k, v)] = JObject [(k, v)]"
  by (simp add: jobj_def bt_from_list_def)

lemma bt_wf_obj_of: "json_wf v \<Longrightarrow> bt_wf (obj_of v)"
  by (cases v) (simp_all add: obj_of_def)

lemma json_wf_obj_of: "json_wf v \<Longrightarrow> json_wf (JObject (obj_of v))"
  by (cases v) (simp_all add: obj_of_def)

lemma json_wf_or_null: "json_wf v \<Longrightarrow> json_wf (or_null (jget k v))"
  by (cases "jget k v") (auto dest: json_wf_jget)

lemma sentinel_single [simp]: "sentinel [(k, v)] = (if k = REPLACE then Some v else None)"
  by (simp add: sentinel_def)

lemma merge_single:
  "k \<noteq> REPLACE \<Longrightarrow>
    merge base (JObject [(k, v)]) = JObject (bt_insert k (merge (or_null (jget k base)) v) (obj_of base))"
  by (cases base) (simp_all add: obj_of_def or_null_def split: option.splits)

lemma merge_sentinel: "merge base (JObject [(REPLACE, v)]) = v"
  by simp

lemma nodes_not_REPLACE [simp]:
  "''nodes'' \<noteq> REPLACE" "''lanes'' \<noteq> REPLACE" "REPLACE \<noteq> ''nodes''" "REPLACE \<noteq> ''lanes''"
  by (simp_all add: REPLACE_def)

declare merge.simps(1) [simp del]

definition nodes_of :: "json \<Rightarrow> jmap" where
  "nodes_of state = obj_of (or_null (jget ''nodes'' state))"

lemma node_slot_nodes_of: "node_slot state i = bt_get i (nodes_of state)"
  by (cases "jget ''nodes'' state") (simp_all add: node_slot_def nodes_of_def jget_obj_of)

lemma bt_wf_nodes_of: "json_wf state \<Longrightarrow> bt_wf (nodes_of state)"
  by (simp add: nodes_of_def bt_wf_obj_of json_wf_or_null)

lemma merge_node_update:
  assumes "i \<noteq> REPLACE"
  shows "merge state (node_update i slot) =
    JObject (bt_insert ''nodes''
      (JObject (bt_insert i (merge (or_null (node_slot state i)) slot) (nodes_of state)))
      (obj_of state))"
  using assms
  by (simp add: node_update_def merge_single nodes_of_def node_slot_nodes_of jget_obj_of)

lemma nodes_of_merge [state_simps]:
  "i \<noteq> REPLACE \<Longrightarrow> nodes_of (merge state (node_update i slot)) =
    bt_insert i (merge (or_null (node_slot state i)) slot) (nodes_of state)"
  by (simp add: merge_node_update nodes_of_def)

lemma node_slot_merge [state_simps]:
  "i \<noteq> REPLACE \<Longrightarrow> node_slot (merge state (node_update i slot)) j =
    (if j = i then Some (merge (or_null (node_slot state i)) slot) else node_slot state j)"
  by (simp add: node_slot_nodes_of nodes_of_merge)

section \<open>Updates along paths\<close>

text \<open>An update that is a chain of one-key objects writes one path of the state.  Two such
  updates whose paths part at some point commute.\<close>

fun path_update :: "string list \<Rightarrow> json \<Rightarrow> json" where
  "path_update [] v = v"
| "path_update (k # ks) v = JObject [(k, path_update ks v)]"

lemma node_update_path: "node_update i slot = path_update [''nodes'', i] slot"
  by (simp add: node_update_def)

lemma merge_same_key:
  "k \<noteq> REPLACE \<Longrightarrow> merge (merge state (JObject [(k, x)])) (JObject [(k, y)]) =
    JObject (bt_insert k (merge (merge (or_null (jget k state)) x) y) (obj_of state))"
  by (simp add: merge_single bt_insert_overwrite)

lemma merge_other_key:
  "k \<noteq> k' \<Longrightarrow> k \<noteq> REPLACE \<Longrightarrow> k' \<noteq> REPLACE \<Longrightarrow> json_wf state \<Longrightarrow>
    merge (merge state (JObject [(k, x)])) (JObject [(k', y)]) =
    merge (merge state (JObject [(k', y)])) (JObject [(k, x)])"
  by (simp add: merge_single jget_obj_of bt_insert_commute bt_wf_obj_of)

lemma merge_paths_commute:
  assumes "a \<noteq> b" "REPLACE \<notin> set (common @ [a, b])" "json_wf state"
  shows "merge (merge state (path_update (common @ a # p) u)) (path_update (common @ b # q) v)
       = merge (merge state (path_update (common @ b # q) v)) (path_update (common @ a # p) u)"
  using assms(2,3)
proof (induction common arbitrary: state)
  case Nil
  then have "a \<noteq> REPLACE" "b \<noteq> REPLACE" by auto
  with assms(1) Nil.prems(2) show ?case by (simp add: merge_other_key [of a b])
next
  case (Cons k ks)
  then have "k \<noteq> REPLACE" by auto
  with Cons show ?case by (simp add: merge_same_key json_wf_or_null)
qed

section \<open>Parallel nodes\<close>

lemma items_update_is_node_update:
  "\<exists>slot. items_update_with_meta i its p meta = node_update i slot"
  by (auto simp: items_update_with_meta_def)

text \<open>The updates two different nodes contribute in one
  super-step commute under the reducer, and each leaves every other node's slot untouched,
  provided neither node is called \<open>$replace\<close>.\<close>

theorem parallel_updates_commute:
  assumes "json_wf state" "i \<noteq> j" "i \<noteq> ''$replace''" "j \<noteq> ''$replace''"
  shows "merge (merge state (items_update_with_meta i its p meta))
             (items_update_with_meta j its' p' meta')
       = merge (merge state (items_update_with_meta j its' p' meta'))
             (items_update_with_meta i its p meta)
    \<and> (\<forall>k. k \<noteq> i \<longrightarrow>
        node_slot (merge state (items_update_with_meta i its p meta)) k = node_slot state k)"
proof -
  obtain a b where ab: "items_update_with_meta i its p meta = node_update i a"
    "items_update_with_meta j its' p' meta' = node_update j b"
    using items_update_is_node_update by metis
  have nr: "i \<noteq> REPLACE" "j \<noteq> REPLACE" using assms(3,4) by (simp_all add: REPLACE_def)
  have "merge (merge state (node_update i a)) (node_update j b)
      = merge (merge state (node_update j b)) (node_update i a)"
    using merge_paths_commute [of i j "[''nodes'']" state "[]" a "[]" b] assms(1,2) nr
    by (simp add: node_update_def)
  with nr show ?thesis unfolding ab by (simp add: node_slot_merge)
qed

theorem parallel_updates_commute_witness:
  "merge (merge (JObject []) (items_update_with_meta ''a'' [] None None))
       (items_update_with_meta ''b'' [] (Some ''true'') None)
   = merge (merge (JObject []) (items_update_with_meta ''b'' [] (Some ''true'') None))
       (items_update_with_meta ''a'' [] None None)"
  using parallel_updates_commute [of "JObject []" "''a''" "''b''" "[]" None None "[]" "Some ''true''" None]
  by simp

section \<open>Lanes of one node\<close>

text \<open>The reducer of the engine meets the contract of an order-independent fold on updates of
  pairwise different nodes.\<close>

definition slot_update :: "json \<Rightarrow> bool" where
  "slot_update u \<longleftrightarrow> json_wf u \<and> (\<exists>i slot. i \<noteq> REPLACE \<and> u = node_update i slot)"

definition other_slot :: "json \<Rightarrow> json \<Rightarrow> bool" where
  "other_slot u v \<longleftrightarrow> (\<exists>i a j b. i \<noteq> j \<and> u = node_update i a \<and> v = node_update j b)"

lemma node_update_inject [simp]: "node_update i a = node_update j b \<longleftrightarrow> i = j \<and> a = b"
  by (simp add: node_update_def)

interpretation mr: commuting_reducer merge_reducer_apply slot_update other_slot json_wf
proof
  show "\<exists>s'. merge_reducer_apply s u = Inr s' \<and> json_wf s'" if "json_wf s" "slot_update u" for s u
    using that merge_wf(1) by (auto simp: merge_reducer_apply_def slot_update_def)
  show "reduce_all merge_reducer_apply s [u, v] = reduce_all merge_reducer_apply s [v, u]"
    if "json_wf s" "slot_update u" "slot_update v" "other_slot u v" for s u v
    using that merge_paths_commute [of _ _ "[''nodes'']" s "[]" _ "[]"]
    by (auto simp: merge_reducer_apply_def slot_update_def other_slot_def node_update_def)
qed

lemma pairwise_other_slot:
  "distinct (map fst ups) \<Longrightarrow> pairwise other_slot ((\<lambda>(i, slot). node_update i slot) ` set ups)"
  unfolding pairwise_def other_slot_def
  by (auto simp: distinct_map inj_on_def) (metis fst_conv snd_conv)



lemma mk_lane_id_inject: "mk_lane_id o1 i = mk_lane_id o1 j \<longleftrightarrow> i = j"
  by (simp add: mk_lane_id_def)

lemma mk_lane_id_not_REPLACE: "mk_lane_id origin i \<noteq> REPLACE"
proof
  assume "mk_lane_id origin i = REPLACE"
  then have "CHR ''#'' \<in> set REPLACE" by (metis mk_lane_id_def in_set_conv_decomp append_Cons)
  then show False by (simp add: REPLACE_def)
qed

lemma lane_update_path:
  "\<exists>slot. lane_items_update i lane its p status meta
     = path_update [''nodes'', i, ''lanes'', lane_id lane] slot"
  by (auto simp: lane_items_update_def node_update_def)

lemma merge_lane_slot:
  assumes "i \<noteq> REPLACE" "l \<noteq> REPLACE"
  shows "node_slot (merge state (path_update [''nodes'', i, ''lanes'', l] x)) i =
    Some (JObject (bt_insert ''lanes''
      (JObject (bt_insert l (merge (or_null (jget l (or_null (jget ''lanes'' (or_null (node_slot state i)))))) x)
        (obj_of (or_null (jget ''lanes'' (or_null (node_slot state i)))))))
      (obj_of (or_null (node_slot state i)))))"
  using assms node_slot_merge [of i state "JObject [(''lanes'', JObject [(l, x)])]" i]
  by (simp add: node_update_def merge_single)

text \<open>Two lanes that one fan-out opened on the same node write
  collision-free slots: their updates commute, and neither touches the node's own \<open>items\<close> and
  \<open>port\<close>.\<close>

theorem lane_updates_disjoint:
  assumes "json_wf state" "n \<noteq> ''$replace''" "x \<noteq> y"
    and "lane_id l = mk_lane_id origin x" "lane_id l' = mk_lane_id origin y"
  shows "merge (merge state (lane_items_update n l its p st meta)) (lane_items_update n l' its' p' st' meta')
       = merge (merge state (lane_items_update n l' its' p' st' meta')) (lane_items_update n l its p st meta)
    \<and> Option.bind (node_slot (merge state (lane_items_update n l its p st meta)) n) (jget ''items'')
       = Option.bind (node_slot state n) (jget ''items'')
    \<and> Option.bind (node_slot (merge state (lane_items_update n l its p st meta)) n) (jget ''port'')
       = Option.bind (node_slot state n) (jget ''port'')"
proof -
  obtain a b where ab:
    "lane_items_update n l its p st meta = path_update [''nodes'', n, ''lanes'', lane_id l] a"
    "lane_items_update n l' its' p' st' meta' = path_update [''nodes'', n, ''lanes'', lane_id l'] b"
    using lane_update_path by metis
  have n: "n \<noteq> REPLACE" using assms(2) by (simp add: REPLACE_def)
  have neq: "lane_id l \<noteq> lane_id l'" using assms(3-5) by (simp add: mk_lane_id_inject)
  have nr: "lane_id l \<noteq> REPLACE" "lane_id l' \<noteq> REPLACE"
    using assms(4,5) mk_lane_id_not_REPLACE by simp_all
  have top: "jget k (or_null (node_slot state n)) = Option.bind (node_slot state n) (jget k)" for k
    by (cases "node_slot state n") (simp_all add: jget_obj_of)
  show ?thesis
    using merge_paths_commute [of "lane_id l" "lane_id l'" "[''nodes'', n, ''lanes'']" state "[]" a "[]" b]
      neq nr n assms(1)
    unfolding ab merge_lane_slot [OF n nr(1)] by (simp add: top [symmetric] jget_obj_of)
qed

theorem lane_updates_disjoint_witness:
  "merge (merge (JObject [])
      (lane_items_update ''w'' \<lparr>lane_id = mk_lane_id ''s'' 0, lane_origin = ''s'', lane_index = 0, lane_count = 2\<rparr>
         [] None ''ok'' None))
      (lane_items_update ''w'' \<lparr>lane_id = mk_lane_id ''s'' 1, lane_origin = ''s'', lane_index = 1, lane_count = 2\<rparr>
         [] None ''ok'' None)
   = merge (merge (JObject [])
      (lane_items_update ''w'' \<lparr>lane_id = mk_lane_id ''s'' 1, lane_origin = ''s'', lane_index = 1, lane_count = 2\<rparr>
         [] None ''ok'' None))
      (lane_items_update ''w'' \<lparr>lane_id = mk_lane_id ''s'' 0, lane_origin = ''s'', lane_index = 0, lane_count = 2\<rparr>
         [] None ''ok'' None)"
  by (rule lane_updates_disjoint [where origin = "''s''" and x = 0 and y = 1, THEN conjunct1]) simp_all

text \<open>The lane an activation decodes from its envelope, and the
  items it reads from it, are the ones the fan-out scheduled it with.\<close>

theorem lane_envelope_roundtrip:
  assumes "\<And>it. it \<in> set its \<Longrightarrow> item_ok it"
  shows "lane_input (Some (lane_envelope origin i lanes its)) = its
    \<and> lane_context_of (Some (lane_envelope origin i lanes its))
      = Some \<lparr>lane_id = mk_lane_id origin i, lane_origin = origin, lane_index = of_nat i,
              lane_count = of_nat lanes\<rparr>"
  using items_roundtrip [OF assms]
  by (simp add: lane_input_def lane_context_of_def lane_envelope_def jobj_def bt_from_list_def
      LANE_KEY_def items_to_value_def jnat_def)

theorem lane_envelope_roundtrip_witness:
  "lane_input (Some (lane_envelope ''s'' 1 2 [item_new (JString ''x'')])) = [item_new (JString ''x'')]"
  using lane_envelope_roundtrip [of "[item_new (JString ''x'')]" "''s''" 1 2]
  by (simp add: item_ok_def item_new_def)

section \<open>What successors read\<close>

lemma fold_insert_other:
  "k \<notin> fst ` set m \<Longrightarrow> bt_get k (fold (\<lambda>(k, v). bt_insert k v) m slot) = bt_get k slot"
  by (induction m arbitrary: slot) auto

lemma merge_object:
  "sentinel u = None \<Longrightarrow> merge base (JObject u) = JObject (merge_entries (obj_of base) u)"
  by (simp add: merge.simps(1) obj_of_def)

lemma merge_entries_get:
  assumes "distinct (bt_keys u)"
  shows "bt_get k (merge_entries b u) =
    (case bt_get k u of None \<Rightarrow> bt_get k b | Some v \<Rightarrow> Some (merge (or_null (bt_get k b)) v))"
  using assms
proof (induction u arbitrary: b)
  case (Cons kv u)
  obtain k' v where kv: "kv = (k', v)" by (cases kv)
  have "bt_get k' u = None" using Cons.prems by (simp add: kv bt_get_None_iff)
  with Cons show ?case by (auto simp: kv or_null_def split: option.split)
qed simp

lemma items_slot_get:
  "jget ''items'' (merge old (JObject (bt_insert ''port'' pv (bt_insert ''items'' (JArray vs) []))))
     = Some (JArray vs)"
  "jget ''port'' (merge old (JObject (bt_insert ''port'' (port_value p) (bt_insert ''items'' iv []))))
     = Some (port_value p)"
  by (cases p; simp add: merge_object sentinel_def merge_entries_get port_value_def)+

text \<open>After a node's update is merged, a successor wired to the
  port the node emitted on reads exactly the emitted items, and a successor wired to any other
  port reads nothing, whatever the slot held before.\<close>

theorem collect_what_was_emitted:
  assumes "i \<noteq> ''$replace''" "\<And>it. it \<in> set its \<Longrightarrow> item_ok it"
  shows "collect_input (merge state (items_update i its p)) [(i, q)] =
    (if q = (case p of None \<Rightarrow> ''main'' | Some port \<Rightarrow> port) then its else [])"
proof -
  have i: "i \<noteq> REPLACE" using assms(1) by (simp add: REPLACE_def)
  let ?slot = "merge (or_null (node_slot state i))
    (JObject (bt_insert ''port'' (port_value p) (bt_insert ''items'' (JArray (map item_to_value its)) [])))"
  have slot: "node_slot (merge state (items_update i its p)) i = Some ?slot"
    unfolding items_update_def items_update_with_meta_def with_meta_def
    by (simp add: node_slot_merge [OF i] items_to_value_def)
  have "slot_items (Some ?slot) = its"
    unfolding slot_items_def by (simp add: items_slot_get(1) items_roundtrip assms(2) del: bt_insert.simps)
  moreover have "emitted_port (Some ?slot) = (case p of None \<Rightarrow> ''main'' | Some port \<Rightarrow> port)"
    unfolding emitted_port_def
    by (simp add: items_slot_get(2) del: bt_insert.simps) (simp add: port_value_def split: option.splits)
  ultimately show ?thesis
    by (simp add: collect_input_def slot stale_def Let_def del: bt_insert.simps)
qed

theorem collect_what_was_emitted_witness:
  "collect_input (merge (JObject []) (items_update ''c'' [item_new JNull] (Some ''true'')))
     [(''c'', ''false'')] = []"
  using collect_what_was_emitted [of "''c''" "[item_new JNull]" "JObject []" "Some ''true''" "''false''"]
  by (simp add: item_ok_def item_new_def)

text \<open>A node whose id is \<open>$replace\<close> does not get a slot of its own:
  its update replaces the whole \<open>nodes\<close> map by that node's slot, so every other node's slot is
  lost unless the slot happens to have a key of that name.\<close>

theorem replace_node_erases:
  "node_slot (merge state (items_update ''$replace'' its p)) j =
    (if j = ''items'' then Some (items_to_value its)
     else if j = ''port'' then Some (port_value p) else None)"
proof -
  have eq: "items_update ''$replace'' its p = JObject [(''nodes'', JObject [(REPLACE,
      JObject (bt_insert ''port'' (port_value p) (bt_insert ''items'' (items_to_value its) [])))])]"
    by (simp add: items_update_def items_update_with_meta_def with_meta_def node_update_def REPLACE_def)
  show ?thesis
    unfolding eq node_slot_def merge_single [OF nodes_not_REPLACE(1)] merge_sentinel
    by simp
qed

end
