(* ===== verification/Tf_Nodes.thy ===== *)
theory Tf_Nodes
  imports Tf_State
begin

text \<open>
  What a node executor returns and reads: \<open>nodes/execution.rs\<close> (node outputs, control requests,
  the execution mode, the projection of run state that expressions see) and the expression
  scope of \<open>nodes/mod.rs\<close>, together with the output gate of \<open>postcondition.rs\<close>.  The
  diagnostics and the transcript of an output only feed observers and have no field here; an
  error or message text is a value of a datatype that carries the interpolated data.
\<close>

section \<open>Text\<close>

text \<open>\<open>char::is_whitespace\<close> on the characters of a \<^typ>\<open>string\<close>, \<open>str::trim\<close> and
  \<open>str::split\<close>.\<close>

definition is_whitespace :: "char \<Rightarrow> bool" where
  "is_whitespace c \<longleftrightarrow>
    c \<in> {CHR 0x09, CHR 0x0A, CHR 0x0B, CHR 0x0C, CHR 0x0D, CHR '' '', CHR 0x85, CHR 0xA0}"

definition trim :: "string \<Rightarrow> string" where
  "trim s = rev (dropWhile is_whitespace (rev (dropWhile is_whitespace s)))"

fun split_on :: "char \<Rightarrow> string \<Rightarrow> string list" where
  "split_on c [] = [[]]"
| "split_on c (x # xs) =
    (if x = c then [] # split_on c xs
     else (case split_on c xs of [] \<Rightarrow> [[x]] | w # ws \<Rightarrow> (x # w) # ws))"

lemma split_on_nonempty [simp]: "split_on c s \<noteq> []"
  by (induction s) (auto split: list.splits)

text \<open>\<open>config.get(key).and_then(Value::as_str)\<close> and its siblings.\<close>

definition cfg_str :: "node \<Rightarrow> string \<Rightarrow> string option" where
  "cfg_str n k = Option.bind (cfg n k) as_str"

definition cfg_u64 :: "node \<Rightarrow> string \<Rightarrow> 64 word option" where
  "cfg_u64 n k = Option.bind (cfg n k) as_u64"

definition cfg_flag :: "node \<Rightarrow> string \<Rightarrow> bool" where
  "cfg_flag n k \<longleftrightarrow> Option.bind (cfg n k) as_bool = Some True"

definition non_empty_str :: "node \<Rightarrow> string \<Rightarrow> bool" where
  "non_empty_str n k \<longleftrightarrow> (case cfg_str n k of Some s \<Rightarrow> s \<noteq> [] | None \<Rightarrow> False)"

text \<open>serde's readers of a defaulted \<open>String\<close> and of an \<open>Option<String>\<close> field.\<close>

fun de_string_or :: "string \<Rightarrow> json option \<Rightarrow> string option" where
  "de_string_or d None = Some d"
| "de_string_or d (Some (JString s)) = Some s"
| "de_string_or d (Some _) = None"

fun de_opt_string :: "json option \<Rightarrow> string option option" where
  "de_opt_string None = Some None"
| "de_opt_string (Some JNull) = Some None"
| "de_opt_string (Some (JString s)) = Some (Some s)"
| "de_opt_string (Some _) = None"

section \<open>Outputs\<close>

datatype node_control =
    CtlInterrupt string json
  | CtlReenter "64 word"
  | CtlScatter "item list list"

record node_output =
  out_items :: "item list"
  out_port :: "string option"
  out_meta :: "json option"
  out_control :: "node_control option"

definition output_empty :: node_output where
  "output_empty = \<lparr>out_items = [], out_port = None, out_meta = None, out_control = None\<rparr>"

definition output_main :: "item list \<Rightarrow> node_output" where
  "output_main its = output_empty\<lparr>out_items := its\<rparr>"

definition output_routed :: "item list \<Rightarrow> string \<Rightarrow> node_output" where
  "output_routed its p = output_empty\<lparr>out_items := its, out_port := Some p\<rparr>"

definition output_interrupt :: "string \<Rightarrow> json \<Rightarrow> node_output" where
  "output_interrupt i payload = output_empty\<lparr>out_control := Some (CtlInterrupt i payload)\<rparr>"

definition output_reenter_after :: "64 word \<Rightarrow> json \<Rightarrow> node_output" where
  "output_reenter_after ms meta =
    output_empty\<lparr>out_meta := Some meta, out_control := Some (CtlReenter ms)\<rparr>"

definition output_scatter :: "item list list \<Rightarrow> json \<Rightarrow> node_output" where
  "output_scatter lanes meta =
    output_empty\<lparr>out_meta := Some meta, out_control := Some (CtlScatter lanes)\<rparr>"

lemmas output_defs = output_empty_def output_main_def output_routed_def output_interrupt_def
  output_reenter_after_def output_scatter_def

datatype execution_mode = Once | PerItem

definition execution_mode_of :: "json \<Rightarrow> execution_mode \<Rightarrow> execution_mode" where
  "execution_mode_of c d =
    (case Option.bind (jget ''execution'' c) as_str of
       Some m \<Rightarrow> if m = ''per_item'' then PerItem else if m = ''once'' then Once else d
     | None \<Rightarrow> d)"

section \<open>The expression scope\<close>

definition promoted :: "string \<Rightarrow> bool" where
  "promoted k \<longleftrightarrow> k \<noteq> ''items'' \<and> k \<noteq> ''port'' \<and> \<not> starts_with ''_'' k"

definition slot_entry :: "json \<Rightarrow> json list \<Rightarrow> json" where
  "slot_entry slot its =
    (let jsons = map (\<lambda>it. or_null (jget ''json'' it)) its;
         first = (case jsons of [] \<Rightarrow> JNull | j # _ \<Rightarrow> j);
         entry = bt_from_list [(''item'', first), (''items'', JArray jsons)]
     in JObject (fold (\<lambda>(k, v). bt_insert k v) (filter (promoted \<circ> fst) (obj_of slot)) entry))"

definition nodes_scope :: "json \<Rightarrow> json" where
  "nodes_scope ns =
    JObject (fold (\<lambda>(i, slot) scope.
        (case Option.bind (jget ''items'' slot) as_array of
           None \<Rightarrow> scope
         | Some its \<Rightarrow> bt_insert i (slot_entry slot its) scope)) (obj_of ns) [])"

definition build_expr_scope :: "json \<Rightarrow> json list \<Rightarrow> json \<Rightarrow> json \<Rightarrow> json" where
  "build_expr_scope it its run ns =
    jobj [(''item'', it), (''items'', JArray its), (''run'', run), (''nodes'', ns),
          (''inputs'', or_null (jget ''inputs'' run))]"

definition expr_scope_for :: "item list \<Rightarrow> json \<Rightarrow> json \<Rightarrow> json \<Rightarrow> json" where
  "expr_scope_for input run ns it = build_expr_scope it (map item_json input) run (nodes_scope ns)"

definition expr_scope :: "item list \<Rightarrow> json \<Rightarrow> json \<Rightarrow> json" where
  "expr_scope input run ns =
    expr_scope_for input run ns (case input of [] \<Rightarrow> JNull | i # _ \<Rightarrow> item_json i)"

section \<open>Postconditions\<close>

definition REQUIREMENTS :: "string list" where
  "REQUIREMENTS = [''non_empty'', ''field_present'', ''non_empty_list'']"

record postcondition =
  pc_require :: string
  pc_field :: "string option"

datatype gap =
    NotAnObject json
  | UnreadableDeclaration
  | OutputEmpty
  | NoFieldNamed
  | FieldMissing string
  | ListEmpty "string option"
  | ListMissing "string option"
  | NotAList "string option"
  | UnevaluatedRequirement string
  | NoItems string
  | AtItem nat gap
  | UnknownRequirement string
  | FieldRequired
  | MalformedField string

definition from_config :: "json \<Rightarrow> (gap + postcondition) option" where
  "from_config c =
    (case jget ''postcondition'' c of
       None \<Rightarrow> None
     | Some declared \<Rightarrow>
        if \<not> is_object declared then Some (Inl (NotAnObject declared))
        else Some (case (de_string_or [] (jget ''require'' declared),
                         de_opt_string (jget ''field'' declared)) of
             (Some r, Some f) \<Rightarrow> Inr \<lparr>pc_require = r, pc_field = f\<rparr>
           | _ \<Rightarrow> Inl UnreadableDeclaration))"

fun follow :: "string list \<Rightarrow> json \<Rightarrow> json option" where
  "follow [] v = Some v"
| "follow (k # ks) v = Option.bind (jget k v) (follow ks)"

definition resolve_path :: "json \<Rightarrow> string \<Rightarrow> json option" where
  "resolve_path v p = follow (split_on (CHR ''.'') p) v"

definition check_text :: "json \<Rightarrow> gap + unit" where
  "check_text out =
    (let text = (case Option.bind (jget ''text'' out) as_str of Some t \<Rightarrow> t | None \<Rightarrow> [])
     in if trim text = [] then Inl OutputEmpty else Inr ())"

definition check_present :: "string option \<Rightarrow> json \<Rightarrow> gap + unit" where
  "check_present field out =
    (case field of
       None \<Rightarrow> Inl NoFieldNamed
     | Some path \<Rightarrow>
        (case resolve_path out path of
           Some v \<Rightarrow> if v = JNull then Inl (FieldMissing path) else Inr ()
         | None \<Rightarrow> Inl (FieldMissing path)))"

definition list_target :: "string option \<Rightarrow> json \<Rightarrow> json option" where
  "list_target field out =
    (case field of
       Some path \<Rightarrow> resolve_path out path
     | None \<Rightarrow> (case jget ''json'' out of Some v \<Rightarrow> Some v | None \<Rightarrow> Some out))"

definition check_list :: "string option \<Rightarrow> json \<Rightarrow> gap + unit" where
  "check_list field out =
    (case list_target field out of
       None \<Rightarrow> Inl (ListMissing field)
     | Some v \<Rightarrow>
        (case v of
           JArray items \<Rightarrow> if items = [] then Inl (ListEmpty field) else Inr ()
         | JNull \<Rightarrow> Inl (ListMissing field)
         | _ \<Rightarrow> Inl (NotAList field)))"

definition named_field :: "postcondition \<Rightarrow> string option" where
  "named_field pc = (case pc_field pc of Some f \<Rightarrow> if f = [] then None else Some f | None \<Rightarrow> None)"

definition check :: "postcondition \<Rightarrow> json \<Rightarrow> gap + unit" where
  "check pc out =
    (if pc_require pc = ''non_empty'' then check_text out
     else if pc_require pc = ''field_present'' then check_present (named_field pc) out
     else if pc_require pc = ''non_empty_list'' then check_list (named_field pc) out
     else Inl (UnevaluatedRequirement (pc_require pc)))"

fun check_from :: "postcondition \<Rightarrow> bool \<Rightarrow> nat \<Rightarrow> item list \<Rightarrow> gap + unit" where
  "check_from pc single i [] = Inr ()"
| "check_from pc single i (it # its) =
    (case check pc (item_json it) of
       Inl g \<Rightarrow> Inl (if single then g else AtItem i g)
     | Inr _ \<Rightarrow> check_from pc single (Suc i) its)"

definition check_items :: "postcondition \<Rightarrow> item list \<Rightarrow> gap + unit" where
  "check_items pc its =
    (if its = [] then Inl (NoItems (pc_require pc)) else check_from pc (length its = 1) 0 its)"

definition validate_postcondition :: "postcondition \<Rightarrow> gap + unit" where
  "validate_postcondition pc =
    (if pc_require pc \<notin> set REQUIREMENTS then Inl (UnknownRequirement (pc_require pc))
     else
       let field = map_option trim (pc_field pc) in
       if pc_require pc = ''field_present'' \<and> (field = None \<or> field = Some []) then Inl FieldRequired
       else (case field of
           Some f \<Rightarrow>
             if f \<noteq> [] \<and> (starts_with ''='' f \<or> [] \<in> set (split_on (CHR ''.'') f))
             then Inl (MalformedField f) else Inr ()
         | None \<Rightarrow> Inr ()))"

text \<open>The engine's gate.  The capability error it raises names the node and the gap.\<close>

definition enforce :: "node \<Rightarrow> node_output \<Rightarrow> (string \<times> gap) + unit" where
  "enforce n out =
    (if out_control out \<noteq> None then Inr ()
     else (case from_config (config n) of
         None \<Rightarrow> Inr ()
       | Some (Inl g) \<Rightarrow> Inl (node_id n, g)
       | Some (Inr pc) \<Rightarrow>
          (case check_items pc (out_items out) of Inl g \<Rightarrow> Inl (node_id n, g) | Inr _ \<Rightarrow> Inr ())))"

section \<open>What the gate guarantees\<close>

lemma check_from_ok:
  "check_from pc single i its = Inr () \<longleftrightarrow> (\<forall>it \<in> set its. check pc (item_json it) = Inr ())"
  by (induction its arbitrary: i) (auto split: sum.splits)

lemma check_items_ok:
  "check_items pc its = Inr () \<longleftrightarrow> its \<noteq> [] \<and> (\<forall>it \<in> set its. check pc (item_json it) = Inr ())"
  by (simp add: check_items_def check_from_ok)

text \<open>What a passing item looks like, predicate by predicate.\<close>

definition meets :: "postcondition \<Rightarrow> json \<Rightarrow> bool" where
  "meets pc v \<longleftrightarrow>
    pc_require pc = ''non_empty'' \<and>
      (\<exists>t. jget ''text'' v = Some (JString t) \<and> (\<exists>c \<in> set t. \<not> is_whitespace c))
  \<or> pc_require pc = ''field_present'' \<and>
      (\<exists>p w. pc_field pc = Some p \<and> p \<noteq> [] \<and> resolve_path v p = Some w \<and> w \<noteq> JNull)
  \<or> pc_require pc = ''non_empty_list'' \<and>
      (\<exists>x xs. list_target (named_field pc) v = Some (JArray (x # xs)))"

lemma trim_Nil_iff: "trim t = [] \<longleftrightarrow> (\<forall>c \<in> set t. is_whitespace c)"
proof
  assume "trim t = []"
  then have "\<forall>c \<in> set (dropWhile is_whitespace t). is_whitespace c" by (simp add: trim_def)
  then have "dropWhile is_whitespace t = []"
    using hd_dropWhile [of is_whitespace t] hd_in_set by blast
  then show "\<forall>c \<in> set t. is_whitespace c" by simp
next
  assume "\<forall>c \<in> set t. is_whitespace c"
  then have "dropWhile is_whitespace t = []" by simp
  then show "trim t = []" unfolding trim_def by (metis dropWhile.simps(1) rev.simps(1))
qed

lemma check_text_ok:
  "check_text v = Inr () \<longleftrightarrow>
    (\<exists>t. jget ''text'' v = Some (JString t) \<and> (\<exists>c \<in> set t. \<not> is_whitespace c))"
  by (cases "jget ''text'' v"; cases "the (jget ''text'' v)")
     (auto simp: check_text_def Let_def trim_Nil_iff)

lemma check_present_ok:
  "check_present (named_field pc) v = Inr () \<longleftrightarrow>
    (\<exists>p w. pc_field pc = Some p \<and> p \<noteq> [] \<and> resolve_path v p = Some w \<and> w \<noteq> JNull)"
  by (auto simp: check_present_def named_field_def split: option.splits)

lemma check_list_ok:
  "check_list field v = Inr () \<longleftrightarrow> (\<exists>x xs. list_target field v = Some (JArray (x # xs)))"
  by (auto simp: check_list_def neq_Nil_conv split: option.split json.split)

lemma check_ok_iff: "check pc v = Inr () \<longleftrightarrow> meets pc v"
  by (simp add: check_def meets_def check_text_ok check_present_ok check_list_ok)

lemma gate_ok [simp]: "(case r of Inl g \<Rightarrow> Inl (f g) | Inr _ \<Rightarrow> Inr ()) = Inr () \<longleftrightarrow> r = Inr ()"
  by (cases r) auto

text \<open>A node's output passes the gate exactly when it carries a control
  request, or the node declares no postcondition, or the declaration is readable, the node
  emitted at least one item and every item meets the declared predicate.\<close>

theorem postcondition_gate:
  "enforce n out = Inr () \<longleftrightarrow>
    (case (out_control out, from_config (config n)) of
       (Some _, _) \<Rightarrow> True
     | (None, None) \<Rightarrow> True
     | (None, Some (Inl _)) \<Rightarrow> False
     | (None, Some (Inr pc)) \<Rightarrow>
         out_items out \<noteq> [] \<and> list_all (\<lambda>it. meets pc (item_json it)) (out_items out))"
  by (auto simp: enforce_def check_items_ok check_ok_iff list_all_iff split: option.split sum.split)

text \<open>The author-time check trims the declared field and the
  run-time check does not, so the declaration of field \<open>" ok"\<close> is accepted and yet fails on an
  output that has the field \<open>ok\<close>.\<close>

theorem padded_field_never_met:
  "\<exists>pc. from_config (jobj [(''postcondition'',
          jobj [(''require'', JString ''field_present''), (''field'', JString '' ok'')])]) = Some (Inr pc)
    \<and> validate_postcondition pc = Inr ()
    \<and> check pc (jobj [(''ok'', JBool True)]) = Inl (FieldMissing '' ok'')"
  by (rule exI [of _ "\<lparr>pc_require = ''field_present'', pc_field = Some '' ok''\<rparr>"]) code_simp

text \<open>An accepted declaration is one the run-time check can evaluate: it never fails for want of
  a known predicate or a named field.\<close>

lemma validated_is_evaluable:
  assumes "validate_postcondition pc = Inr ()"
  shows "check pc v \<noteq> Inl (UnevaluatedRequirement r) \<and> check pc v \<noteq> Inl NoFieldNamed"
proof -
  from assms have r: "pc_require pc \<in> set REQUIREMENTS"
    and f: "pc_require pc = ''field_present'' \<Longrightarrow> named_field pc \<noteq> None"
    by (auto simp: validate_postcondition_def named_field_def trim_def Let_def
        split: if_splits option.splits)
  show ?thesis
    using r f
    by (auto simp: check_def REQUIREMENTS_def check_text_def check_present_def check_list_def Let_def
        split: option.split json.split)
qed

end
