(* ===== verification/Tf_Expr.thy ===== *)
theory Tf_Expr
  imports Tf_Nodes
begin

text \<open>
  Expressions in node configuration: \<open>expr.rs\<close>.  A string that starts with \<open>=\<close> is an expression;
  a simple dotted path is walked directly and everything else is a jq program.  The jq engine
  (\<open>jaq\<close>) and the rendering of a value as JSON text are libraries: \<open>expr_lib\<close> carries them as
  functions, with \<open>None\<close> for a program that does not load, fails or has no output.
\<close>

record expr_lib =
  lib_jq :: "string \<Rightarrow> json \<Rightarrow> json option"
  lib_show :: "json \<Rightarrow> string"

section \<open>Paths\<close>

definition is_expression :: "string \<Rightarrow> bool" where
  "is_expression s \<longleftrightarrow> starts_with ''='' s"

definition ident_start :: "char \<Rightarrow> bool" where
  "ident_start c \<longleftrightarrow> c = CHR ''_'' \<or> is_ascii_alphabetic c"

definition ident_char :: "char \<Rightarrow> bool" where
  "ident_char c \<longleftrightarrow> c = CHR ''_'' \<or> c = CHR ''-'' \<or> is_ascii_alphanumeric c"

fun is_ident :: "string \<Rightarrow> bool" where
  "is_ident [] \<longleftrightarrow> False"
| "is_ident (c # cs) \<longleftrightarrow> ident_start c \<and> list_all ident_char cs"

definition is_simple_dotted_path :: "string \<Rightarrow> bool" where
  "is_simple_dotted_path s \<longleftrightarrow> s \<noteq> [] \<and> list_all is_ident (split_on (CHR ''.'') s)"

definition walk_path :: "string \<Rightarrow> json \<Rightarrow> json" where
  "walk_path p scope = or_null (follow (filter (\<lambda>s. s \<noteq> []) (split_on (CHR ''.'') p)) scope)"

section \<open>Programs\<close>

definition normalize_bare_scope_ref :: "string \<Rightarrow> json \<Rightarrow> string" where
  "normalize_bare_scope_ref p scope =
    (case p of
       [] \<Rightarrow> p
     | c # cs \<Rightarrow>
        if \<not> ident_start c then p
        else (let ident = c # takeWhile ident_char cs; rest = dropWhile ident_char cs in
          if jget ident scope = None then p
          else (case rest of
              [] \<Rightarrow> CHR ''.'' # p
            | d # _ \<Rightarrow> if d \<in> set ''.|[ '' then CHR ''.'' # p else p)))"

definition run_jq :: "expr_lib \<Rightarrow> string \<Rightarrow> json \<Rightarrow> json" where
  "run_jq lib p scope = or_null (lib_jq lib (normalize_bare_scope_ref p scope) scope)"

definition evaluate :: "expr_lib \<Rightarrow> json \<Rightarrow> json \<Rightarrow> json" where
  "evaluate lib v scope =
    (case as_str v of
       Some s \<Rightarrow>
         if is_expression s then
           (let e = trim (tl s) in
            if is_simple_dotted_path e then walk_path e scope else run_jq lib e scope)
         else v
     | None \<Rightarrow> v)"

section \<open>Resolution\<close>

fun resolve :: "expr_lib \<Rightarrow> json \<Rightarrow> json \<Rightarrow> json" where
  "resolve lib scope (JObject m) = JObject (map (\<lambda>kv. (fst kv, resolve lib scope (snd kv))) m)"
| "resolve lib scope (JArray xs) = JArray (map (resolve lib scope) xs)"
| "resolve lib scope (JString s) =
    (if is_expression s then evaluate lib (JString s) scope else JString s)"
| "resolve lib scope v = v"

definition with_segment :: "string \<Rightarrow> string \<Rightarrow> string" where
  "with_segment loc seg = (if loc = [] then seg else loc @ ''.'' @ seg)"

text \<open>A recorded null resolution: the location of the leaf and its expression.\<close>

type_synonym null_resolution = "string \<times> string"

function (sequential) resolve_traced_inner ::
  "expr_lib \<Rightarrow> json \<Rightarrow> json \<Rightarrow> string \<Rightarrow> null_resolution list \<Rightarrow> json \<times> null_resolution list"
  and traced_object ::
  "expr_lib \<Rightarrow> json \<Rightarrow> (string \<times> json) list \<Rightarrow> string \<Rightarrow> null_resolution list \<Rightarrow>
    (string \<times> json) list \<times> null_resolution list"
  and traced_array ::
  "expr_lib \<Rightarrow> json \<Rightarrow> nat \<Rightarrow> json list \<Rightarrow> string \<Rightarrow> null_resolution list \<Rightarrow>
    json list \<times> null_resolution list" where
  "resolve_traced_inner lib scope (JObject m) loc misses =
    (let (m', misses') = traced_object lib scope m loc misses in (JObject m', misses'))"
| "resolve_traced_inner lib scope (JArray xs) loc misses =
    (let (xs', misses') = traced_array lib scope 0 xs loc misses in (JArray xs', misses'))"
| "resolve_traced_inner lib scope (JString s) loc misses =
    (if is_expression s then
       (let v = evaluate lib (JString s) scope in
        (v, if v = JNull then misses @ [(loc, s)] else misses))
     else (JString s, misses))"
| "resolve_traced_inner lib scope v loc misses = (v, misses)"
| "traced_object lib scope [] loc misses = ([], misses)"
| "traced_object lib scope ((k, v) # m) loc misses =
    (let (v', misses') = resolve_traced_inner lib scope v (with_segment loc k) misses;
         (m', misses'') = traced_object lib scope m loc misses'
     in ((k, v') # m', misses''))"
| "traced_array lib scope i [] loc misses = ([], misses)"
| "traced_array lib scope i (v # xs) loc misses =
    (let (v', misses') = resolve_traced_inner lib scope v (with_segment loc (show_nat i)) misses;
         (xs', misses'') = traced_array lib scope (Suc i) xs loc misses'
     in (v' # xs', misses''))"
  by pat_completeness auto

termination
  by (relation "measure (\<lambda>x. case x of
      Inl (lib, scope, v, r) \<Rightarrow> size v
    | Inr (Inl (lib, scope, m, r)) \<Rightarrow> size_list (size_prod (\<lambda>k. 0) size) m
    | Inr (Inr (lib, scope, i, xs, r)) \<Rightarrow> size_list size xs)") auto

definition resolve_traced :: "expr_lib \<Rightarrow> json \<Rightarrow> json \<Rightarrow> json \<times> null_resolution list" where
  "resolve_traced lib v scope = resolve_traced_inner lib scope v [] []"

section \<open>What the trace reports\<close>

text \<open>The expression leaves of a configuration with their locations, in document order.\<close>

fun leaves :: "json \<Rightarrow> string \<Rightarrow> null_resolution list"
  and object_leaves :: "(string \<times> json) list \<Rightarrow> string \<Rightarrow> null_resolution list"
  and array_leaves :: "nat \<Rightarrow> json list \<Rightarrow> string \<Rightarrow> null_resolution list" where
  "leaves (JObject m) loc = object_leaves m loc"
| "leaves (JArray xs) loc = array_leaves 0 xs loc"
| "leaves (JString s) loc = (if is_expression s then [(loc, s)] else [])"
| "leaves v loc = []"
| "object_leaves [] loc = []"
| "object_leaves ((k, v) # m) loc = leaves v (with_segment loc k) @ object_leaves m loc"
| "array_leaves i [] loc = []"
| "array_leaves i (v # xs) loc =
    leaves v (with_segment loc (show_nat i)) @ array_leaves (Suc i) xs loc"

abbreviation null_leaf :: "expr_lib \<Rightarrow> json \<Rightarrow> null_resolution \<Rightarrow> bool" where
  "null_leaf lib scope \<equiv> (\<lambda>(loc, e). evaluate lib (JString e) scope = JNull)"

lemma traced_parts:
  "resolve_traced_inner lib scope v loc misses =
    (resolve lib scope v, misses @ filter (null_leaf lib scope) (leaves v loc))"
  "traced_object lib scope m loc misses =
    (map (\<lambda>kv. (fst kv, resolve lib scope (snd kv))) m,
     misses @ filter (null_leaf lib scope) (object_leaves m loc))"
  "traced_array lib scope i xs loc misses =
    (map (resolve lib scope) xs, misses @ filter (null_leaf lib scope) (array_leaves i xs loc))"
  by (induction lib scope v loc misses and lib scope m loc misses and lib scope i xs loc misses
      rule: resolve_traced_inner_traced_object_traced_array.induct) (auto simp: Let_def)

text \<open>C33 (resolve_traced_exact): tracing does not change what a configuration resolves to, and
  the trace lists exactly the expression leaves that resolved to null, with their locations, in
  document order.\<close>

theorem resolve_traced_exact:
  "resolve_traced lib v scope =
    (resolve lib scope v, filter (null_leaf lib scope) (leaves v []))"
  by (simp add: resolve_traced_def traced_parts)

lemma resolve_literal: "leaves v loc = [] \<Longrightarrow> resolve lib scope v = v"
  "object_leaves m loc = [] \<Longrightarrow> map (\<lambda>kv. (fst kv, resolve lib scope (snd kv))) m = m"
  "array_leaves i xs loc = [] \<Longrightarrow> map (resolve lib scope) xs = xs"
  by (induction v loc and m loc and i xs loc rule: leaves_object_leaves_array_leaves.induct)
     (auto split: if_splits)

end
