(* ===== verification/Tf_Paths.thy ===== *)
theory Tf_Paths
  imports Tf_Reach
begin

text \<open>
  The graph questions the validator and the lowering ask, on top of the worklist searches:
  \<open>path_exists\<close>, \<open>region_members\<close> and \<open>nodes_on_cycle\<close> of \<open>validate/scatter.rs\<close>,
  \<open>path_avoiding\<close> of \<open>validate/loops.rs\<close>, and the port grouping, routing classification and
  branch searches of \<open>engine/routing.rs\<close>.  Each is shown to decide a reachability relation
  over the authored edges.
\<close>

section \<open>Validator searches\<close>

definition path_exists :: "workflow_graph \<Rightarrow> string \<Rightarrow> string \<Rightarrow> bool" where
  "path_exists g start target = search_skip (edge_pairs g) (\<lambda>_. False) target [start] {}"

definition path_avoiding ::
  "workflow_graph \<Rightarrow> string \<Rightarrow> string \<Rightarrow> (string \<Rightarrow> bool) \<Rightarrow> bool" where
  "path_avoiding g start target skip =
    search_skip (edge_pairs g) (\<lambda>n. n \<noteq> start \<and> skip n) target [start] {}"

text \<open>The walk of \<open>region_members\<close>: gathers are the boundary, dangling targets are ignored.\<close>

function region_walk ::
  "workflow_graph \<Rightarrow> string set \<Rightarrow> string list \<Rightarrow> string hset \<Rightarrow> bool \<Rightarrow> string hset \<times> bool" where
  "region_walk g gathers [] members reached = (members, reached)"
| "region_walk g gathers (x # stack) members reached =
    (if x \<in> gathers then region_walk g gathers stack members True
     else if graph_node g x = None then region_walk g gathers stack members reached
     else if x \<in> set members then region_walk g gathers stack members reached
     else region_walk g gathers (rev (successors g x) @ stack) (hs_insert x members) reached)"
  by pat_completeness auto

termination region_walk
proof (relation "measures [\<lambda>(g, _, _, members, _). card (fst ` set (edge_pairs g) - set members),
                           \<lambda>(_, _, stack, _, _). length stack]", goal_cases)
  case (5 g gathers x stack members reached)
  then show ?case
    using search_measure [of x "set members" "edge_pairs g"] by (auto simp: successors_adj)
qed auto

definition region_members :: "workflow_graph \<Rightarrow> string \<Rightarrow> string set \<Rightarrow> string hset" where
  "region_members g scatter gathers =
    (let (members, reached) = region_walk g gathers (rev (successors g scatter)) [] False
     in if reached then members else [])"

text \<open>One closure walk of \<open>nodes_on_cycle\<close>: a known neighbour is pushed when its insertion
  is new.\<close>

fun push_new :: "('a \<Rightarrow> bool) \<Rightarrow> 'a list \<Rightarrow> 'a list \<times> 'a hset \<Rightarrow> 'a list \<times> 'a hset" where
  "push_new known [] (stack, acc) = (stack, acc)"
| "push_new known (y # ys) (stack, acc) =
    (if known y \<and> y \<notin> set acc then push_new known ys (y # stack, acc @ [y])
     else push_new known ys (stack, acc))"

function closure_walk ::
  "('a \<times> 'a) list \<Rightarrow> ('a \<Rightarrow> bool) \<Rightarrow> 'a list \<Rightarrow> 'a hset \<Rightarrow> 'a hset" where
  "closure_walk es known [] acc = acc"
| "closure_walk es known (x # stack) acc =
    (let (stack', acc') = push_new known (adj es x) (stack, acc)
     in closure_walk es known stack' acc')"
  by pat_completeness auto

lemma push_new_spec:
  "push_new known ys (stack, acc) = (stack', acc') \<Longrightarrow>
    set acc' = set acc \<union> {y \<in> set ys. known y}
    \<and> set stack' = set stack \<union> ({y \<in> set ys. known y} - set acc)
    \<and> (distinct acc \<longrightarrow> distinct acc')
    \<and> (acc' = acc \<and> stack' = stack \<or> set acc \<subset> set acc')"
proof (induction ys arbitrary: stack acc)
  case (Cons y ys)
  show ?case
  proof (cases "known y \<and> y \<notin> set acc")
    case True
    with Cons.IH [of "y # stack" "acc @ [y]"] Cons.prems show ?thesis by auto
  next
    case False
    with Cons.IH [of stack acc] Cons.prems show ?thesis by auto
  qed
qed simp

termination closure_walk
proof (relation "measures [\<lambda>(es, _, _, acc). card (snd ` set es - set acc),
                           \<lambda>(_, _, stack, _). length stack]", goal_cases)
  case (2 es known x stack acc p stack' acc')
  then have spec: "set acc' = set acc \<union> {y \<in> set (adj es x). known y}"
    "acc' = acc \<and> stack' = stack \<or> set acc \<subset> set acc'"
    using push_new_spec [of known "adj es x" stack acc stack' acc'] by auto
  have "card (snd ` set es - set acc') < card (snd ` set es - set acc)" if "set acc \<subset> set acc'"
  proof (rule psubset_card_mono)
    from that spec(1) obtain y where "y \<in> set acc'" "y \<notin> set acc" "(x, y) \<in> set es" by auto
    then show "snd ` set es - set acc' \<subset> snd ` set es - set acc" using that by force
  qed simp
  with spec(2) show ?case by auto
qed auto

definition nodes_on_cycle :: "workflow_graph \<Rightarrow> string \<Rightarrow> string \<Rightarrow> string hset" where
  "nodes_on_cycle g start end =
    (let known = (\<lambda>x. graph_node g x \<noteq> None);
         forward = (if known start then closure_walk (edge_pairs g) known [start] [start] else []);
         backward = (if known end
           then closure_walk (map prod.swap (edge_pairs g)) known [end] [end] else [])
     in filter (\<lambda>x. x \<in> set backward) forward)"

section \<open>Port grouping and routing classification\<close>

text \<open>\<open>groups.iter_mut().find(..)\<close>: push onto the port's group, or open a new group.\<close>

fun push_group :: "string \<Rightarrow> string \<Rightarrow> (string \<times> string list) list \<Rightarrow> (string \<times> string list) list" where
  "push_group p t [] = [(p, [t])]"
| "push_group p t ((q, ts) # gs) =
    (if q = p then (q, ts @ [t]) # gs else (q, ts) # push_group p t gs)"

definition outgoing_by_port :: "workflow_graph \<Rightarrow> string \<Rightarrow> (string \<times> string list) list" where
  "outgoing_by_port g x =
    fold (\<lambda>e. push_group (from_port e) (to_node e)) (filter (\<lambda>e. from_node e = x) (edges g)) []"

datatype handler_routing_kind =
    Plain
  | FanOut "string list"
  | PortCommand "(string \<times> string list) list"

definition handler_routing :: "workflow_graph \<Rightarrow> string \<Rightarrow> handler_routing_kind" where
  "handler_routing g x =
    (let groups = outgoing_by_port g x;
         total = sum_list (map (\<lambda>grp. length (snd grp)) groups)
     in case groups of
          [] \<Rightarrow> Plain
        | [(_, targets)] \<Rightarrow> if 2 \<le> length targets then FanOut targets else Plain
        | _ \<Rightarrow> if total = length groups then Plain else PortCommand groups)"

section \<open>Branch searches\<close>

definition port_pairs :: "workflow_graph \<Rightarrow> string \<Rightarrow> (string \<times> string) list" where
  "port_pairs g p =
    map (\<lambda>e. (from_node e, to_node e)) (filter (\<lambda>e. from_port e = p) (edges g))"

definition has_unconditional_path ::
  "workflow_graph \<Rightarrow> string \<Rightarrow> string \<Rightarrow> string \<Rightarrow> bool" where
  "has_unconditional_path g from to stop =
    (if from = to then True
     else search_stop (port_pairs g ''main'') stop to (rev (adj (port_pairs g ''main'') from)) {})"

definition conditional_predecessors ::
  "workflow_graph \<Rightarrow> string \<Rightarrow> (string \<times> string) hset \<Rightarrow> string hset" where
  "conditional_predecessors g merge_id loop_edges =
    (case trigger g of
       None \<Rightarrow> []
     | Some t \<Rightarrow>
        hs_collect (filter (\<lambda>pred. \<not> has_unconditional_path g (node_id t) pred merge_id)
          (map from_node (filter (\<lambda>e. (from_node e, to_node e) \<notin> set loop_edges)
            (filter (\<lambda>e. to_node e = merge_id) (edges g))))))"

definition reaches_via_port ::
  "workflow_graph \<Rightarrow> string \<Rightarrow> string \<Rightarrow> string \<Rightarrow> string \<Rightarrow> bool" where
  "reaches_via_port g brancher port target stop =
    search_stop (edge_pairs g) stop target (rev (adj (port_pairs g port) brancher)) {}"

definition find_conditional_brancher ::
  "workflow_graph \<Rightarrow> string \<Rightarrow> string \<Rightarrow> string option" where
  "find_conditional_brancher g predecessor stop =
    map_option node_id (find (\<lambda>brancher.
      let ports = outgoing_by_port g (node_id brancher)
      in \<not> length ports < 2
         \<and> list_ex (\<lambda>(port, _). reaches_via_port g (node_id brancher) port predecessor stop) ports)
      (nodes g))"

section \<open>What the searches decide\<close>

lemma path_exists_iff [search_simps]:
  "path_exists g x y \<longleftrightarrow> (x, y) \<in> (set (edge_pairs g))\<^sup>*"
  by (simp add: path_exists_def search_skip_iff free_edges_none)

lemma path_avoiding_iff [search_simps]:
  "path_avoiding g x y skip \<longleftrightarrow>
    (x, y) \<in> (free_edges (edge_pairs g) (\<lambda>n. n \<noteq> x \<and> skip n))\<^sup>*"
  by (simp add: path_avoiding_def search_skip_iff)

lemma reaches_via_port_iff [search_simps]:
  "reaches_via_port g b p y stop \<longleftrightarrow>
    (\<exists>e \<in> set (edges g). from_node e = b \<and> from_port e = p
       \<and> (to_node e, y) \<in> (free_edges (edge_pairs g) (\<lambda>a. a = stop))\<^sup>*)"
  by (auto simp: reaches_via_port_def search_stop_iff port_pairs_def)

lemma has_unconditional_path_iff [search_simps]:
  assumes "x \<noteq> stop"
  shows "has_unconditional_path g x y stop \<longleftrightarrow>
    (x, y) \<in> (free_edges (port_pairs g ''main'') (\<lambda>a. a = stop))\<^sup>*"
    (is "_ \<longleftrightarrow> (x, y) \<in> ?R\<^sup>*")
proof (cases "x = y")
  case False
  have "(x, y) \<in> ?R\<^sup>* \<longleftrightarrow> (\<exists>z. (x, z) \<in> ?R \<and> (z, y) \<in> ?R\<^sup>*)"
    using False by (meson converse_rtranclE converse_rtrancl_into_rtrancl)
  with False assms show ?thesis
    by (auto simp: has_unconditional_path_def search_stop_iff)
qed (simp add: has_unconditional_path_def)

text \<open>A reachability test is a preorder: the contract its clients use.\<close>

locale reach_test =
  fixes dec :: "'a \<Rightarrow> 'a \<Rightarrow> bool" and step :: "('a \<times> 'a) set"
  assumes dec_iff: "dec x y \<longleftrightarrow> (x, y) \<in> step\<^sup>*"
begin

lemma dec_refl: "dec x x"
  by (simp add: dec_iff)

lemma dec_step: "(x, y) \<in> step \<Longrightarrow> dec x y"
  by (simp add: dec_iff)

lemma dec_trans: "dec x y \<Longrightarrow> dec y z \<Longrightarrow> dec x z"
  by (auto simp: dec_iff)

lemma dec_cycle_iff: "(\<exists>y. (x, y) \<in> step \<and> dec y x) \<longleftrightarrow> (x, x) \<in> step\<^sup>+"
  by (meson dec_iff rtrancl_into_trancl2 tranclD)

lemma dec_closed:
  assumes "dec x y" "x \<in> C" "\<And>a b. a \<in> C \<Longrightarrow> (a, b) \<in> step \<Longrightarrow> b \<in> C"
  shows "y \<in> C"
  using assms closed_rtrancl unfolding dec_iff by metis

end

interpretation pe: reach_test "path_exists g" "set (edge_pairs g)" for g
  by unfold_locales (rule path_exists_iff)

section \<open>Regions\<close>

definition region_edges :: "workflow_graph \<Rightarrow> string set \<Rightarrow> (string \<times> string) set" where
  "region_edges g gathers =
    free_edges (edge_pairs g) (\<lambda>x. x \<in> gathers \<or> graph_node g x = None)"

lemma region_walk_sound:
  assumes "region_walk g gathers stack members reached = (ms, r)"
  shows "set ms \<subseteq> set members \<union>
      {y. \<exists>x \<in> set stack. (x, y) \<in> (region_edges g gathers)\<^sup>* \<and> y \<notin> gathers \<and> graph_node g y \<noteq> None}
    \<and> (r \<longrightarrow> reached \<or> (\<exists>x \<in> set stack. \<exists>y \<in> gathers. (x, y) \<in> (region_edges g gathers)\<^sup>*))"
  using assms
proof (induction g gathers stack members reached rule: region_walk.induct)
  case (2 g gathers x stack members reached)
  consider "x \<in> gathers" | "x \<notin> gathers" "graph_node g x = None \<or> x \<in> set members"
    | "x \<notin> gathers" "graph_node g x \<noteq> None" "x \<notin> set members" by blast
  then show ?case
  proof cases
    case 1
    with "2.prems" "2.IH"(1) show ?thesis by auto
  next
    case c: 2
    with "2.prems" "2.IH"(2,3) show ?thesis by (auto split: if_splits)
  next
    case 3
    have step: "(x, z) \<in> (region_edges g gathers)\<^sup>*"
      if "y \<in> set (successors g x)" "(y, z) \<in> (region_edges g gathers)\<^sup>*" for y z
    proof (rule converse_rtrancl_into_rtrancl [OF _ that(2)])
      show "(x, y) \<in> region_edges g gathers"
        using 3 that(1) by (simp add: region_edges_def successors_adj)
    qed
    have IH: "set ms \<subseteq> set (hs_insert x members) \<union>
      {y. \<exists>u \<in> set (rev (successors g x) @ stack). (u, y) \<in> (region_edges g gathers)\<^sup>*
          \<and> y \<notin> gathers \<and> graph_node g y \<noteq> None}
      \<and> (r \<longrightarrow> reached \<or> (\<exists>u \<in> set (rev (successors g x) @ stack).
            \<exists>y \<in> gathers. (u, y) \<in> (region_edges g gathers)\<^sup>*))"
      using "2.IH"(4) [OF 3] "2.prems" 3 by simp
    with step 3 show ?thesis by (auto; blast)
  qed
qed simp

lemma region_walk_mono:
  assumes "region_walk g gathers stack members reached = (ms, r)"
  shows "set members \<subseteq> set ms \<and> (reached \<longrightarrow> r) \<and> (distinct members \<longrightarrow> distinct ms)"
  using assms
  by (induction g gathers stack members reached rule: region_walk.induct)
     (auto split: if_splits)

definition region_done :: "workflow_graph \<Rightarrow> string set \<Rightarrow> string set \<Rightarrow> bool \<Rightarrow> string \<Rightarrow> bool" where
  "region_done g gathers ms r x \<longleftrightarrow>
    x \<in> ms \<or> x \<in> gathers \<and> r \<or> x \<notin> gathers \<and> graph_node g x = None"

lemma region_done_mono:
  "region_done g gathers ms r x \<Longrightarrow> ms \<subseteq> ms' \<Longrightarrow> (r \<longrightarrow> r') \<Longrightarrow> region_done g gathers ms' r' x"
  by (auto simp: region_done_def)

lemma region_walk_complete:
  assumes "region_walk g gathers stack members reached = (ms, r)"
    and "\<And>a b. a \<in> set members \<Longrightarrow> b \<in> set (successors g a) \<Longrightarrow>
           b \<in> set stack \<or> region_done g gathers (set members) reached b"
  shows "(\<forall>x \<in> set stack. region_done g gathers (set ms) r x)
    \<and> (\<forall>a \<in> set ms. \<forall>b \<in> set (successors g a). region_done g gathers (set ms) r b)"
  using assms
proof (induction g gathers stack members reached rule: region_walk.induct)
  case (1 g gathers members reached)
  then show ?case by auto
next
  case (2 g gathers x stack members reached)
  note mono = region_walk_mono [OF "2.prems"(1)]
  consider (gather) "x \<in> gathers" | (unknown) "x \<notin> gathers" "graph_node g x = None"
    | (old) "x \<notin> gathers" "graph_node g x \<noteq> None" "x \<in> set members"
    | (new) "x \<notin> gathers" "graph_node g x \<noteq> None" "x \<notin> set members" by blast
  then show ?case
  proof cases
    case gather
    then have run: "region_walk g gathers stack members True = (ms, r)" using "2.prems"(1) by simp
    have "r" using region_walk_mono [OF run] by simp
    with gather have x: "region_done g gathers (set ms) r x" by (simp add: region_done_def)
    have "b \<in> set stack \<or> region_done g gathers (set members) True b"
      if "a \<in> set members" "b \<in> set (successors g a)" for a b
      using "2.prems"(2) [OF that] gather by (auto simp: region_done_def)
    from "2.IH"(1) [OF gather run this] x show ?thesis by auto
  next
    case unknown
    then have run: "region_walk g gathers stack members reached = (ms, r)" using "2.prems"(1) by simp
    have x: "region_done g gathers S s x" for S s using unknown by (simp add: region_done_def)
    have "b \<in> set stack \<or> region_done g gathers (set members) reached b"
      if "a \<in> set members" "b \<in> set (successors g a)" for a b
      using "2.prems"(2) [OF that] x by auto
    from "2.IH"(2) [OF unknown run this] x show ?thesis by auto
  next
    case old
    then have run: "region_walk g gathers stack members reached = (ms, r)"
      using "2.prems"(1) by (auto split: if_splits)
    have x: "region_done g gathers (set members) s x" for s using old by (simp add: region_done_def)
    have inv: "b \<in> set stack \<or> region_done g gathers (set members) reached b"
      if "a \<in> set members" "b \<in> set (successors g a)" for a b
      using "2.prems"(2) [OF that] x by auto
    have "region_done g gathers (set ms) r x"
      using mono region_done_mono [OF x, of "set ms" r r] by blast
    with "2.IH"(3) [OF old run inv] show ?thesis by auto
  next
    case new
    then have run: "region_walk g gathers (rev (successors g x) @ stack) (hs_insert x members) reached
        = (ms, r)" using "2.prems"(1) by (auto split: if_splits)
    have x: "region_done g gathers (set ms) r x"
      using region_walk_mono [OF run] by (simp add: region_done_def)
    have "b \<in> set (rev (successors g x) @ stack)
        \<or> region_done g gathers (set (hs_insert x members)) reached b"
      if "a \<in> set (hs_insert x members)" "b \<in> set (successors g a)" for a b
      using "2.prems"(2) [of a b] that
      by (cases "a = x") (auto simp: region_done_def)
    from "2.IH"(4) [OF new run this] x show ?thesis by auto
  qed
qed

text \<open>The members of a scatter region are exactly the nodes that
  can be reached from a successor of the scatter without passing through a gather, provided
  some gather is reached that way; otherwise the region is empty.\<close>

theorem region_members_exact:
  "x \<in> set (region_members g scatter gathers) \<longleftrightarrow>
    (\<exists>y \<in> set (successors g scatter). \<exists>h \<in> gathers. (y, h) \<in> (region_edges g gathers)\<^sup>*)
    \<and> x \<notin> gathers \<and> graph_node g x \<noteq> None
    \<and> (\<exists>y \<in> set (successors g scatter). (y, x) \<in> (region_edges g gathers)\<^sup>*)"
proof -
  obtain ms r where walk:
    "region_walk g gathers (rev (successors g scatter)) [] False = (ms, r)" by fastforce
  note sound = region_walk_sound [OF walk, simplified]
  note complete = region_walk_complete [OF walk, simplified]
  have dn: "region_done g gathers (set ms) r z"
    if "y \<in> set (successors g scatter)" "(y, z) \<in> (region_edges g gathers)\<^sup>*" for y z
    using that(2)
  proof (induction rule: rtrancl_induct)
    case base
    show ?case using complete that(1) by blast
  next
    case (step u v)
    then have "u \<in> set ms" "v \<in> set (successors g u)"
      by (auto simp: region_edges_def region_done_def successors_adj)
    with complete show ?case by blast
  qed
  have r: "r \<longleftrightarrow> (\<exists>y \<in> set (successors g scatter). \<exists>h \<in> gathers. (y, h) \<in> (region_edges g gathers)\<^sup>*)"
  proof
    assume "\<exists>y \<in> set (successors g scatter). \<exists>h \<in> gathers. (y, h) \<in> (region_edges g gathers)\<^sup>*"
    then obtain y h where "y \<in> set (successors g scatter)" "h \<in> gathers"
      "(y, h) \<in> (region_edges g gathers)\<^sup>*" by blast
    with dn [of y h] sound show r by (auto simp: region_done_def)
  qed (use sound in blast)
  have "x \<in> set ms \<longleftrightarrow> x \<notin> gathers \<and> graph_node g x \<noteq> None
      \<and> (\<exists>y \<in> set (successors g scatter). (y, x) \<in> (region_edges g gathers)\<^sup>*)"
    using sound dn [of _ x] by (auto simp: region_done_def)
  then show ?thesis using r by (simp add: region_members_def walk)
qed

section \<open>Cycles\<close>

definition known_edges :: "('a \<times> 'a) list \<Rightarrow> ('a \<Rightarrow> bool) \<Rightarrow> ('a \<times> 'a) set" where
  "known_edges es known = {(a, b). (a, b) \<in> set es \<and> known b}"

lemma closure_walk_sound:
  "set (closure_walk es known stack acc) \<subseteq>
    set acc \<union> {y. \<exists>x \<in> set stack. (x, y) \<in> (known_edges es known)\<^sup>*}"
proof (induction es known stack acc rule: closure_walk.induct)
  case (2 es known x stack acc)
  obtain st ac where p: "push_new known (adj es x) (stack, acc) = (st, ac)" by fastforce
  note spec = push_new_spec [OF p]
  have step: "(x, z) \<in> (known_edges es known)\<^sup>*"
    if "(x, y) \<in> set es" "known y" "(y, z) \<in> (known_edges es known)\<^sup>*" for y z
    by (rule converse_rtrancl_into_rtrancl [OF _ that(3)]) (use that in \<open>simp add: known_edges_def\<close>)
  have "set (closure_walk es known st ac) \<subseteq>
      set ac \<union> {y. \<exists>x \<in> set st. (x, y) \<in> (known_edges es known)\<^sup>*}"
    using "2.IH" p by simp
  with spec step show ?case by (auto simp: p)
qed simp

lemma closure_walk_complete:
  assumes "\<And>a b. a \<in> set acc \<Longrightarrow> (a, b) \<in> known_edges es known \<Longrightarrow> b \<in> set acc \<or> a \<in> set stack"
  shows "set acc \<subseteq> set (closure_walk es known stack acc)
    \<and> (\<forall>a b. a \<in> set (closure_walk es known stack acc) \<longrightarrow> (a, b) \<in> known_edges es known
         \<longrightarrow> b \<in> set (closure_walk es known stack acc))
    \<and> (distinct acc \<longrightarrow> distinct (closure_walk es known stack acc))"
  using assms
proof (induction es known stack acc rule: closure_walk.induct)
  case (2 es known x stack acc)
  obtain st ac where p: "push_new known (adj es x) (stack, acc) = (st, ac)" by fastforce
  note spec = push_new_spec [OF p]
  have inv: "b \<in> set ac \<or> a \<in> set st" if "a \<in> set ac" "(a, b) \<in> known_edges es known" for a b
  proof (cases "a \<in> set acc")
    case True
    with "2.prems" [OF True that(2)] that(2) spec show ?thesis
      by (cases "a = x") (auto simp: known_edges_def)
  next
    case False
    with that spec show ?thesis by auto
  qed
  note IH = "2.IH" [OF p [symmetric] refl inv]
  have eq: "closure_walk es known (x # stack) acc = closure_walk es known st ac"
    by (simp add: p)
  show ?case unfolding eq using IH spec by blast
qed auto

lemma set_closure_walk:
  "set (closure_walk es known [x] [x]) = {y. (x, y) \<in> (known_edges es known)\<^sup>*}"
proof -
  have "set (closure_walk es known [x] [x]) \<subseteq> {y. (x, y) \<in> (known_edges es known)\<^sup>*}"
    using closure_walk_sound [of es known "[x]" "[x]"] by (auto simp del: closure_walk.simps)
  moreover have "y \<in> set (closure_walk es known [x] [x])"
    if "(x, y) \<in> (known_edges es known)\<^sup>*" for y
    by (rule closed_rtrancl [OF that])
       (use closure_walk_complete [of "[x]" es known "[x]"] in \<open>auto simp del: closure_walk.simps\<close>)
  ultimately show ?thesis by blast
qed

lemma known_edges_converse:
  "known_edges (map prod.swap es) known = {(b, a). (a, b) \<in> set es \<and> known a}"
  by (force simp: known_edges_def)

lemma rtrancl_known_iff:
  assumes "\<And>a b. (a, b) \<in> set es \<Longrightarrow> known a \<and> known b"
  shows "known_edges es known = set es" "known_edges (map prod.swap es) known = (set es)\<inverse>"
  using assms by (auto simp: known_edges_converse known_edges_def)

definition edges_known :: "workflow_graph \<Rightarrow> bool" where
  "edges_known g \<longleftrightarrow> (\<forall>e \<in> set (edges g). graph_node g (from_node e) \<noteq> None
      \<and> graph_node g (to_node e) \<noteq> None)"

lemma edges_knownD: "edges_known g \<Longrightarrow> (a, b) \<in> set (edge_pairs g) \<Longrightarrow>
    graph_node g a \<noteq> None \<and> graph_node g b \<noteq> None"
  by (auto simp: edges_known_def edge_pairs_def)

text \<open>In a graph whose edges name existing nodes, the nodes
  reported on the cycle closed by an edge from \<open>end\<close> to \<open>start\<close> are exactly those on some walk
  from \<open>start\<close> to \<open>end\<close>.\<close>

theorem nodes_on_cycle_exact:
  assumes "edges_known g" "graph_node g start \<noteq> None" "graph_node g end \<noteq> None"
  shows "set (nodes_on_cycle g start end) =
    {x. (start, x) \<in> (set (edge_pairs g))\<^sup>* \<and> (x, end) \<in> (set (edge_pairs g))\<^sup>*}"
proof -
  note known = rtrancl_known_iff
    [of "edge_pairs g" "\<lambda>x. graph_node g x \<noteq> None", OF edges_knownD [OF assms(1)]]
  have "known_edges (edge_pairs g) (\<lambda>x. graph_node g x \<noteq> None) = set (edge_pairs g)"
    "known_edges (map prod.swap (edge_pairs g)) (\<lambda>x. graph_node g x \<noteq> None)
      = (set (edge_pairs g))\<inverse>"
    using known by blast+
  then show ?thesis
    using assms(2,3)
    by (auto simp: nodes_on_cycle_def Let_def set_closure_walk rtrancl_converse
          simp del: not_None_eq closure_walk.simps)
qed

definition cycle_graph :: workflow_graph where
  "cycle_graph = mk_graph
    [mk_node ''t'' Trigger [], mk_node ''a'' Transform [], mk_node ''b'' Transform []]
    [mk_edge ''t'' ''main'' ''a'', mk_edge ''a'' ''main'' ''b'', mk_edge ''b'' ''main'' ''a'']"

theorem nodes_on_cycle_exact_witness:
  "edges_known cycle_graph
    \<and> (''a'', ''b'') \<in> (set (edge_pairs cycle_graph))\<^sup>* \<and> ''b'' \<in> set (nodes_on_cycle cycle_graph ''a'' ''b'')"
proof -
  have k: "edges_known cycle_graph"
    by (simp add: edges_known_def cycle_graph_def mk_simps graph_node_def)
  have "(''a'', ''b'') \<in> (set (edge_pairs cycle_graph))\<^sup>*"
    by (rule r_into_rtrancl) (simp add: cycle_graph_def mk_simps edge_pairs_def)
  moreover have "graph_node cycle_graph ''a'' \<noteq> None" "graph_node cycle_graph ''b'' \<noteq> None"
    by (simp_all add: cycle_graph_def mk_simps graph_node_def)
  ultimately show ?thesis using nodes_on_cycle_exact [of cycle_graph "''a''" "''b''"] k by simp
qed

end
