(* ===== verification/Tf_BackEdges.thy ===== *)
theory Tf_BackEdges
  imports Tf_Paths
begin

text \<open>
  The coloured depth-first walk \<open>back_edges\<close> of \<open>engine/routing.rs\<close>, which decides the edges
  the lowering treats as loop re-entries.  The walk is modelled with its explicit frame stack
  (node, outgoing edges, cursor).  Removing the reported edges leaves an acyclic graph, every
  reported edge closes a cycle, and so the report is empty exactly for acyclic graphs.
\<close>

section \<open>The walk\<close>

datatype colour = Grey | Black

type_synonym colours = "string \<rightharpoonup> colour"

type_synonym frame = "string \<times> edge list \<times> nat"

definition outgoing :: "workflow_graph \<Rightarrow> string \<Rightarrow> edge list" where
  "outgoing g x = filter (\<lambda>e. from_node e = x) (edges g)"

function visit_loop ::
  "workflow_graph \<Rightarrow> frame list \<Rightarrow> colours \<Rightarrow> (string \<times> string) hset
    \<Rightarrow> colours \<times> (string \<times> string) hset" where
  "visit_loop g [] col found = (col, found)"
| "visit_loop g ((x, es, cursor) # stack) col found =
    (if length es \<le> cursor then visit_loop g stack (col(x \<mapsto> Black)) found
     else
       let e = es ! cursor; stack' = (x, es, Suc cursor) # stack in
       case graph_node g (to_node e) of
         None \<Rightarrow> visit_loop g stack' col found
       | Some n \<Rightarrow>
          (case col (node_id n) of
             Some Grey \<Rightarrow> visit_loop g stack' col (hs_insert (from_node e, to_node e) found)
           | Some Black \<Rightarrow> visit_loop g stack' col found
           | None \<Rightarrow>
               visit_loop g ((node_id n, outgoing g (node_id n), 0) # stack')
                 (col(node_id n \<mapsto> Grey)) found))"
  by pat_completeness auto

definition frame_work :: "frame \<Rightarrow> nat" where
  "frame_work f = (case f of (x, es, cursor) \<Rightarrow> Suc (length es - cursor))"

lemma uncoloured_less:
  assumes "graph_node g i = Some n" "col (node_id n) = None"
  shows "card (set (node_ids g) - dom (col(node_id n \<mapsto> c))) < card (set (node_ids g) - dom col)"
proof (rule psubset_card_mono)
  have "node_id n \<in> set (node_ids g)" using graph_node_SomeD [OF assms(1)] by auto
  moreover have "node_id n \<notin> dom col" using assms(2) by auto
  ultimately show "set (node_ids g) - dom (col(node_id n \<mapsto> c)) \<subset> set (node_ids g) - dom col"
    by auto
qed simp

lemma uncoloured_le: "card (set (node_ids g) - dom (col(x \<mapsto> c))) \<le> card (set (node_ids g) - dom col)"
  by (intro card_mono) auto

termination visit_loop
proof (relation "measures [\<lambda>(g, _, col, _). card (set (node_ids g) - dom col),
                           \<lambda>(_, stack, _, _). sum_list (map frame_work stack)]", goal_cases)
  case (2 g x es cursor stack col found)
  then show ?case using uncoloured_le [of g col x Black] by (auto simp: frame_work_def)
next
  case (4 g x es cursor stack col found e stack' n)
  then show ?case using uncoloured_less [of g "to_node e" n col Grey] by simp
qed (auto simp: frame_work_def)

declare visit_loop.simps(2) [simp del]

lemma visit_loop_steps:
  "length es \<le> cursor \<Longrightarrow>
    visit_loop g ((x, es, cursor) # stack) col found = visit_loop g stack (col(x \<mapsto> Black)) found"
  "\<not> length es \<le> cursor \<Longrightarrow> graph_node g (to_node (es ! cursor)) = None \<Longrightarrow>
    visit_loop g ((x, es, cursor) # stack) col found = visit_loop g ((x, es, Suc cursor) # stack) col found"
  "\<not> length es \<le> cursor \<Longrightarrow> graph_node g (to_node (es ! cursor)) = Some n \<Longrightarrow>
    col (node_id n) = Some Grey \<Longrightarrow>
    visit_loop g ((x, es, cursor) # stack) col found = visit_loop g ((x, es, Suc cursor) # stack) col
      (hs_insert (from_node (es ! cursor), to_node (es ! cursor)) found)"
  "\<not> length es \<le> cursor \<Longrightarrow> graph_node g (to_node (es ! cursor)) = Some n \<Longrightarrow>
    col (node_id n) = Some Black \<Longrightarrow>
    visit_loop g ((x, es, cursor) # stack) col found = visit_loop g ((x, es, Suc cursor) # stack) col found"
  "\<not> length es \<le> cursor \<Longrightarrow> graph_node g (to_node (es ! cursor)) = Some n \<Longrightarrow>
    col (node_id n) = None \<Longrightarrow>
    visit_loop g ((x, es, cursor) # stack) col found
      = visit_loop g ((node_id n, outgoing g (node_id n), 0) # (x, es, Suc cursor) # stack)
          (col(node_id n \<mapsto> Grey)) found"
  by (subst visit_loop.simps(2), simp add: Let_def)+

definition visit ::
  "workflow_graph \<Rightarrow> string \<Rightarrow> colours \<times> (string \<times> string) hset
    \<Rightarrow> colours \<times> (string \<times> string) hset" where
  "visit g root st =
    (let (col, found) = st in
     if col root \<noteq> None then (col, found)
     else visit_loop g [(root, outgoing g root, 0)] (col(root \<mapsto> Grey)) found)"

definition back_edges :: "workflow_graph \<Rightarrow> (string \<times> string) hset" where
  "back_edges g =
    (let st0 = (Map.empty, []);
         st1 = (case trigger g of Some t \<Rightarrow> visit g (node_id t) st0 | None \<Rightarrow> st0)
     in snd (fold (visit g) (node_ids g) st1))"

section \<open>The invariant of the walk\<close>

definition settled ::
  "workflow_graph \<Rightarrow> colours \<Rightarrow> (string \<times> string) set \<Rightarrow> edge \<Rightarrow> bool" where
  "settled g col found e \<longleftrightarrow>
    (from_node e, to_node e) \<in> found \<or> col (to_node e) = Some Black \<or> graph_node g (to_node e) = None"

text \<open>Every explored edge of an open frame is settled, except the one to the frame up it.\<close>

fun frames_ok ::
  "workflow_graph \<Rightarrow> colours \<Rightarrow> (string \<times> string) set \<Rightarrow> string option \<Rightarrow> frame list \<Rightarrow> bool" where
  "frames_ok g col found up [] \<longleftrightarrow> True"
| "frames_ok g col found up ((x, es, cursor) # stack) \<longleftrightarrow>
    es = outgoing g x
    \<and> (\<forall>i < cursor. i < length es \<longrightarrow> settled g col found (es ! i) \<or> up = Some (to_node (es ! i)))
    \<and> frames_ok g col found (Some x) stack"

text \<open>Each frame was opened along an edge from the frame below it.\<close>

fun chain_ok :: "workflow_graph \<Rightarrow> frame list \<Rightarrow> bool" where
  "chain_ok g (f # f' # stack) \<longleftrightarrow> (fst f', fst f) \<in> set (edge_pairs g) \<and> chain_ok g (f' # stack)"
| "chain_ok g _ \<longleftrightarrow> True"

definition black_edges ::
  "workflow_graph \<Rightarrow> colours \<Rightarrow> (string \<times> string) set \<Rightarrow> (string \<times> string) set" where
  "black_edges g col found =
    {(a, b). (a, b) \<in> set (edge_pairs g) \<and> (a, b) \<notin> found \<and> col a = Some Black \<and> graph_node g b \<noteq> None}"

definition walk_inv :: "workflow_graph \<Rightarrow> frame list \<Rightarrow> colours \<Rightarrow> (string \<times> string) set \<Rightarrow> bool" where
  "walk_inv g stack col found \<longleftrightarrow>
    {x. col x = Some Grey} = set (map fst stack) \<and> distinct (map fst stack)
    \<and> frames_ok g col found None stack \<and> chain_ok g stack
    \<and> (\<forall>(a, b) \<in> black_edges g col found. col b = Some Black)
    \<and> acyclic (black_edges g col found)
    \<and> (\<forall>(a, b) \<in> found. (a, b) \<in> set (edge_pairs g) \<and> (b, a) \<in> (set (edge_pairs g))\<^sup>*)"

lemma set_outgoing [simp]: "e \<in> set (outgoing g x) \<longleftrightarrow> e \<in> set (edges g) \<and> from_node e = x"
  by (auto simp: outgoing_def)

lemma edge_pairI: "e \<in> set (edges g) \<Longrightarrow> (from_node e, to_node e) \<in> set (edge_pairs g)"
  by (auto simp: edge_pairs_def)

lemma frames_ok_mono:
  assumes "frames_ok g col found up stack"
    and "\<And>e. settled g col found e \<Longrightarrow> settled g col' found' e"
    and "\<And>e. up = Some (to_node e) \<Longrightarrow> up' = up \<or> settled g col' found' e"
  shows "frames_ok g col' found' up' stack"
  using assms(1,3)
proof (induction stack arbitrary: up up')
  case (Cons f stack)
  obtain x es cursor where f: "f = (x, es, cursor)" by (cases f)
  have "frames_ok g col' found' (Some x) stack"
    using Cons.prems(1) unfolding f by (intro Cons.IH [of "Some x"]) auto
  with Cons.prems assms(2) show ?case unfolding f by (auto; blast)
qed simp

lemma chain_reach:
  assumes "chain_ok g (f # stack)" "y \<in> set (map fst (f # stack))"
  shows "(y, fst f) \<in> (set (edge_pairs g))\<^sup>*"
  using assms
proof (induction stack arbitrary: f)
  case (Cons f' stack)
  show ?case
  proof (cases "y = fst f")
    case False
    with Cons have "(y, fst f') \<in> (set (edge_pairs g))\<^sup>*" by auto
    with Cons.prems(1) show ?thesis by (auto intro: rtrancl_into_rtrancl)
  qed simp
qed simp

text \<open>Turning a node black whose remaining edges all lead to black nodes keeps the black
  part closed and acyclic.\<close>

lemma acyclic_add_source:
  assumes "acyclic r" "\<And>a b. (a, b) \<in> r \<Longrightarrow> b \<noteq> x" "\<And>a b. (a, b) \<in> s \<Longrightarrow> a = x \<and> b \<noteq> x"
  shows "acyclic (r \<union> s)"
proof (rule acyclicI, rule allI, rule notI)
  fix y assume cyc: "(y, y) \<in> (r \<union> s)\<^sup>+"
  have no_in: "b \<noteq> x" if "(a, b) \<in> (r \<union> s)\<^sup>+" for a b
    using that by (induction rule: trancl.induct) (use assms(2,3) in blast)+
  have "(a, b) \<in> r\<^sup>+" if "(a, b) \<in> (r \<union> s)\<^sup>+" "a \<noteq> x" for a b
    using that
  proof (induction rule: trancl.induct)
    case (r_into_trancl a b)
    then show ?case using assms(3) by blast
  next
    case (trancl_into_trancl a b c)
    then have "b \<noteq> x" using no_in by blast
    with trancl_into_trancl assms(3) show ?case by (auto intro: trancl.trancl_into_trancl)
  qed
  with cyc no_in [OF cyc] assms(1) show False by (auto simp: acyclic_def)
qed

lemma black_edges_finish:
  "black_edges g (col(x \<mapsto> Black)) found
    = black_edges g col found
      \<union> {(a, b). a = x \<and> (a, b) \<in> set (edge_pairs g) \<and> (a, b) \<notin> found \<and> graph_node g b \<noteq> None}"
  by (auto simp: black_edges_def)

lemma black_edges_anti: "found \<subseteq> found' \<Longrightarrow> black_edges g col found' \<subseteq> black_edges g col found"
  by (auto simp: black_edges_def)

lemma black_edges_grey: "col x = None \<Longrightarrow> black_edges g (col(x \<mapsto> Grey)) found = black_edges g col found"
  by (auto simp: black_edges_def split: if_splits)

section \<open>Each turn of the loop keeps the invariant\<close>

lemma inv_finish:
  assumes "walk_inv g ((x, es, cursor) # stack) col found" "length es \<le> cursor"
  shows "walk_inv g stack (col(x \<mapsto> Black)) found"
proof -
  note inv = assms(1) [unfolded walk_inv_def]
  have grey: "col x = Some Grey" using inv by (auto simp: set_eq_iff)
  have x: "x \<notin> set (map fst stack)" using inv by simp
  have out: "col b = Some Black"
    if "(x, b) \<in> set (edge_pairs g)" "(x, b) \<notin> found" "graph_node g b \<noteq> None" for b
  proof -
    from that(1) obtain e where e: "e \<in> set (outgoing g x)" "to_node e = b"
      by (auto simp: edge_pairs_def)
    then obtain i where "i < length es" "es ! i = e"
      using inv by (auto simp: in_set_conv_nth)
    with inv assms(2) have "settled g col found e" by auto
    with e that show ?thesis by (auto simp: settled_def)
  qed
  let ?new = "{(a, b). a = x \<and> (a, b) \<in> set (edge_pairs g) \<and> (a, b) \<notin> found \<and> graph_node g b \<noteq> None}"
  have closed: "\<forall>(a, b) \<in> black_edges g (col(x \<mapsto> Black)) found. (col(x \<mapsto> Black)) b = Some Black"
    using inv out unfolding black_edges_finish by auto
  have "acyclic (black_edges g col found \<union> ?new)"
  proof (rule acyclic_add_source [of _ x])
    show "acyclic (black_edges g col found)" using inv by blast
    show "b \<noteq> x" if "(a, b) \<in> black_edges g col found" for a b
      using inv that grey by auto
    show "a = x \<and> b \<noteq> x" if "(a, b) \<in> ?new" for a b
      using out that grey by auto
  qed
  moreover have "frames_ok g (col(x \<mapsto> Black)) found None stack"
  proof (rule frames_ok_mono [of g col found "Some x"])
    show "frames_ok g col found (Some x) stack" using inv by simp
  qed (auto simp: settled_def)
  moreover have "chain_ok g stack" using inv by (cases stack) auto
  moreover have "{y. (col(x \<mapsto> Black)) y = Some Grey} = set (map fst stack)"
    using inv x by (auto simp: set_eq_iff)
  ultimately show ?thesis
    using inv closed unfolding walk_inv_def black_edges_finish by auto
qed

lemma inv_skip:
  assumes "walk_inv g ((x, es, cursor) # stack) col found" "cursor < length es"
    and "settled g col found' (es ! cursor)"
    and "found' = found \<or> found' = insert (from_node (es ! cursor), to_node (es ! cursor)) found
      \<and> col (to_node (es ! cursor)) = Some Grey"
  shows "walk_inv g ((x, es, Suc cursor) # stack) col found'"
proof -
  note inv = assms(1) [unfolded walk_inv_def]
  have es: "es = outgoing g x" using inv by simp
  have edge: "es ! cursor \<in> set (edges g)" "from_node (es ! cursor) = x"
    using nth_mem [OF assms(2)] unfolding es by simp_all
  have sub: "found \<subseteq> found'" using assms(4) by blast
  have mono: "settled g col found e \<Longrightarrow> settled g col found' e" for e
    using sub by (auto simp: settled_def)
  have fr: "frames_ok g col found' None ((x, es, cursor) # stack)"
    by (rule frames_ok_mono [of g col found None]) (use inv mono in auto)
  then have "frames_ok g col found' None ((x, es, Suc cursor) # stack)"
    using assms(3) mono by (auto simp: less_Suc_eq)
  moreover have "\<forall>(a, b) \<in> found'. (a, b) \<in> set (edge_pairs g) \<and> (b, a) \<in> (set (edge_pairs g))\<^sup>*"
  proof -
    have "(from_node (es ! cursor), to_node (es ! cursor)) \<in> set (edge_pairs g)
        \<and> (to_node (es ! cursor), from_node (es ! cursor)) \<in> (set (edge_pairs g))\<^sup>*"
      if "col (to_node (es ! cursor)) = Some Grey"
    proof -
      have "to_node (es ! cursor) \<in> set (map fst ((x, es, cursor) # stack))"
        using inv that by (auto simp: set_eq_iff)
      moreover have "chain_ok g ((x, es, cursor) # stack)" using inv by blast
      ultimately have "(to_node (es ! cursor), x) \<in> (set (edge_pairs g))\<^sup>*"
        using chain_reach [of g "(x, es, cursor)" stack] by (simp only: fst_conv)
      with edge edge_pairI [OF edge(1)] show ?thesis by simp
    qed
    with assms(4) inv show ?thesis by auto
  qed
  moreover have "acyclic (black_edges g col found')"
    using inv black_edges_anti [OF sub, of g col] acyclic_subset by blast
  moreover have "\<forall>(a, b) \<in> black_edges g col found'. col b = Some Black"
    using inv black_edges_anti [OF sub, of g col] by blast
  moreover have "chain_ok g ((x, es, Suc cursor) # stack)"
    using inv by (cases stack) auto
  ultimately show ?thesis using inv unfolding walk_inv_def by auto
qed

lemma inv_push:
  assumes "walk_inv g ((x, es, cursor) # stack) col found" "cursor < length es"
    and "col (to_node (es ! cursor)) = None"
  shows "walk_inv g ((to_node (es ! cursor), outgoing g (to_node (es ! cursor)), 0)
            # (x, es, Suc cursor) # stack) (col(to_node (es ! cursor) \<mapsto> Grey)) found"
proof -
  let ?t = "to_node (es ! cursor)"
  note inv = assms(1) [unfolded walk_inv_def]
  have es: "es = outgoing g x" using inv by simp
  have edge: "es ! cursor \<in> set (edges g)" "from_node (es ! cursor) = x"
    using nth_mem [OF assms(2)] unfolding es by simp_all
  have mono: "settled g col found e \<Longrightarrow> settled g (col(?t \<mapsto> Grey)) found e" for e
    using assms(3) by (auto simp: settled_def)
  have "frames_ok g (col(?t \<mapsto> Grey)) found None ((x, es, cursor) # stack)"
    by (rule frames_ok_mono [of g col found None]) (use inv mono in auto)
  then have "frames_ok g (col(?t \<mapsto> Grey)) found (Some ?t) ((x, es, Suc cursor) # stack)"
    by (auto simp: less_Suc_eq)
  moreover have "?t \<notin> set (map fst ((x, es, cursor) # stack))"
    using inv assms(3) by (metis (mono_tags) mem_Collect_eq option.distinct(1))
  moreover have "(x, ?t) \<in> set (edge_pairs g)" using edge edge_pairI by force
  moreover have "chain_ok g ((x, es, Suc cursor) # stack)"
    using inv by (cases stack) auto
  moreover have "{y. (col(?t \<mapsto> Grey)) y = Some Grey} = insert ?t {y. col y = Some Grey}"
    by auto
  moreover have "\<forall>(a, b) \<in> black_edges g col found. (col(?t \<mapsto> Grey)) b = Some Black"
    using inv assms(3) by auto
  ultimately show ?thesis
    using inv unfolding walk_inv_def black_edges_grey [of col ?t g found, OF assms(3)] by auto
qed

lemma dom_upd_mono: "dom (col(x \<mapsto> c)) \<subseteq> D \<Longrightarrow> dom col \<subseteq> D"
  by simp

lemma visit_loop_inv:
  assumes "walk_inv g stack col (set found)" "visit_loop g stack col found = (col', found')"
  shows "walk_inv g [] col' (set found') \<and> dom col \<subseteq> dom col'"
  using assms
proof (induction g stack col found rule: visit_loop.induct)
  case (2 g x es cursor stack col found)
  note inv = "2.prems"(1)
  show ?case
  proof (cases "length es \<le> cursor")
    case True
    then have "visit_loop g stack (col(x \<mapsto> Black)) found = (col', found')"
      using "2.prems"(2) by (simp add: visit_loop_steps(1))
    from "2.IH"(1) [OF True inv_finish [OF inv True] this]
    show ?thesis using dom_upd_mono [of col x Black "dom col'"] by blast
  next
    case False
    then have cur: "cursor < length es" by simp
    let ?e = "es ! cursor"
    let ?stack = "(x, es, Suc cursor) # stack"
    have skip: "walk_inv g ?stack col (set found)" if "settled g col (set found) ?e"
      using inv_skip [OF inv cur that] by simp
    show ?thesis
    proof (cases "graph_node g (to_node ?e)")
      case None
      then have "walk_inv g ?stack col (set found)" by (intro skip) (simp add: settled_def)
      with "2.IH"(2) [OF False refl refl None] "2.prems"(2) show ?thesis
        by (simp add: visit_loop_steps(2) False None)
    next
      case (Some n)
      then have n: "node_id n = to_node ?e" using graph_node_SomeD by blast
      show ?thesis
      proof (cases "col (node_id n)")
        case None
        let ?push = "(node_id n, outgoing g (node_id n), 0) # ?stack"
        have "walk_inv g ?push (col(node_id n \<mapsto> Grey)) (set found)"
          using inv_push [OF inv cur] None n by simp
        moreover have "visit_loop g ?push (col(node_id n \<mapsto> Grey)) found = (col', found')"
          using "2.prems"(2) by (simp add: visit_loop_steps(5) False Some None)
        ultimately have "walk_inv g [] col' (set found') \<and> dom (col(node_id n \<mapsto> Grey)) \<subseteq> dom col'"
          by (rule "2.IH"(3) [OF False refl refl Some None])
        then show ?thesis using dom_upd_mono [of col "node_id n" Grey "dom col'"] by blast
      next
        case c: (Some c)
        show ?thesis
        proof (cases c)
          case Grey
          have "walk_inv g ?stack col (insert (from_node ?e, to_node ?e) (set found))"
            by (rule inv_skip [OF inv cur]) (use c Grey n in \<open>simp_all add: settled_def\<close>)
          with "2.IH"(4) [OF False refl refl Some c Grey] "2.prems"(2) show ?thesis
            by (simp add: visit_loop_steps(3) False Some c Grey)
        next
          case Black
          then have "walk_inv g ?stack col (set found)"
            by (intro skip) (use c n in \<open>simp add: settled_def\<close>)
          with "2.IH"(5) [OF False refl refl Some c Black] "2.prems"(2) show ?thesis
            by (simp add: visit_loop_steps(4) False Some c Black)
        qed
      qed
    qed
  qed
qed simp

lemma visit_inv:
  assumes "walk_inv g [] col (set found)" "visit g root (col, found) = (col', found')"
  shows "walk_inv g [] col' (set found') \<and> dom col \<subseteq> dom col' \<and> root \<in> dom col'"
proof (cases "col root")
  case None
  have "walk_inv g [(root, outgoing g root, 0)] (col(root \<mapsto> Grey)) (set found)"
    using assms(1) None black_edges_grey [of col root g "set found"]
    by (auto simp: walk_inv_def)
  moreover have "visit_loop g [(root, outgoing g root, 0)] (col(root \<mapsto> Grey)) found = (col', found')"
    using assms(2) None by (simp add: visit_def)
  ultimately show ?thesis using visit_loop_inv by fastforce
next
  case (Some c)
  with assms show ?thesis by (auto simp: visit_def)
qed

lemma fold_visit_inv:
  assumes "walk_inv g [] col (set found)" "fold (visit g) roots (col, found) = (col', found')"
  shows "walk_inv g [] col' (set found') \<and> dom col \<subseteq> dom col' \<and> set roots \<subseteq> dom col'"
  using assms
proof (induction roots arbitrary: col found)
  case (Cons r roots)
  obtain c1 f1 where v: "visit g r (col, found) = (c1, f1)" by fastforce
  note inv1 = visit_inv [OF Cons.prems(1) v]
  then have *: "walk_inv g [] col' (set found') \<and> dom c1 \<subseteq> dom col' \<and> set roots \<subseteq> dom col'"
    using Cons.IH [of c1 f1] Cons.prems(2) v by simp
  with inv1 have "dom col \<subseteq> dom col'" "r \<in> dom col'" by blast+
  with * show ?case by simp
qed simp

lemma back_edges_inv:
  obtains col where "walk_inv g [] col (set (back_edges g))" "set (node_ids g) \<subseteq> dom col"
proof -
  have inv0: "walk_inv g [] Map.empty (set [])"
    by (simp add: walk_inv_def black_edges_def acyclic_def)
  obtain c1 f1 where st1: "(case trigger g of Some t \<Rightarrow> visit g (node_id t) (Map.empty, [])
      | None \<Rightarrow> (Map.empty, [])) = (c1, f1)" by fastforce
  have inv1: "walk_inv g [] c1 (set f1)"
    using st1 inv0 visit_inv [OF inv0] by (auto split: option.splits)
  obtain c2 f2 where st2: "fold (visit g) (node_ids g) (c1, f1) = (c2, f2)" by fastforce
  have "back_edges g = f2" by (simp add: back_edges_def st1 st2 Let_def)
  with fold_visit_inv [OF inv1 st2] that show ?thesis by blast
qed

lemma forward_edges_black:
  assumes "edges_known g"
  obtains col where "walk_inv g [] col (set (back_edges g))"
    "set (edge_pairs g) - set (back_edges g) \<subseteq> black_edges g col (set (back_edges g))"
proof -
  obtain col where inv: "walk_inv g [] col (set (back_edges g))" "set (node_ids g) \<subseteq> dom col"
    by (rule back_edges_inv)
  have black: "col x = Some Black" if "graph_node g x \<noteq> None" for x
  proof -
    from that have "x \<in> dom col" using inv(2) by (auto simp: graph_node_None_iff)
    moreover have "col x \<noteq> Some Grey" using inv(1) by (auto simp: walk_inv_def)
    ultimately show ?thesis by (auto, metis colour.exhaust)
  qed
  have "set (edge_pairs g) - set (back_edges g) \<subseteq> black_edges g col (set (back_edges g))"
    using black edges_knownD [OF assms] by (auto simp: black_edges_def)
  with inv(1) that show ?thesis by blast
qed

lemma forward_edges_acyclic:
  assumes "edges_known g"
  shows "acyclic (set (edge_pairs g) - set (back_edges g))"
proof -
  obtain col where "walk_inv g [] col (set (back_edges g))"
    "set (edge_pairs g) - set (back_edges g) \<subseteq> black_edges g col (set (back_edges g))"
    by (rule forward_edges_black [OF assms])
  then show ?thesis by (auto simp: walk_inv_def intro: acyclic_subset)
qed

lemma back_edge_cycle:
  "(a, b) \<in> set (back_edges g) \<Longrightarrow> (a, b) \<in> set (edge_pairs g) \<and> (b, a) \<in> (set (edge_pairs g))\<^sup>*"
  by (rule back_edges_inv [of g]) (auto simp: walk_inv_def)

section \<open>What the lowering relies on\<close>

text \<open>C13 (back_edges_cut): in a graph whose edges name existing nodes, the reported
  back-edges are edges of the graph, and removing them leaves an acyclic graph.\<close>

theorem back_edges_cut:
  assumes "edges_known g"
  shows "set (back_edges g) \<subseteq> set (edge_pairs g)
    \<and> acyclic (set (edge_pairs g) - set (back_edges g))"
  using back_edge_cycle forward_edges_acyclic [OF assms] by auto

text \<open>A reported back-edge always closes a cycle (its target reaches
  its source), so the report is empty exactly for an acyclic graph and no forward edge is
  ever lowered as a loop re-entry.\<close>

theorem back_edges_minimal:
  assumes "edges_known g"
  shows "(\<forall>(a, b) \<in> set (back_edges g). path_exists g b a)
    \<and> (back_edges g = [] \<longleftrightarrow> acyclic (set (edge_pairs g)))"
proof (intro conjI iffI)
  show "\<forall>(a, b) \<in> set (back_edges g). path_exists g b a"
    using back_edge_cycle by (auto simp: path_exists_iff)
  show "acyclic (set (edge_pairs g))" if "back_edges g = []"
    using forward_edges_acyclic [OF assms] that by simp
  show "back_edges g = []" if acyc: "acyclic (set (edge_pairs g))"
  proof -
    have False if "(a, b) \<in> set (back_edges g)" for a b
    proof -
      from back_edge_cycle [OF that] have "(a, a) \<in> (set (edge_pairs g))\<^sup>+"
        by (meson rtrancl_into_trancl2)
      with acyc show False by (simp add: acyclic_def)
    qed
    then have "set (back_edges g) = {}" by (metis equals0I surj_pair)
    then show ?thesis by simp
  qed
qed

definition loop_graph :: workflow_graph where
  "loop_graph = mk_graph
    [mk_node ''t'' Trigger [], mk_node ''a'' Transform [], mk_node ''b'' Transform []]
    [mk_edge ''t'' ''main'' ''a'', mk_edge ''a'' ''main'' ''b'', mk_edge ''b'' ''main'' ''a'']"

lemma loop_graph_known: "edges_known loop_graph"
  by (simp add: edges_known_def loop_graph_def mk_simps graph_node_def)

lemma loop_graph_back_edges: "back_edges loop_graph = [(''b'', ''a'')]"
  by (simp add: back_edges_def loop_graph_def mk_simps trigger_def visit_def visit_loop.simps
      outgoing_def graph_node_def hs_insert_def)

theorem back_edges_cut_witness:
  "acyclic (set (edge_pairs loop_graph) - {(''b'', ''a'')})"
  using back_edges_cut [OF loop_graph_known] by (simp add: loop_graph_back_edges)

theorem back_edges_minimal_witness:
  "path_exists loop_graph ''a'' ''b'' \<and> \<not> acyclic (set (edge_pairs loop_graph))"
  using back_edges_minimal [OF loop_graph_known] by (simp add: loop_graph_back_edges)

definition two_cut_graph :: workflow_graph where
  "two_cut_graph = mk_graph
    [mk_node ''t'' Trigger [], mk_node ''a'' Transform [], mk_node ''b'' Transform [],
     mk_node ''c'' Transform [], mk_node ''d'' Transform []]
    [mk_edge ''t'' ''main'' ''a'', mk_edge ''a'' ''main'' ''b'', mk_edge ''b'' ''main'' ''c'',
     mk_edge ''c'' ''main'' ''d'', mk_edge ''d'' ''main'' ''b'', mk_edge ''c'' ''x'' ''a'',
     mk_edge ''a'' ''x'' ''d'']"

text \<open>A single cycle can lose two of its edges: on this
  graph the cycle \<open>a, d, b, c, a\<close> contains both reported back-edges.\<close>

theorem back_edges_two_on_one_cycle:
  "back_edges two_cut_graph = [(''d'', ''b''), (''c'', ''a'')]
    \<and> {(''a'', ''d''), (''d'', ''b''), (''b'', ''c''), (''c'', ''a'')} \<subseteq> set (edge_pairs two_cut_graph)"
  by (simp add: back_edges_def two_cut_graph_def mk_simps trigger_def visit_def visit_loop.simps
      outgoing_def graph_node_def hs_insert_def edge_pairs_def)

end
