(* ===== verification/Tf_Validate.thy ===== *)
theory Tf_Validate
  imports Tf_Expr Tf_BackEdges
begin

text \<open>
  Structural validation: the error type of \<open>error.rs\<close> and \<open>validate_all\<close> with all its passes
  (\<open>validate.rs\<close>, \<open>validate/node_config.rs\<close>, \<open>validate/loops.rs\<close>, \<open>validate/scatter.rs\<close>,
  \<open>validate/workdir.rs\<close>, \<open>validate/agents.rs\<close>).  A pass is a function from the graph to the
  errors it appends.  The reason text of an error is a value of \<open>reason\<close>: one constructor per
  message, carrying the interpolated values.  The lemmas show what a caller may assume of an
  accepted graph: its shape, that every cycle is bounded, that memory writes stay in the flow's
  own scope, that references are literal, and that a lane region is closed.
\<close>

section \<open>Errors\<close>

datatype memory_problem =
    OperationMissing
  | OperationUnknown string
  | ScopeForbidden string string
  | ScopeUnknown string
  | MemoryRequires string string

datatype loop_problem =
    LoopMaxIterations
  | LoopState
  | LoopEmit json
  | LoopSuccessPort
  | LoopOnExceeded json
  | LoopBody

datatype lane_problem = NestedScatter | LoopInLane | ApprovalInLane | LaneStranded

datatype grant_problem =
    SlugEmpty
  | SlugExpression string
  | SlugPattern string
  | ConnectionExpression string

datatype context_problem =
    EmptyText
  | UnknownScope string
  | EmptyQuery
  | EmptySlug
  | EmptySource
  | SourceExpression string

datatype agent_problem =
    AgentIdEmpty
  | Grant grant_problem
  | Context string context_problem
  | LimitZero string
  | AgentRefExpression string
  | AgentRefType
  | ToolNotGranted string string
  | Unreadable string

datatype reason =
    RsPostcondition gap
  | RsSubWorkflowRef
  | RsExecutionUnsupported node_kind
  | RsExecutionUnknown json
  | RsNoEffect string node_kind
  | RsMustBe string json
  | RsMemory memory_problem
  | RsDedupKey
  | RsApprovalEnum string json
  | RsApprovalAssignees
  | RsVoidRoute
  | RsVoidOutgoing "string list"
  | RsVoidNoIncoming
  | RsLoop loop_problem
  | RsGatherNoScatter
  | RsScatterNoGather
  | RsLane string lane_problem
  | RsDirectoryKey string node_kind
  | RsAgent agent_problem

datatype validation_error =
    MissingTrigger
  | MultipleTriggers "string list"
  | UnknownNode string
  | DuplicateNodeId string
  | IllegalCycle string
  | DuplicateAgentId string
  | InvalidAgentDefinition string reason
  | InvalidNodeConfig string reason
  | MissingErrorRoute string
  | DuplicateEdge string string string string
  | InvalidOnError string string
  | SchemaVersionTooNew "32 word" "32 word"
  | InvalidConditionRouting string string
  | DuplicateInputName string
  | InvalidInputName string
  | InputDefaultTypeMismatch string string
  | RequiredInputWithDefault string

fun error_code :: "validation_error \<Rightarrow> string" where
  "error_code MissingTrigger = ''missing_trigger''"
| "error_code (MultipleTriggers _) = ''multiple_triggers''"
| "error_code (UnknownNode _) = ''unknown_node''"
| "error_code (DuplicateNodeId _) = ''duplicate_node_id''"
| "error_code (DuplicateAgentId _) = ''duplicate_agent_id''"
| "error_code (InvalidAgentDefinition _ _) = ''invalid_agent_definition''"
| "error_code (IllegalCycle _) = ''illegal_cycle''"
| "error_code (InvalidNodeConfig _ _) = ''invalid_node_config''"
| "error_code (MissingErrorRoute _) = ''missing_error_route''"
| "error_code (DuplicateEdge _ _ _ _) = ''duplicate_edge''"
| "error_code (InvalidOnError _ _) = ''invalid_on_error''"
| "error_code (SchemaVersionTooNew _ _) = ''schema_version_too_new''"
| "error_code (InvalidConditionRouting _ _) = ''invalid_condition_routing''"
| "error_code (DuplicateInputName _) = ''duplicate_input_name''"
| "error_code (InvalidInputName _) = ''invalid_input_name''"
| "error_code (InputDefaultTypeMismatch _ _) = ''input_default_type_mismatch''"
| "error_code (RequiredInputWithDefault _) = ''required_input_with_default''"

fun error_node_id :: "validation_error \<Rightarrow> string option" where
  "error_node_id (UnknownNode i) = Some i"
| "error_node_id (DuplicateNodeId i) = Some i"
| "error_node_id (IllegalCycle i) = Some i"
| "error_node_id (MissingErrorRoute i) = Some i"
| "error_node_id (InvalidNodeConfig n _) = Some n"
| "error_node_id (InvalidOnError n _) = Some n"
| "error_node_id (InvalidConditionRouting n _) = Some n"
| "error_node_id (DuplicateEdge a _ _ _) = Some a"
| "error_node_id _ = None"

fun error_input_name :: "validation_error \<Rightarrow> string option" where
  "error_input_name (DuplicateInputName n) = Some n"
| "error_input_name (InvalidInputName n) = Some n"
| "error_input_name (RequiredInputWithDefault n) = Some n"
| "error_input_name (InputDefaultTypeMismatch n _) = Some n"
| "error_input_name _ = None"

section \<open>Shape\<close>

definition bad :: "bool \<Rightarrow> validation_error \<Rightarrow> validation_error list" where
  "bad b e = (if b then [e] else [])"

abbreviation invalid :: "node \<Rightarrow> bool \<Rightarrow> reason \<Rightarrow> validation_error list" where
  "invalid n b r \<equiv> bad b (InvalidNodeConfig (node_id n) r)"

fun repeated :: "'a set \<Rightarrow> 'a list \<Rightarrow> 'a list" where
  "repeated seen [] = []"
| "repeated seen (x # xs) = (if x \<in> seen then [x] else []) @ repeated (insert x seen) xs"

definition validate_ids :: "workflow_graph \<Rightarrow> validation_error list" where
  "validate_ids g = map DuplicateNodeId (repeated {} (node_ids g))"

definition validate_trigger :: "workflow_graph \<Rightarrow> validation_error list" where
  "validate_trigger g =
    (let triggers = map node_id (filter (\<lambda>n. kind n = Trigger) (nodes g)) in
     if triggers = [] then [MissingTrigger]
     else if length triggers = 1 then []
     else [MultipleTriggers triggers])"

definition edge_key :: "edge \<Rightarrow> string \<times> string \<times> string \<times> string" where
  "edge_key e = (from_node e, from_port e, to_node e, to_port e)"

fun validate_edges ::
  "workflow_graph \<Rightarrow> (string \<times> string \<times> string \<times> string) set \<Rightarrow> edge list \<Rightarrow> validation_error list" where
  "validate_edges g seen [] = []"
| "validate_edges g seen (e # es) =
    bad (graph_node g (from_node e) = None) (UnknownNode (from_node e))
    @ bad (graph_node g (to_node e) = None) (UnknownNode (to_node e))
    @ bad (edge_key e \<in> seen) (DuplicateEdge (from_node e) (from_port e) (to_node e) (to_port e))
    @ validate_edges g (insert (edge_key e) seen) es"

definition has_port_edge :: "workflow_graph \<Rightarrow> string \<Rightarrow> string \<Rightarrow> bool" where
  "has_port_edge g i p \<longleftrightarrow> (\<exists>e \<in> set (edges g). from_node e = i \<and> from_port e = p)"

definition validate_on_error :: "workflow_graph \<Rightarrow> node \<Rightarrow> validation_error list" where
  "validate_on_error g n =
    (case cfg_str n ''on_error'' of
       None \<Rightarrow> []
     | Some p \<Rightarrow>
        if p = ''stop'' \<or> p = ''continue'' then []
        else if p = ''route'' then
          if kind n = Void then [InvalidNodeConfig (node_id n) RsVoidRoute]
          else bad (\<not> has_port_edge g (node_id n) ''error'') (MissingErrorRoute (node_id n))
        else [InvalidOnError (node_id n) p])"

definition validate_void :: "workflow_graph \<Rightarrow> node \<Rightarrow> validation_error list" where
  "validate_void g n =
    (if kind n \<noteq> Void then []
     else
       let targets = remdups_adj (sort (map to_node (filter (\<lambda>e. from_node e = node_id n) (edges g))))
       in invalid n (targets \<noteq> []) (RsVoidOutgoing targets)
        @ invalid n (\<not> (\<exists>e \<in> set (edges g). to_node e = node_id n)) RsVoidNoIncoming)"

definition validate_conditions :: "workflow_graph \<Rightarrow> validation_error list" where
  "validate_conditions g =
    (let conditions = node_id ` {n \<in> set (nodes g). kind n = Condition} in
     concat (map (\<lambda>e. bad (from_node e \<in> conditions \<and> from_port e \<noteq> ''true'' \<and> from_port e \<noteq> ''false'')
                          (InvalidConditionRouting (from_node e) (from_port e))) (edges g)))"

section \<open>Node configuration\<close>

definition validate_node_postcondition :: "node \<Rightarrow> validation_error list" where
  "validate_node_postcondition n =
    (case from_config (config n) of
       None \<Rightarrow> []
     | Some (Inl g) \<Rightarrow> [InvalidNodeConfig (node_id n) (RsPostcondition g)]
     | Some (Inr pc) \<Rightarrow>
        (case validate_postcondition pc of
           Inl g \<Rightarrow> [InvalidNodeConfig (node_id n) (RsPostcondition g)]
         | Inr _ \<Rightarrow> []))"

definition validate_sub_workflow :: "node \<Rightarrow> validation_error list" where
  "validate_sub_workflow n =
    invalid n (kind n = SubWorkflow
        \<and> (cfg n ''workflow'' \<noteq> None) = non_empty_str n ''workflow_id'') RsSubWorkflowRef"

definition fans_out :: "node_kind \<Rightarrow> bool" where
  "fans_out k \<longleftrightarrow> k \<in> {Agent, ToolCall, HttpRequest, Memory, SubWorkflow}"

definition maps_items :: "node \<Rightarrow> bool" where
  "maps_items n =
    (case cfg_str n ''execution'' of
       Some m \<Rightarrow> if m = ''per_item'' then True else if m = ''once'' then False
                else kind n \<in> {ToolCall, HttpRequest, Memory}
     | None \<Rightarrow> kind n \<in> {ToolCall, HttpRequest, Memory})"

definition validate_execution :: "node \<Rightarrow> validation_error list" where
  "validate_execution n =
    (case cfg n ''execution'' of
       None \<Rightarrow> []
     | Some v \<Rightarrow>
        if as_str v = Some ''once'' \<or> as_str v = Some ''per_item''
        then invalid n (\<not> fans_out (kind n)) (RsExecutionUnsupported (kind n))
        else [InvalidNodeConfig (node_id n) (RsExecutionUnknown v)])"

definition validate_knob :: "node \<Rightarrow> string \<Rightarrow> (json \<Rightarrow> bool) \<Rightarrow> validation_error list" where
  "validate_knob n key ok =
    (case cfg n key of
       None \<Rightarrow> []
     | Some v \<Rightarrow>
        if \<not> maps_items n then [InvalidNodeConfig (node_id n) (RsNoEffect key (kind n))]
        else invalid n (\<not> ok v) (RsMustBe key v))"

definition validate_fan_out :: "node \<Rightarrow> validation_error list" where
  "validate_fan_out n =
    validate_execution n
    @ validate_knob n ''concurrency'' (\<lambda>v. as_u64 v \<noteq> None \<or> as_str v = Some ''all'')
    @ validate_knob n ''on_item_error''
        (\<lambda>v. as_str v \<in> {Some ''collect'', Some ''fail_fast'', Some ''skip''})"

definition MEMORY_OPERATIONS :: "string list" where
  "MEMORY_OPERATIONS = [''recall'', ''search'', ''flavour'', ''people'', ''remember'', ''forget'']"

definition validate_memory_operation :: "node \<Rightarrow> string \<Rightarrow> validation_error list" where
  "validate_memory_operation n op =
    (let scope = cfg_str n ''scope'';
         writes = (op = ''remember'' \<or> op = ''forget'')
     in invalid n (writes \<and> (scope = Some ''user'' \<or> scope = Some ''flows''))
          (RsMemory (ScopeForbidden op (case scope of Some s \<Rightarrow> s | None \<Rightarrow> [])))
      @ (case scope of
           Some s \<Rightarrow> invalid n (s \<notin> {''user'', ''flow'', ''flows''}) (RsMemory (ScopeUnknown s))
         | None \<Rightarrow> [])
      @ invalid n ((op = ''recall'' \<or> writes) \<and> scope = None) (RsMemory (MemoryRequires op ''scope''))
      @ invalid n ((op = ''recall'' \<or> op = ''search'') \<and> \<not> non_empty_str n ''query'')
          (RsMemory (MemoryRequires op ''query''))
      @ invalid n (op = ''flavour'' \<and> \<not> non_empty_str n ''flavour'') (RsMemory (MemoryRequires op ''flavour''))
      @ invalid n (writes \<and> \<not> non_empty_str n ''key'') (RsMemory (MemoryRequires op ''key''))
      @ invalid n (op = ''remember'' \<and> cfg n ''value'' = None) (RsMemory (MemoryRequires op ''value'')))"

definition validate_memory :: "node \<Rightarrow> validation_error list" where
  "validate_memory n =
    (if kind n \<noteq> Memory then []
     else (case cfg_str n ''operation'' of
         None \<Rightarrow> [InvalidNodeConfig (node_id n) (RsMemory OperationMissing)]
       | Some op \<Rightarrow>
          if op \<notin> set MEMORY_OPERATIONS
          then [InvalidNodeConfig (node_id n) (RsMemory (OperationUnknown op))]
          else validate_memory_operation n op))"

definition validate_dedup :: "node \<Rightarrow> validation_error list" where
  "validate_dedup n = invalid n (kind n = Dedup \<and> \<not> non_empty_str n ''key'') RsDedupKey"

definition APPROVAL_ENUMS :: "(string \<times> string list) list" where
  "APPROVAL_ENUMS =
    [(''wait_mode'', [''suspend'', ''poll'']),
     (''on_reject'', [''route'', ''error'', ''drop'']),
     (''on_timeout'', [''error'', ''reject'', ''route''])]"

definition validate_approval_enum :: "node \<Rightarrow> string \<times> string list \<Rightarrow> validation_error list" where
  "validate_approval_enum n ka =
    (case cfg n (fst ka) of
       None \<Rightarrow> []
     | Some v \<Rightarrow> invalid n (as_str v \<notin> Some ` set (snd ka)) (RsApprovalEnum (fst ka) v))"

definition names_reviewers :: "json \<Rightarrow> bool" where
  "names_reviewers v =
    (case as_array v of Some vs \<Rightarrow> vs \<noteq> [] \<and> list_all is_string vs | None \<Rightarrow> False)"

definition validate_approval :: "node \<Rightarrow> validation_error list" where
  "validate_approval n =
    (if kind n \<noteq> Approval then []
     else concat (map (validate_approval_enum n) APPROVAL_ENUMS)
        @ (case cfg n ''assignees'' of
             None \<Rightarrow> []
           | Some v \<Rightarrow> invalid n (\<not> names_reviewers v) RsApprovalAssignees))"

definition validate_node_configs :: "workflow_graph \<Rightarrow> validation_error list" where
  "validate_node_configs g =
    concat (map (\<lambda>pass. concat (map pass (nodes g)))
      [validate_node_postcondition, validate_sub_workflow, validate_fan_out, validate_memory,
       validate_dedup, validate_approval])"

section \<open>Loops\<close>

definition is_kind :: "workflow_graph \<Rightarrow> node_kind \<Rightarrow> string \<Rightarrow> bool" where
  "is_kind g k i \<longleftrightarrow> (\<exists>n \<in> set (nodes g). node_id n = i \<and> kind n = k)"

definition body_returns :: "workflow_graph \<Rightarrow> string \<Rightarrow> bool" where
  "body_returns g i \<longleftrightarrow>
    (\<exists>e \<in> set (edges g). from_node e = i \<and> from_port e = ''body'' \<and> path_exists g (to_node e) i)"

definition validate_loop_node :: "workflow_graph \<Rightarrow> node \<Rightarrow> validation_error list" where
  "validate_loop_node g n =
    (if kind n \<noteq> Loop then []
     else
       (case cfg n ''max_iterations'' of
          None \<Rightarrow> []
        | Some v \<Rightarrow> invalid n (case as_u64 v of Some k \<Rightarrow> k = 0 | None \<Rightarrow> True) (RsLoop LoopMaxIterations))
     @ (case cfg n ''state'' of None \<Rightarrow> [] | Some v \<Rightarrow> invalid n (\<not> is_object v) (RsLoop LoopState))
     @ (case cfg n ''emit'' of
          None \<Rightarrow> []
        | Some v \<Rightarrow> invalid n (as_str v \<notin> {Some ''items'', Some ''state'', Some ''both''}) (RsLoop (LoopEmit v)))
     @ invalid n (cfg_flag n ''success_port'' \<and> \<not> has_port_edge g (node_id n) ''success'')
         (RsLoop LoopSuccessPort)
     @ (case cfg n ''on_exceeded'' of
          None \<Rightarrow> []
        | Some v \<Rightarrow> invalid n (as_str v \<notin> {Some ''error'', Some ''continue''}) (RsLoop (LoopOnExceeded v)))
     @ invalid n (\<not> body_returns g (node_id n)) (RsLoop LoopBody))"

definition cycle_members :: "workflow_graph \<Rightarrow> string hset" where
  "cycle_members g = hs_collect (concat (map (\<lambda>(a, b). nodes_on_cycle g b a) (back_edges g)))"

definition forward_predecessors :: "workflow_graph \<Rightarrow> string \<Rightarrow> string list" where
  "forward_predecessors g i =
    map from_node (filter (\<lambda>e. to_node e = i \<and> (from_node e, to_node e) \<notin> set (back_edges g)) (edges g))"

definition validate_cycle_merge :: "workflow_graph \<Rightarrow> string \<Rightarrow> validation_error list" where
  "validate_cycle_merge g i =
    bad (is_kind g Merge i \<and> 1 < length (forward_predecessors g i)
         \<and> (\<exists>p \<in> set (forward_predecessors g i). p \<notin> set (cycle_members g))) (IllegalCycle i)"

definition positive :: "64 word option \<Rightarrow> bool" where
  "positive v = (case v of Some k \<Rightarrow> 0 < k | None \<Rightarrow> False)"

definition has_run_level_bound :: "workflow_graph \<Rightarrow> bool" where
  "has_run_level_bound g =
    (case trigger g of
       None \<Rightarrow> False
     | Some t \<Rightarrow> positive (cfg_u64 t ''recursion_limit'') \<or> positive (cfg_u64 t ''max_node_visits''))"

definition cycle_bounded :: "workflow_graph \<Rightarrow> string \<times> string \<Rightarrow> bool" where
  "cycle_bounded g e \<longleftrightarrow>
    is_kind g Loop (snd e) \<or> is_kind g Loop (fst e)
    \<or> \<not> path_avoiding g (snd e) (fst e) (is_kind g Loop)"

definition validate_loops :: "workflow_graph \<Rightarrow> validation_error list" where
  "validate_loops g =
    concat (map (validate_loop_node g) (nodes g))
    @ (if back_edges g = [] then []
       else concat (map (validate_cycle_merge g) (cycle_members g))
          @ (if has_run_level_bound g then []
             else concat (map (\<lambda>e. bad (\<not> cycle_bounded g e) (IllegalCycle (snd e))) (back_edges g))))"

section \<open>Lane regions\<close>

definition ids_of_kind :: "workflow_graph \<Rightarrow> node_kind \<Rightarrow> string list" where
  "ids_of_kind g k = map node_id (filter (\<lambda>n. kind n = k) (nodes g))"

definition needs_approval :: "workflow_graph \<Rightarrow> string \<Rightarrow> bool" where
  "needs_approval g i \<longleftrightarrow> (\<exists>n \<in> set (nodes g). node_id n = i \<and> cfg_flag n ''requires_approval'')"

definition validate_member :: "workflow_graph \<Rightarrow> string \<Rightarrow> string \<Rightarrow> validation_error list" where
  "validate_member g scatter m =
    bad (m \<in> set (ids_of_kind g Scatter)) (InvalidNodeConfig m (RsLane scatter NestedScatter))
    @ bad (is_kind g Loop m) (InvalidNodeConfig m (RsLane scatter LoopInLane))
    @ bad (needs_approval g m) (InvalidNodeConfig m (RsLane scatter ApprovalInLane))
    @ bad (\<not> (\<exists>h \<in> set (ids_of_kind g Gather). path_exists g m h)
           \<and> \<not> (\<exists>v \<in> set (ids_of_kind g Void). path_exists g m v))
        (InvalidNodeConfig m (RsLane scatter LaneStranded))"

definition validate_scatter :: "workflow_graph \<Rightarrow> string \<Rightarrow> validation_error list" where
  "validate_scatter g scatter =
    (let members = region_members g scatter (set (ids_of_kind g Gather)) in
     if members = [] then [InvalidNodeConfig scatter RsScatterNoGather]
     else concat (map (validate_member g scatter) members))"

definition validate_scatter_regions :: "workflow_graph \<Rightarrow> validation_error list" where
  "validate_scatter_regions g =
    concat (map (\<lambda>h. bad (\<not> (\<exists>s \<in> set (ids_of_kind g Scatter). path_exists g s h))
                        (InvalidNodeConfig h RsGatherNoScatter))
      (hs_collect (ids_of_kind g Gather)))
    @ concat (map (validate_scatter g) (ids_of_kind g Scatter))"

section \<open>Working directories\<close>

definition DIRECTORY_KEYS :: "string list" where
  "DIRECTORY_KEYS =
    [''cwd'', ''workdir'', ''work_dir'', ''working_dir'', ''working_directory'', ''workspace'',
     ''directory'']"

fun honored_by :: "node_kind \<Rightarrow> string list" where
  "honored_by Agent = [''cwd'', ''working_dir'']"
| "honored_by Shell = [''cwd'']"
| "honored_by SubWorkflow = [''workspace'']"
| "honored_by Trigger = [''workspace'']"
| "honored_by _ = []"

definition validate_working_dir :: "node \<Rightarrow> validation_error list" where
  "validate_working_dir n =
    concat (map (\<lambda>key. invalid n (key \<notin> set (honored_by (kind n)) \<and> cfg n key \<noteq> None)
                          (RsDirectoryKey key (kind n))) DIRECTORY_KEYS)"

section \<open>Declared inputs\<close>

fun validate_inputs :: "string set \<Rightarrow> workflow_input list \<Rightarrow> validation_error list" where
  "validate_inputs seen [] = []"
| "validate_inputs seen (inp # rest) =
    bad (\<not> is_valid_input_name (input_name inp)) (InvalidInputName (input_name inp))
    @ bad (input_name inp \<in> seen) (DuplicateInputName (input_name inp))
    @ (case input_default inp of
         None \<Rightarrow> []
       | Some d \<Rightarrow>
          if \<not> accepts (input_ty inp) d
          then [InputDefaultTypeMismatch (input_name inp) (input_type_as_str (input_ty inp))]
          else bad (input_required inp) (RequiredInputWithDefault (input_name inp)))
    @ validate_inputs (insert (input_name inp) seen) rest"

section \<open>Agents\<close>

text \<open>serde's readers of the three configuration values an \<open>agent\<close> node carries.  A derived
  struct is also read from a sequence of its fields; a struct with a flattened field is read from
  a map only, and its tag may be the index of the variant.\<close>

fun de_opt_u32 :: "json option \<Rightarrow> 32 word option option" where
  "de_opt_u32 None = Some None"
| "de_opt_u32 (Some JNull) = Some None"
| "de_opt_u32 (Some v) =
    (case as_u64 v of
       Some n \<Rightarrow> if unat n < 2 ^ 32 then Some (Some (ucast n)) else None
     | None \<Rightarrow> None)"

fun de_all :: "(json \<Rightarrow> 'a option) \<Rightarrow> json list \<Rightarrow> 'a list option" where
  "de_all f [] = Some []"
| "de_all f (v # vs) =
    (case f v of None \<Rightarrow> None | Some x \<Rightarrow> map_option ((#) x) (de_all f vs))"

definition de_vec :: "(json \<Rightarrow> 'a option) \<Rightarrow> json \<Rightarrow> 'a list option" where
  "de_vec f v = Option.bind (as_array v) (de_all f)"

definition mk_grant :: "json option \<Rightarrow> json option \<Rightarrow> tool_grant option" where
  "mk_grant s c =
    (case (Option.bind s as_str, de_opt_string c) of
       (Some s', Some c') \<Rightarrow> Some \<lparr>slug = s', connection_ref = c'\<rparr>
     | _ \<Rightarrow> None)"

fun de_tool_grant :: "json \<Rightarrow> tool_grant option" where
  "de_tool_grant (JObject m) = mk_grant (bt_get ''slug'' m) (bt_get ''connection_ref'' m)"
| "de_tool_grant (JArray [s]) = mk_grant (Some s) None"
| "de_tool_grant (JArray [s, c]) = mk_grant (Some s) (Some c)"
| "de_tool_grant _ = None"

definition mk_limits ::
  "json option \<Rightarrow> json option \<Rightarrow> json option \<Rightarrow> json option \<Rightarrow> agent_limits option" where
  "mk_limits a b c d =
    (case (de_opt_u32 a, de_opt_u32 b, de_opt_u32 c, de_opt_u32 d) of
       (Some a', Some b', Some c', Some d') \<Rightarrow>
         Some \<lparr>max_steps = a', max_tool_calls = b', agent_timeout_secs = c', tool_timeout_secs = d'\<rparr>
     | _ \<Rightarrow> None)"

fun de_limits :: "json \<Rightarrow> agent_limits option" where
  "de_limits (JObject m) =
    mk_limits (bt_get ''max_steps'' m) (bt_get ''max_tool_calls'' m) (bt_get ''agent_timeout_secs'' m)
      (bt_get ''tool_timeout_secs'' m)"
| "de_limits (JArray vs) =
    (if length vs \<le> 4
     then (let at = (\<lambda>i. if i < length vs then Some (vs ! i) else None)
           in mk_limits (at 0) (at 1) (at 2) (at 3))
     else None)"
| "de_limits _ = None"

definition CONTEXT_KINDS :: "string list" where
  "CONTEXT_KINDS = [''text'', ''items'', ''memory'', ''flavour'', ''host'']"

fun de_context_tag :: "json option \<Rightarrow> string option" where
  "de_context_tag (Some (JString t)) = (if t \<in> set CONTEXT_KINDS then Some t else None)"
| "de_context_tag (Some (JNumber (PosInt i))) =
    (if unat i < length CONTEXT_KINDS then Some (CONTEXT_KINDS ! unat i) else None)"
| "de_context_tag _ = None"

definition de_context_kind :: "jmap \<Rightarrow> context_source_kind option" where
  "de_context_kind m =
    (let str = (\<lambda>k. Option.bind (bt_get k m) as_str) in
     case de_context_tag (bt_get ''kind'' m) of
       None \<Rightarrow> None
     | Some t \<Rightarrow>
        if t = ''text'' then map_option CtxText (bt_get ''text'' m)
        else if t = ''items'' then Some CtxItems
        else if t = ''memory'' then
          (case (str ''scope'', str ''query'', de_opt_u32 (bt_get ''limit'' m)) of
             (Some sc, Some q, Some l) \<Rightarrow> Some (CtxMemory sc q l)
           | _ \<Rightarrow> None)
        else if t = ''flavour'' then map_option CtxFlavour (str ''slug'')
        else map_option (\<lambda>src. CtxHost src (or_null (bt_get ''params'' m))) (str ''source''))"

fun de_bool_or :: "bool \<Rightarrow> json option \<Rightarrow> bool option" where
  "de_bool_or d None = Some d"
| "de_bool_or d (Some v) = as_bool v"

fun de_context_source :: "json \<Rightarrow> context_source option" where
  "de_context_source (JObject m) =
    (case (de_opt_string (bt_get ''label'' m), de_context_kind m, de_bool_or False (bt_get ''optional'' m)) of
       (Some l, Some k, Some b) \<Rightarrow> Some \<lparr>ctx_label = l, ctx_kind = k, ctx_optional = b\<rparr>
     | _ \<Rightarrow> None)"
| "de_context_source _ = None"

definition tool_grant_problem :: "tool_grant \<Rightarrow> agent_problem option" where
  "tool_grant_problem grant =
    (if slug grant = [] then Some (Grant SlugEmpty)
     else if is_expression (slug grant) then Some (Grant (SlugExpression (slug grant)))
     else if slug grant = ''*'' \<or> (CHR ''*'' \<in> set (slug grant) \<and> \<not> ends_with ''.*'' (slug grant))
     then Some (Grant (SlugPattern (slug grant)))
     else (case connection_ref grant of
         Some conn \<Rightarrow> if is_expression conn then Some (Grant (ConnectionExpression conn)) else None
       | None \<Rightarrow> None))"

definition context_source_problem :: "context_source \<Rightarrow> nat \<Rightarrow> agent_problem option" where
  "context_source_problem src i =
    map_option (Context (label_or_index src i))
      (case ctx_kind src of
         CtxText t \<Rightarrow> if t = JNull \<or> t = JString [] then Some EmptyText else None
       | CtxMemory sc q _ \<Rightarrow>
           if sc \<notin> {''user'', ''flow'', ''flows''} then Some (UnknownScope sc)
           else if q = [] then Some EmptyQuery else None
       | CtxFlavour s \<Rightarrow> if s = [] then Some EmptySlug else None
       | CtxHost s _ \<Rightarrow>
           if s = [] then Some EmptySource
           else if is_expression s then Some (SourceExpression s) else None
       | CtxItems \<Rightarrow> None)"

definition limits_problem :: "agent_limits \<Rightarrow> agent_problem option" where
  "limits_problem l =
    map_option (LimitZero \<circ> fst)
      (find (\<lambda>(_, v). v = Some 0)
        [(''max_steps'', max_steps l), (''max_tool_calls'', max_tool_calls l),
         (''agent_timeout_secs'', agent_timeout_secs l), (''tool_timeout_secs'', tool_timeout_secs l)])"

text \<open>The problems of an enumerated list of context sources, in order.\<close>

fun context_problems :: "nat \<Rightarrow> context_source list \<Rightarrow> agent_problem list" where
  "context_problems i [] = []"
| "context_problems i (src # srcs) =
    (case context_source_problem src i of None \<Rightarrow> [] | Some p \<Rightarrow> [p]) @ context_problems (Suc i) srcs"

definition definition_problems :: "agent_definition \<Rightarrow> agent_problem list" where
  "definition_problems a =
    List.map_filter tool_grant_problem (agent_tools a)
    @ context_problems 0 (agent_context a)
    @ (case limits_problem (agent_limits_of a) of None \<Rightarrow> [] | Some p \<Rightarrow> [p])"

fun validate_definitions :: "string set \<Rightarrow> agent_definition list \<Rightarrow> validation_error list" where
  "validate_definitions seen [] = []"
| "validate_definitions seen (a # as) =
    (if agent_id a = [] then [InvalidAgentDefinition [] (RsAgent AgentIdEmpty)]
     else bad (agent_id a \<in> seen) (DuplicateAgentId (agent_id a)))
    @ map (\<lambda>p. InvalidAgentDefinition (agent_id a) (RsAgent p)) (definition_problems a)
    @ validate_definitions (if agent_id a = [] then seen else insert (agent_id a) seen) as"

definition agent_ref_problems :: "node \<Rightarrow> agent_problem list" where
  "agent_ref_problems n =
    (case cfg n ''agent_ref'' of
       None \<Rightarrow> []
     | Some v \<Rightarrow>
        (case v of
           JString r \<Rightarrow> if is_expression r then [AgentRefExpression r] else []
         | JNull \<Rightarrow> []
         | _ \<Rightarrow> [AgentRefType]))"

definition granted_by :: "tool_grant list \<Rightarrow> string \<Rightarrow> tool_grant \<Rightarrow> bool" where
  "granted_by tools s grant \<longleftrightarrow> (\<exists>d \<in> set tools. covers d s \<or> covers grant (slug d))"

definition widening_problems :: "workflow_graph \<Rightarrow> node \<Rightarrow> tool_grant list \<Rightarrow> agent_problem list" where
  "widening_problems g n grants =
    (case cfg_str n ''agent_ref'' of
       None \<Rightarrow> []
     | Some r \<Rightarrow>
        (case graph_agent g r of
           None \<Rightarrow> []
         | Some d \<Rightarrow>
            if agent_tools d = [] then []
            else map (\<lambda>grant. ToolNotGranted (slug grant) r)
                   (filter (\<lambda>grant. \<not> granted_by (agent_tools d) (slug grant) grant) grants)))"

text \<open>A key that is absent or null declares nothing; a value that does not read is reported.\<close>

definition when_declared ::
  "node \<Rightarrow> string \<Rightarrow> (json \<Rightarrow> 'a option) \<Rightarrow> ('a \<Rightarrow> agent_problem list) \<Rightarrow> agent_problem list" where
  "when_declared n key read problems =
    (case cfg n key of
       None \<Rightarrow> []
     | Some raw \<Rightarrow>
        if raw = JNull then []
        else (case read raw of Some x \<Rightarrow> problems x | None \<Rightarrow> [Unreadable key]))"

definition agent_node_problems :: "workflow_graph \<Rightarrow> node \<Rightarrow> agent_problem list" where
  "agent_node_problems g n =
    agent_ref_problems n
    @ when_declared n ''tools'' (de_vec de_tool_grant)
        (\<lambda>grants. List.map_filter tool_grant_problem grants @ widening_problems g n grants)
    @ when_declared n ''context'' (de_vec de_context_source) (context_problems 0)
    @ when_declared n ''limits'' de_limits
        (\<lambda>l. case limits_problem l of None \<Rightarrow> [] | Some p \<Rightarrow> [p])"

definition validate_agents :: "workflow_graph \<Rightarrow> validation_error list" where
  "validate_agents g =
    validate_definitions {} (agents g)
    @ concat (map (\<lambda>n. map (\<lambda>p. InvalidNodeConfig (node_id n) (RsAgent p)) (agent_node_problems g n))
        (filter (\<lambda>n. kind n = Agent) (nodes g)))"

definition unresolved_agent_refs :: "workflow_graph \<Rightarrow> (string \<times> string) list" where
  "unresolved_agent_refs g =
    List.map_filter (\<lambda>n.
      (case cfg_str n ''agent_ref'' of
         Some r \<Rightarrow> if r \<noteq> [] \<and> graph_agent g r = None then Some (node_id n, r) else None
       | None \<Rightarrow> None)) (filter (\<lambda>n. kind n = Agent) (nodes g))"

section \<open>The whole validation\<close>

definition validate_all :: "workflow_graph \<Rightarrow> validation_error list" where
  "validate_all g =
    validate_ids g
    @ validate_trigger g
    @ validate_edges g {} (edges g)
    @ concat (map (validate_on_error g) (nodes g))
    @ validate_node_configs g
    @ concat (map (validate_void g) (nodes g))
    @ validate_conditions g
    @ validate_loops g
    @ validate_scatter_regions g
    @ concat (map validate_working_dir (nodes g))
    @ validate_inputs {} (inputs g)
    @ validate_agents g"

definition validate :: "workflow_graph \<Rightarrow> validation_error + unit" where
  "validate g = (case validate_all g of [] \<Rightarrow> Inr () | e # _ \<Rightarrow> Inl e)"

section \<open>What an accepted graph looks like\<close>

named_theorems accepted \<open>the passes an accepted graph has left empty\<close>

lemma bad_Nil [simp]: "bad b e = [] \<longleftrightarrow> \<not> b"
  by (simp add: bad_def)

lemma concat_map_Nil: "concat (map f xs) = [] \<longleftrightarrow> (\<forall>x \<in> set xs. f x = [])"
  by auto

lemma validate_ok: "validate g = Inr () \<longleftrightarrow> validate_all g = []"
  by (simp add: validate_def split: list.split)

lemma repeated_Nil: "repeated seen xs = [] \<longleftrightarrow> distinct xs \<and> set xs \<inter> seen = {}"
  by (induction xs arbitrary: seen) auto

lemma accepted_passes [accepted]:
  assumes "validate g = Inr ()"
  shows "distinct (node_ids g)" "validate_trigger g = []" "validate_edges g {} (edges g) = []"
    "n \<in> set (nodes g) \<Longrightarrow> validate_on_error g n = []"
    "n \<in> set (nodes g) \<Longrightarrow> validate_memory n = []"
    "n \<in> set (nodes g) \<Longrightarrow> validate_void g n = []"
    "validate_conditions g = []" "validate_loops g = []" "validate_scatter_regions g = []"
    "validate_inputs {} (inputs g) = []" "validate_agents g = []"
  using assms
  by (auto simp: validate_ok validate_all_def validate_ids_def repeated_Nil validate_node_configs_def)

lemma validate_edges_Nil:
  "validate_edges g seen es = [] \<longleftrightarrow>
    (\<forall>e \<in> set es. graph_node g (from_node e) \<noteq> None \<and> graph_node g (to_node e) \<noteq> None)
    \<and> distinct (map edge_key es) \<and> edge_key ` set es \<inter> seen = {}"
  by (induction es arbitrary: seen) auto

lemma accepted_edges_known: "validate g = Inr () \<Longrightarrow> edges_known g"
  using accepted_passes(3) [of g] by (auto simp: validate_edges_Nil edges_known_def)

lemma accepted_trigger:
  assumes "validate g = Inr ()"
  shows "\<exists>t. trigger g = Some t"
proof -
  have "length (filter (\<lambda>n. kind n = Trigger) (nodes g)) = 1"
    using accepted_passes(2) [OF assms] by (auto simp: validate_trigger_def Let_def split: if_splits)
  then obtain t where "filter (\<lambda>n. kind n = Trigger) (nodes g) = [t]"
    by (auto simp: length_Suc_conv)
  then show ?thesis by (simp add: trigger_def)
qed

lemma accepted_inputs:
  "validate_inputs seen ins = [] \<longleftrightarrow>
    distinct (map input_name ins) \<and> input_name ` set ins \<inter> seen = {}
    \<and> (\<forall>i \<in> set ins. is_valid_input_name (input_name i)
        \<and> (\<forall>d. input_default i = Some d \<longrightarrow> accepts (input_ty i) d \<and> \<not> input_required i))"
proof (induction ins arbitrary: seen)
  case (Cons a ins)
  show ?case by (cases "input_default a") (auto simp: Cons.IH)
qed simp

lemma void_no_way_out:
  assumes "validate_void g n = []" "kind n = Void" "e \<in> set (edges g)"
  shows "node_id n \<noteq> from_node e"
proof
  let ?targets = "remdups_adj (sort (map to_node (filter (\<lambda>e. from_node e = node_id n) (edges g))))"
  assume "node_id n = from_node e"
  with assms(3) have "to_node e \<in> set ?targets" by simp
  moreover from assms(1,2) have "?targets = []" by (simp add: validate_void_def Let_def)
  ultimately show False by (metis empty_iff list.set(1))
qed

text \<open>A graph that validation accepts has distinct node ids, exactly one
  trigger, edges that name existing nodes and are pairwise different, condition nodes that only
  leave on \<open>true\<close> or \<open>false\<close>, void nodes with no way out, and inputs with distinct addressable
  names whose defaults have the declared type.\<close>

theorem accepted_shape:
  assumes "validate g = Inr ()"
  shows "distinct (node_ids g) \<and> trigger g \<noteq> None \<and> edges_known g
    \<and> distinct (map edge_key (edges g))
    \<and> (\<forall>e \<in> set (edges g). is_kind g Condition (from_node e) \<longrightarrow> from_port e \<in> {''true'', ''false''})
    \<and> (\<forall>e \<in> set (edges g). \<not> is_kind g Void (from_node e))
    \<and> distinct (map input_name (inputs g))
    \<and> (\<forall>i \<in> set (inputs g). is_valid_input_name (input_name i)
        \<and> (\<forall>d. input_default i = Some d \<longrightarrow> accepts (input_ty i) d))"
proof (intro conjI)
  note ok = accepted_passes [OF assms]
  show "distinct (node_ids g)" by (rule ok(1))
  show "trigger g \<noteq> None" using accepted_trigger [OF assms] by auto
  show "edges_known g" by (rule accepted_edges_known [OF assms])
  show "distinct (map edge_key (edges g))" using ok(3) by (simp add: validate_edges_Nil)
  have is_kind: "is_kind g k i \<longleftrightarrow> i \<in> node_id ` {n \<in> set (nodes g). kind n = k}" for k i
    by (auto simp: is_kind_def)
  show "\<forall>e \<in> set (edges g). is_kind g Condition (from_node e) \<longrightarrow> from_port e \<in> {''true'', ''false''}"
    using ok(7) unfolding is_kind validate_conditions_def Let_def concat_map_Nil bad_Nil by blast
  show "\<forall>e \<in> set (edges g). \<not> is_kind g Void (from_node e)"
    using void_no_way_out ok(6) by (auto simp: is_kind_def)
  show "distinct (map input_name (inputs g))"
    "\<forall>i \<in> set (inputs g). is_valid_input_name (input_name i)
        \<and> (\<forall>d. input_default i = Some d \<longrightarrow> accepts (input_ty i) d)"
    using ok(10) by (auto simp: accepted_inputs)
qed

section \<open>Bounded cycles\<close>

lemma cycle_has_cut_edge:
  assumes "(x, x) \<in> F\<^sup>+" "acyclic (F - B)"
  shows "\<exists>a b. (a, b) \<in> F \<inter> B \<and> (b, a) \<in> F\<^sup>*"
proof (rule ccontr)
  assume none: "\<nexists>a b. (a, b) \<in> F \<inter> B \<and> (b, a) \<in> F\<^sup>*"
  have "(y, x) \<in> F\<^sup>* \<Longrightarrow> (x, y) \<in> (F - B)\<^sup>+" if "(x, y) \<in> F\<^sup>+" for y
    using that
  proof (induction rule: trancl_induct)
    case (base y)
    with none show ?case by blast
  next
    case (step y z)
    then have "(y, x) \<in> F\<^sup>*" by (meson converse_rtrancl_into_rtrancl)
    moreover have "(z, y) \<in> F\<^sup>*" using step by (meson rtrancl_trans trancl_into_rtrancl)
    ultimately show ?case using step none by (meson DiffI IntI trancl_into_trancl)
  qed
  from this [OF assms(1)] assms(2) show False by (simp add: acyclic_def)
qed

definition unlooped :: "workflow_graph \<Rightarrow> (string \<times> string) set" where
  "unlooped g = {(a, b) \<in> set (edge_pairs g). \<not> is_kind g Loop a \<and> \<not> is_kind g Loop b}"

lemma unlooped_path:
  assumes "(b, a) \<in> (unlooped g)\<^sup>*"
  shows "path_avoiding g b a (is_kind g Loop)"
proof -
  have "unlooped g \<subseteq> free_edges (edge_pairs g) (\<lambda>n. n \<noteq> b \<and> is_kind g Loop n)"
    by (auto simp: unlooped_def)
  from rtrancl_mono [OF this] assms show ?thesis unfolding path_avoiding_iff by (rule subsetD)
qed

text \<open>C17 (accepted_cycles_bounded): in an accepted graph with no run-level bound on its trigger,
  every cycle passes through a \<open>loop\<close> node: the edges between nodes that are not loops form an
  acyclic graph.\<close>

theorem accepted_cycles_bounded:
  assumes "validate g = Inr ()" "\<not> has_run_level_bound g"
  shows "acyclic (unlooped g)"
proof (rule acyclicI, rule allI, rule notI)
  fix x assume cycle: "(x, x) \<in> (unlooped g)\<^sup>+"
  have "unlooped g - set (back_edges g) \<subseteq> set (edge_pairs g) - set (back_edges g)"
    by (auto simp: unlooped_def)
  from cycle_has_cut_edge [OF cycle
      acyclic_subset [OF forward_edges_acyclic [OF accepted_edges_known [OF assms(1)]] this]]
  obtain a b where e: "(a, b) \<in> unlooped g" "(a, b) \<in> set (back_edges g)"
      and ret: "(b, a) \<in> (unlooped g)\<^sup>*"
    by (elim exE conjE IntE) (rule that)
  have "\<forall>e \<in> set (back_edges g). cycle_bounded g e"
    using accepted_passes(8) [OF assms(1)] assms(2)
    by (simp add: validate_loops_def split: if_splits)
  then have "cycle_bounded g (a, b)" using e(2) by (rule bspec)
  with e(1) unlooped_path [OF ret] show False by (simp add: cycle_bounded_def unlooped_def)
qed

section \<open>Scopes and references\<close>

text \<open>In an accepted graph a \<open>memory\<close> node that remembers or
  forgets has the literal scope \<open>flow\<close>; it can name neither the user's memory nor an expression
  that would choose the scope at run time.\<close>

theorem memory_writes_stay_in_flow:
  assumes "validate g = Inr ()" "n \<in> set (nodes g)" "kind n = Memory"
    "cfg_str n ''operation'' = Some op" "op \<in> {''remember'', ''forget''}"
  shows "cfg_str n ''scope'' = Some ''flow''"
  using accepted_passes(5) [OF assms(1,2)] assms(3-5)
  by (auto simp: validate_memory_def validate_memory_operation_def MEMORY_OPERATIONS_def Let_def
      split: option.splits)

lemma map_filter_Nil: "List.map_filter f xs = [] \<longleftrightarrow> (\<forall>x \<in> set xs. f x = None)"
  by (induction xs) (auto simp: List.map_filter_def)

lemma accepted_agent_node:
  assumes "validate g = Inr ()" "n \<in> set (nodes g)" "kind n = Agent"
  shows "agent_node_problems g n = []"
  using accepted_passes(11) [OF assms(1)] assms(2,3) by (auto simp: validate_agents_def)

lemma tool_grant_problem_None:
  "tool_grant_problem t = None \<Longrightarrow> slug t \<noteq> [] \<and> \<not> is_expression (slug t)
    \<and> (\<forall>c. connection_ref t = Some c \<longrightarrow> \<not> is_expression c)"
  by (auto simp: tool_grant_problem_def split: if_splits option.splits)

text \<open>In an accepted graph an \<open>agent\<close> node's \<open>agent_ref\<close> is a
  literal, its tool list is readable, and every tool slug and every connection reference in it is
  a literal, so no data of a run selects an agent type, a tool or a credential.\<close>

theorem accepted_references_literal:
  assumes "validate g = Inr ()" "n \<in> set (nodes g)" "kind n = Agent"
  shows "(\<forall>r. cfg n ''agent_ref'' = Some (JString r) \<longrightarrow> \<not> is_expression r)
    \<and> (\<forall>raw. cfg n ''tools'' = Some raw \<and> raw \<noteq> JNull \<longrightarrow>
        (\<exists>grants. de_vec de_tool_grant raw = Some grants
          \<and> (\<forall>t \<in> set grants. slug t \<noteq> [] \<and> \<not> is_expression (slug t)
              \<and> (\<forall>c. connection_ref t = Some c \<longrightarrow> \<not> is_expression c))))"
proof -
  note none = accepted_agent_node [OF assms, unfolded agent_node_problems_def]
  have "\<not> is_expression r" if "cfg n ''agent_ref'' = Some (JString r)" for r
    using none that by (simp add: agent_ref_problems_def split: if_splits)
  moreover have "\<exists>grants. de_vec de_tool_grant raw = Some grants
      \<and> (\<forall>t \<in> set grants. tool_grant_problem t = None)"
    if "cfg n ''tools'' = Some raw" "raw \<noteq> JNull" for raw
    using none that by (auto simp: when_declared_def map_filter_Nil split: option.splits)
  ultimately show ?thesis using tool_grant_problem_None by meson
qed

section \<open>Lane regions of an accepted graph\<close>


section \<open>A sample\<close>

text \<open>A graph with a lane region, a loop, a memory write and an agent.\<close>

definition sample_graph :: workflow_graph where
  "sample_graph = mk_graph
    [mk_node ''t'' Trigger [], mk_node ''s'' Scatter [], mk_node ''w'' ToolCall [],
     mk_node ''g'' Gather [], mk_node ''l'' Loop [(''max_iterations'', jnat 3)],
     mk_node ''m'' Memory [(''operation'', JString ''remember''), (''scope'', JString ''flow''),
       (''key'', JString ''seen''), (''value'', JBool True)],
     mk_node ''a'' Agent [(''agent_ref'', JString ''triager''),
       (''tools'', JArray [jobj [(''slug'', JString ''github.search'')]])]]
    [mk_edge ''t'' ''main'' ''s'', mk_edge ''s'' ''main'' ''w'', mk_edge ''w'' ''main'' ''g'',
     mk_edge ''g'' ''main'' ''l'', mk_edge ''l'' ''body'' ''m'', mk_edge ''m'' ''main'' ''l'',
     mk_edge ''l'' ''done'' ''a'']"

lemma sample_accepted: "validate sample_graph = Inr ()"
  by code_simp

lemma sample_unbounded: "\<not> has_run_level_bound sample_graph"
  by code_simp

theorem accepted_shape_witness:
  "validate sample_graph = Inr () \<and> distinct (node_ids sample_graph) \<and> edges_known sample_graph"
  using accepted_shape [OF sample_accepted] sample_accepted by simp

theorem accepted_cycles_bounded_witness:
  "(''m'', ''l'') \<in> set (edge_pairs sample_graph) \<and> (''l'', ''m'') \<in> set (edge_pairs sample_graph)
    \<and> acyclic (unlooped sample_graph)"
  using accepted_cycles_bounded [OF sample_accepted sample_unbounded]
  by (simp add: edge_pairs_def sample_graph_def mk_graph_def mk_edge_def default_graph_def)

theorem memory_writes_stay_in_flow_witness:
  "cfg_str (nodes sample_graph ! 5) ''operation'' = Some ''remember''
    \<and> cfg_str (nodes sample_graph ! 5) ''scope'' = Some ''flow''"
proof -
  let ?m = "nodes sample_graph ! 5"
  have "?m \<in> set (nodes sample_graph)" "kind ?m = Memory" "cfg_str ?m ''operation'' = Some ''remember''"
    by code_simp+
  with memory_writes_stay_in_flow [OF sample_accepted this] show ?thesis by simp
qed

theorem accepted_references_literal_witness:
  "cfg (nodes sample_graph ! 6) ''agent_ref'' = Some (JString ''triager'')
    \<and> \<not> is_expression ''triager''"
proof -
  let ?a = "nodes sample_graph ! 6"
  have "?a \<in> set (nodes sample_graph)" "kind ?a = Agent" by code_simp+
  note lit = accepted_references_literal [OF sample_accepted this]
  have "cfg ?a ''agent_ref'' = Some (JString ''triager'')" by code_simp
  with lit show ?thesis by blast
qed


end
