(* ===== verification/Tf_Activation.thy ===== *)
theory Tf_Activation
  imports Tf_Validate Tf_Builder
begin

text \<open>
  One activation of a workflow node: \<open>HandlerData::execute\<close> of \<open>engine/build/activation.rs\<close> with
  its included parts (\<open>activation/gates.rs\<close>, \<open>activation/input.rs\<close>, \<open>activation/routing.rs\<close>) and
  \<open>finish_execution\<close> of \<open>engine/build/outcome.rs\<close>.  What the engine is given from outside is the
  record \<open>host\<close>: the node executors, the cancellation token at each point where it is polled, the
  attempts that overrun their timeout, the attached interceptor and the rendering of an error.
  An activation yields the result it hands to the graph runtime and the structured error it leaves
  in the terminal-error slot.  Recorded steps and observer calls have no influence and no field.
\<close>

section \<open>Errors and the host\<close>

datatype node_failure =
    NestedScatter
  | NeedsPositiveN
  | UnknownRelease string
  | LaneFailed string
  | LanesMissing nat nat "64 word"

datatype capability_error =
    Message string
  | PostconditionFailed string gap
  | AttemptTimedOut string nat nat
  | NodeFailed string node_failure

datatype engine_error =
    EValidation validation_error
  | EInput input_error
  | EUnimplemented string
  | ECapability capability_error
  | ELoopLimit string "64 word"

text \<open>The context an executor reads: \<open>nodes::NodeContext\<close> without the capability bundle, the
  observer and the token, which are part of the host.\<close>

record exec_context =
  nx_node :: node
  nx_input :: "item list"
  nx_run :: json
  nx_nodes :: json
  nx_agents :: "agent_definition list"
  nx_lane :: "lane_context option"
  nx_resume :: "json option"
  nx_step :: nat

datatype step_phase = Before | After

record step_frame =
  sf_phase :: step_phase
  sf_attempts :: nat
  sf_context :: exec_context
  sf_state :: json
  sf_output :: "node_output option"
  sf_error :: "engine_error option"

datatype step_action =
    ActContinue "json option"
  | ActReplace "item list" "string option"
  | ActSkip
  | ActFail string
  | ActInterrupt string json

text \<open>The points at which an activation looks at the cancellation token.\<close>

datatype moment =
    AtBoundary
  | BeforeAttempt nat
  | BackoffSlice nat nat
  | ReentrySlice nat

record host =
  h_execute :: "exec_context \<Rightarrow> nat \<Rightarrow> engine_error + node_output"
  h_overruns :: "exec_context \<Rightarrow> nat \<Rightarrow> bool"
  h_cancelled :: "node_context \<Rightarrow> moment \<Rightarrow> bool"
  h_hook :: "(step_frame \<Rightarrow> step_action) option"
  h_show :: "engine_error \<Rightarrow> string"

section \<open>What a handler captures\<close>

record handler_data =
  hd_node :: node
  hd_incoming :: "(string \<times> string) list"
  hd_back_incoming :: "(string \<times> string) list"
  hd_agents :: "agent_definition list"
  hd_routing :: handler_routing_kind
  hd_plain_targets :: "string list"
  hd_plain_targets_by_port :: "(string \<times> string list) list"
  hd_gather_nodes :: "string set"
  hd_has_error_edge :: bool
  hd_is_trigger :: bool
  hd_node_timeout :: "nat option"

abbreviation hd_id :: "handler_data \<Rightarrow> string" where
  "hd_id d \<equiv> node_id (hd_node d)"

section \<open>Routing an update\<close>

definition port_targets :: "string \<Rightarrow> (string \<times> string list) list \<Rightarrow> string list" where
  "port_targets p groups = (case find (\<lambda>grp. fst grp = p) groups of Some (_, ts) \<Rightarrow> ts | None \<Rightarrow> [])"

definition emitted_or_main :: "string option \<Rightarrow> string" where
  "emitted_or_main p = (case p of Some q \<Rightarrow> q | None \<Rightarrow> ''main'')"

definition lane_targets :: "handler_data \<Rightarrow> string \<Rightarrow> string list" where
  "lane_targets d p =
    (case hd_routing d of
       Plain \<Rightarrow> port_targets p (hd_plain_targets_by_port d)
     | FanOut ts \<Rightarrow> ts
     | PortCommand groups \<Rightarrow> port_targets p groups)"

definition lane_route :: "handler_data \<Rightarrow> lane_context \<Rightarrow> item list \<Rightarrow> string \<Rightarrow> route_target" where
  "lane_route d lane its target =
    (if target \<in> hd_gather_nodes d then RNode target
     else RSend target (lane_envelope (lane_origin lane) (unat (lane_index lane)) (unat (lane_count lane)) its))"

definition emit ::
  "handler_data \<Rightarrow> lane_context option \<Rightarrow> nat \<Rightarrow> json \<Rightarrow> string option \<Rightarrow> item list \<Rightarrow> json node_result" where
  "emit d lane step upd port its =
    (case lane of
       Some l \<Rightarrow>
         NCommand (with_update upd (command_route
           (map (lane_route d l its) (lane_targets d (emitted_or_main port)))))
     | None \<Rightarrow>
        (let stamped = stamp_activation_step upd (hd_id d) step in
         case hd_routing d of
           Plain \<Rightarrow> NUpdate stamped
         | FanOut ts \<Rightarrow> NCommand (with_update stamped (command_goto ts))
         | PortCommand groups \<Rightarrow>
             NCommand (with_update stamped (command_goto (port_targets (emitted_or_main port) groups)))))"

section \<open>Gates\<close>

definition listed :: "string \<Rightarrow> json option \<Rightarrow> bool" where
  "listed i v = (case Option.bind v as_array of Some ids \<Rightarrow> JString i \<in> set ids | None \<Rightarrow> False)"

definition approved_by_resume :: "string \<Rightarrow> json option \<Rightarrow> bool" where
  "approved_by_resume i resume =
    (case resume of
       None \<Rightarrow> False
     | Some v \<Rightarrow> v = JBool True \<or> listed i (jget ''approved'' v))"

definition denied_by_resume :: "string \<Rightarrow> json option \<Rightarrow> bool" where
  "denied_by_resume i resume = listed i (Option.bind resume (jget ''rejected''))"

definition approved_in_state :: "string \<Rightarrow> json \<Rightarrow> bool" where
  "approved_in_state i state =
    (case jget ''run'' state of
       None \<Rightarrow> False
     | Some run \<Rightarrow>
         listed i (jget ''approvals'' run)
         \<or> listed i (Option.bind (jget ''trigger'' run) (jget ''approvals'')))"

definition denial_item :: "string \<Rightarrow> item" where
  "denial_item i = item_new (jobj [(''error'', jobj
     [(''message'', JString ''approval denied''), (''node'', JString i), (''denied'', JBool True)])])"

definition idle_update :: "handler_data \<Rightarrow> json" where
  "idle_update d = items_update (hd_id d) [] None"

text \<open>The early returns in front of the work, or \<^const>\<open>None\<close> when the node goes on to run.\<close>

definition gates ::
  "host \<Rightarrow> handler_data \<Rightarrow> node_context \<Rightarrow> lane_context option \<Rightarrow> json \<Rightarrow>
    (graph_error + json node_result) option" where
  "gates h d ctx lane state =
    (let i = hd_id d in
     if h_cancelled h ctx AtBoundary then
       Some (Inr (NUpdate (case lane of
           None \<Rightarrow> stamp_activation_step (idle_update d) i (ctx_step ctx)
         | Some _ \<Rightarrow> idle_update d)))
     else if hd_is_trigger d then Some (Inr (emit d lane (ctx_step ctx) (JObject []) None []))
     else if \<not> cfg_flag (hd_node d) ''requires_approval'' then None
     else if denied_by_resume i (ctx_resume ctx) then
       Some (if hd_has_error_edge d
         then Inr (emit d lane (ctx_step ctx) (items_update i [denial_item i] (Some ''error''))
                     (Some ''error'') [denial_item i])
         else Inl (GraphErr (''approval gate '' @ [CHR 0x27] @ i @ [CHR 0x27]
                @ '' was denied and has no `error` port to route to'')))
     else if approved_in_state i state \<or> approved_by_resume i (ctx_resume ctx) then None
     else Some (Inr (NInterrupt \<lparr>interrupt_id = i, interrupt_node = i,
         interrupt_payload = (if config (hd_node d) = JNull then JObject [] else config (hd_node d))\<rparr>)))"

section \<open>Input\<close>

definition re_entry :: "handler_data \<Rightarrow> json \<Rightarrow> bool" where
  "re_entry d state \<longleftrightarrow> hd_back_incoming d \<noteq> []
    \<and> (case node_slot state (hd_id d) of Some slot \<Rightarrow> slot \<noteq> JNull | None \<Rightarrow> False)"

definition activation_stamp :: "json \<Rightarrow> string \<Rightarrow> 64 word option" where
  "activation_stamp state i =
    Option.bind (Option.bind (node_slot state i) (jget ''_activation_step'')) as_u64"

definition latest_step :: "handler_data \<Rightarrow> json \<Rightarrow> 64 word option" where
  "latest_step d state =
    (case List.map_filter (\<lambda>(pred, _). activation_stamp state pred) (hd_back_incoming d) of
       [] \<Rightarrow> None
     | s # ss \<Rightarrow> Some (fold max ss s))"

definition activation_input :: "handler_data \<Rightarrow> json option \<Rightarrow> json \<Rightarrow> item list" where
  "activation_input d lane_arg state =
    (case lane_arg of
       Some arg \<Rightarrow> lane_input (Some arg)
     | None \<Rightarrow>
        if re_entry d state then collect_input_since state (hd_back_incoming d) (latest_step d state)
        else collect_input state (hd_incoming d))"

definition derive_context ::
  "handler_data \<Rightarrow> node_context \<Rightarrow> lane_context option \<Rightarrow> json option \<Rightarrow> json \<Rightarrow> exec_context" where
  "derive_context d ctx lane lane_arg state =
    \<lparr>nx_node = hd_node d, nx_input = activation_input d lane_arg state,
     nx_run = or_null (jget ''run'' state), nx_nodes = or_null (jget ''nodes'' state),
     nx_agents = hd_agents d, nx_lane = lane, nx_resume = ctx_resume ctx, nx_step = ctx_step ctx\<rparr>"

section \<open>Attempts\<close>

definition retry_cfg :: "node \<Rightarrow> string \<Rightarrow> json option" where
  "retry_cfg n k = Option.bind (cfg n ''retry'') (jget k)"

definition on_error_of :: "node \<Rightarrow> string" where
  "on_error_of n = (case cfg_str n ''on_error'' of Some p \<Rightarrow> p | None \<Rightarrow> ''stop'')"

definition max_attempts :: "node \<Rightarrow> 64 word" where
  "max_attempts n =
    max (case Option.bind (retry_cfg n ''max_attempts'') as_u64 of Some k \<Rightarrow> k | None \<Rightarrow> 1) 1"

definition backoff_ms :: "node \<Rightarrow> 64 word" where
  "backoff_ms n = (case Option.bind (retry_cfg n ''backoff_ms'') as_u64 of Some k \<Rightarrow> k | None \<Rightarrow> 0)"

definition exponential :: "node \<Rightarrow> bool" where
  "exponential n \<longleftrightarrow> Option.bind (retry_cfg n ''backoff'') as_str = Some ''exponential''"

text \<open>\<open>u64::checked_pow\<close> of two and \<open>u64::checked_mul\<close>; the attempt index is narrowed to 32 bits
  before it becomes the exponent.\<close>

definition checked_pow2 :: "32 word \<Rightarrow> 64 word option" where
  "checked_pow2 e = (if unat e < 64 then Some (2 ^ unat e) else None)"

definition checked_mul :: "64 word \<Rightarrow> 64 word \<Rightarrow> 64 word option" where
  "checked_mul a b = (if unat a * unat b < 2 ^ 64 then Some (a * b) else None)"

definition backoff_delay :: "bool \<Rightarrow> 64 word \<Rightarrow> nat \<Rightarrow> 64 word" where
  "backoff_delay expo base attempt =
    min (if expo
         then (case Option.bind (checked_pow2 (of_nat attempt)) (checked_mul base) of
                 Some d \<Rightarrow> d
               | None \<Rightarrow> - 1)
         else base) 60000"

definition BACKOFF_POLL_MS :: nat where
  "BACKOFF_POLL_MS = 25"

text \<open>A wait in slices that looks at the token before each slice: does it see a cancellation?\<close>

function wait_cancelled :: "(nat \<Rightarrow> bool) \<Rightarrow> nat \<Rightarrow> nat \<Rightarrow> bool" where
  "wait_cancelled poll i remaining =
    (if remaining = 0 then False
     else if poll i then True
     else wait_cancelled poll (Suc i) (remaining - min remaining BACKOFF_POLL_MS))"
  by auto
termination by (relation "measure (\<lambda>(poll, i, r). r)") (auto simp: BACKOFF_POLL_MS_def)

declare wait_cancelled.simps [simp del]

definition attempt_once ::
  "host \<Rightarrow> handler_data \<Rightarrow> exec_context \<Rightarrow> nat \<Rightarrow> engine_error + node_output" where
  "attempt_once h d x k =
    (case hd_node_timeout d of
       Some secs \<Rightarrow>
         if h_overruns h x k then Inl (ECapability (AttemptTimedOut (hd_id d) (Suc k) secs))
         else h_execute h x k
     | None \<Rightarrow> h_execute h x k)"

definition gated_attempt ::
  "host \<Rightarrow> handler_data \<Rightarrow> exec_context \<Rightarrow> nat \<Rightarrow> engine_error + node_output" where
  "gated_attempt h d x k =
    (case attempt_once h d x k of
       Inl e \<Rightarrow> Inl e
     | Inr out \<Rightarrow>
        (case enforce (hd_node d) out of
           Inl (i, g) \<Rightarrow> Inl (ECapability (PostconditionFailed i g))
         | Inr _ \<Rightarrow> Inr out))"

datatype settlement =
    Produced node_output
  | Failed "engine_error option"
  | WindDown

fun attempts ::
  "host \<Rightarrow> handler_data \<Rightarrow> node_context \<Rightarrow> exec_context \<Rightarrow> nat \<Rightarrow> nat \<Rightarrow> engine_error option \<Rightarrow>
    settlement \<times> nat" where
  "attempts h d ctx x 0 k err = (Failed err, k)"
| "attempts h d ctx x (Suc n) k err =
    (if h_cancelled h ctx (BeforeAttempt k) then (WindDown, Suc k)
     else (case gated_attempt h d x k of
         Inr out \<Rightarrow> (Produced out, Suc k)
       | Inl e \<Rightarrow>
          if backoff_ms (hd_node d) \<noteq> 0 \<and> n \<noteq> 0
             \<and> wait_cancelled (\<lambda>s. h_cancelled h ctx (BackoffSlice k s)) 0
                 (unat (backoff_delay (exponential (hd_node d)) (backoff_ms (hd_node d)) k))
          then (WindDown, Suc k)
          else attempts h d ctx x n (Suc k) (Some e)))"

section \<open>Interception\<close>

datatype before_outcome =
    Proceed json "json option"
  | Decided settlement
  | HookPaused interrupt

definition mk_frame ::
  "step_phase \<Rightarrow> nat \<Rightarrow> exec_context \<Rightarrow> json \<Rightarrow> node_output option \<Rightarrow> engine_error option \<Rightarrow> step_frame" where
  "mk_frame phase k x state out err =
    \<lparr>sf_phase = phase, sf_attempts = k, sf_context = x, sf_state = state, sf_output = out, sf_error = err\<rparr>"

definition hook_interrupt :: "handler_data \<Rightarrow> string \<Rightarrow> json \<Rightarrow> interrupt" where
  "hook_interrupt d i payload =
    \<lparr>interrupt_id = i, interrupt_node = hd_id d, interrupt_payload = payload\<rparr>"

definition intercept_before :: "host \<Rightarrow> handler_data \<Rightarrow> exec_context \<Rightarrow> json \<Rightarrow> before_outcome" where
  "intercept_before h d x state =
    (case h_hook h of
       None \<Rightarrow> Proceed state None
     | Some hook \<Rightarrow>
        (case hook (mk_frame Before 0 x state None None) of
           ActContinue None \<Rightarrow> Proceed state None
         | ActContinue (Some patch) \<Rightarrow> Proceed (merge state patch) (Some patch)
         | ActReplace its port \<Rightarrow> Decided (Produced ((output_main its)\<lparr>out_port := port\<rparr>))
         | ActSkip \<Rightarrow> Decided (Produced output_empty)
         | ActFail msg \<Rightarrow> Decided (Failed (Some (ECapability (Message msg))))
         | ActInterrupt i payload \<Rightarrow> HookPaused (hook_interrupt d i payload)))"

text \<open>The outcome after the attempts, as the second interception point leaves it.\<close>

definition intercept_after ::
  "host \<Rightarrow> handler_data \<Rightarrow> exec_context \<Rightarrow> json \<Rightarrow> nat \<Rightarrow> node_output option \<Rightarrow> engine_error option \<Rightarrow>
    interrupt + node_output option \<times> engine_error option" where
  "intercept_after h d x state k out err =
    (case h_hook h of
       None \<Rightarrow> Inr (out, err)
     | Some hook \<Rightarrow>
        (let base = (case out of Some v \<Rightarrow> v | None \<Rightarrow> output_empty) in
         case hook (mk_frame After k x state out (if out = None then err else None)) of
           ActContinue _ \<Rightarrow> Inr (out, err)
         | ActReplace its port \<Rightarrow>
             Inr (Some (base\<lparr>out_items := its, out_port := port, out_control := None\<rparr>), None)
         | ActSkip \<Rightarrow> Inr (Some (base\<lparr>out_items := [], out_control := None\<rparr>), None)
         | ActFail msg \<Rightarrow> Inr (None, Some (ECapability (Message msg)))
         | ActInterrupt i payload \<Rightarrow> Inl (hook_interrupt d i payload)))"

section \<open>Outcome\<close>

definition scatter_routes :: "handler_data \<Rightarrow> item list list \<Rightarrow> route_target list" where
  "scatter_routes d lanes =
    concat (map (\<lambda>(k, its). map (\<lambda>target. RSend target (lane_envelope (hd_id d) k (length lanes) its))
        (hd_plain_targets d)) (enumerate 0 lanes))"

definition output_update ::
  "handler_data \<Rightarrow> lane_context option \<Rightarrow> item list \<Rightarrow> string option \<Rightarrow> json option \<Rightarrow> json" where
  "output_update d lane its port meta =
    (case lane of
       Some l \<Rightarrow> lane_items_update (hd_id d) l its port ''ok'' meta
     | None \<Rightarrow> items_update_with_meta (hd_id d) its port meta)"

definition finish_output ::
  "host \<Rightarrow> handler_data \<Rightarrow> node_context \<Rightarrow> lane_context option \<Rightarrow> node_output \<Rightarrow> json node_result" where
  "finish_output h d ctx lane out =
    (case out_control out of
       Some (CtlInterrupt i payload) \<Rightarrow>
         NInterrupt \<lparr>interrupt_id = i, interrupt_node = hd_id d, interrupt_payload = payload\<rparr>
     | Some (CtlReenter after_ms) \<Rightarrow>
         if wait_cancelled (\<lambda>s. h_cancelled h ctx (ReentrySlice s)) 0 (unat after_ms)
         then NUpdate (idle_update d)
         else NCommand (with_update
           (items_update_with_meta (hd_id d) (out_items out) (out_port out) (out_meta out))
           (command_goto [hd_id d]))
     | Some (CtlScatter lanes) \<Rightarrow>
         NCommand (with_update
           (stamp_activation_step
             (items_update_with_meta (hd_id d) (out_items out) (out_port out) (out_meta out))
             (hd_id d) (ctx_step ctx))
           (command_route (scatter_routes d lanes)))
     | None \<Rightarrow>
         emit d lane (ctx_step ctx) (output_update d lane (out_items out) (out_port out) (out_meta out))
           (out_port out) (out_items out))"

definition settle_failure ::
  "host \<Rightarrow> handler_data \<Rightarrow> node_context \<Rightarrow> lane_context option \<Rightarrow> engine_error \<Rightarrow>
    (graph_error + json node_result) \<times> engine_error option" where
  "settle_failure h d ctx lane err =
    (let i = hd_id d; policy = on_error_of (hd_node d); message = h_show h err;
         it = error_item i message
     in if policy = ''continue'' then
          (Inr (emit d lane (ctx_step ctx) (output_update d lane [it] None None) None [it]), None)
        else if policy = ''route'' then
          (Inr (emit d lane (ctx_step ctx) (output_update d lane [it] (Some ''error'') None)
                  (Some ''error'') [it]), None)
        else (case lane of
            Some l \<Rightarrow>
              (Inr (emit d lane (ctx_step ctx)
                 (lane_items_update i l [] None ''failed'' (Some (jobj [(''error'', JString message)])))
                 None []), None)
          | None \<Rightarrow> (Inl (GraphErr message), Some err)))"

definition finish_execution ::
  "host \<Rightarrow> handler_data \<Rightarrow> node_context \<Rightarrow> lane_context option \<Rightarrow> node_output option \<Rightarrow>
    engine_error option \<Rightarrow> (graph_error + json node_result) \<times> engine_error option" where
  "finish_execution h d ctx lane out err =
    (case out of
       Some v \<Rightarrow> (Inr (finish_output h d ctx lane v), None)
     | None \<Rightarrow>
        (case err of
           None \<Rightarrow> (Inr (emit d lane (ctx_step ctx) (idle_update d) None []), None)
         | Some e \<Rightarrow> settle_failure h d ctx lane e))"

definition apply_state_patch :: "json option \<Rightarrow> json node_result \<Rightarrow> json node_result" where
  "apply_state_patch patch res =
    (case patch of
       None \<Rightarrow> res
     | Some p \<Rightarrow>
        (case res of
           NUpdate u \<Rightarrow> NUpdate (merge u p)
         | NCommand c \<Rightarrow>
             NCommand (c\<lparr>cmd_update := Some (case cmd_update c of Some u \<Rightarrow> merge u p | None \<Rightarrow> p)\<rparr>)
         | NInterrupt i \<Rightarrow> NInterrupt i))"

section \<open>The activation\<close>

definition settle ::
  "host \<Rightarrow> handler_data \<Rightarrow> node_context \<Rightarrow> lane_context option \<Rightarrow> exec_context \<Rightarrow> json \<Rightarrow>
    json option \<Rightarrow> settlement \<times> nat \<Rightarrow> (graph_error + json node_result) \<times> engine_error option" where
  "settle h d ctx lane x state patch outcome =
    (let (s, k) = outcome;
         close = (\<lambda>out err.
           (case intercept_after h d x state k out err of
              Inl i \<Rightarrow> (Inr (NInterrupt i), None)
            | Inr (out', err') \<Rightarrow>
                (let (res, stash) = finish_execution h d ctx lane out' err'
                 in (map_sum id (apply_state_patch patch) res, stash))))
     in case s of
          WindDown \<Rightarrow> (Inr (NUpdate (idle_update d)), None)
        | Produced out \<Rightarrow> close (Some out) None
        | Failed err \<Rightarrow> close None err)"

definition activate ::
  "host \<Rightarrow> handler_data \<Rightarrow> json \<Rightarrow> node_context \<Rightarrow> (graph_error + json node_result) \<times> engine_error option" where
  "activate h d state ctx =
    (let lane = lane_context_of (ctx_send_arg ctx);
         lane_arg = (case lane of Some _ \<Rightarrow> ctx_send_arg ctx | None \<Rightarrow> None)
     in case gates h d ctx lane state of
          Some res \<Rightarrow> (res, None)
        | None \<Rightarrow>
           (let x = derive_context d ctx lane lane_arg state in
            case intercept_before h d x state of
              HookPaused i \<Rightarrow> (Inr (NInterrupt i), None)
            | Decided s \<Rightarrow> settle h d ctx lane x state None (s, 0)
            | Proceed state' patch \<Rightarrow>
                (let x' = derive_context d ctx lane lane_arg state'
                 in settle h d ctx lane x' state' patch
                      (attempts h d ctx x' (unat (max_attempts (hd_node d))) 0 None))))"

text \<open>The handler the graph runtime calls.\<close>

definition node_handler :: "host \<Rightarrow> handler_data \<Rightarrow> (json, json) handler" where
  "node_handler h d state ctx = fst (activate h d state ctx)"

section \<open>Backoff\<close>

lemma unat_pow2: "k < 64 \<Longrightarrow> unat (2 ^ k :: 64 word) = 2 ^ k"
proof -
  assume "k < 64"
  then have "(2::nat) ^ k < 2 ^ 64" by (rule power_strict_increasing) simp
  with unat_of_nat [of "2 ^ k", where 'a = 64] show ?thesis by simp
qed

lemma checked_delay:
  assumes "k < 2 ^ 32"
  shows "Option.bind (checked_pow2 (of_nat k)) (checked_mul b) =
    (if k < 64 \<and> unat b * 2 ^ k < 2 ^ 64 then Some (b * 2 ^ k) else None)"
proof -
  have "unat (of_nat k :: 32 word) = k" using assms by (simp add: unat_of_nat)
  with unat_pow2 [of k] show ?thesis by (auto simp: checked_pow2_def checked_mul_def)
qed

text \<open>The wait a non-zero backoff asks for never exceeds one minute, and an
  exponential backoff is the base delay doubled per failed attempt, exactly and without
  wrap-around, until that ceiling: overflow of the doubling or of the product saturates.\<close>

theorem backoff_delay_exact:
  assumes "attempt < 2 ^ 32" "0 < base"
  shows "unat (backoff_delay True base attempt) = min (unat base * 2 ^ attempt) 60000
    \<and> unat (backoff_delay False base attempt) = min (unat base) 60000"
proof
  have ceil: "unat (min w 60000 :: 64 word) = min (unat w) 60000" for w
    by (simp add: min_def word_le_nat_alt)
  show "unat (backoff_delay False base attempt) = min (unat base) 60000"
    by (simp add: backoff_delay_def ceil)
  show "unat (backoff_delay True base attempt) = min (unat base * 2 ^ attempt) 60000"
  proof (cases "unat base * 2 ^ attempt < 2 ^ 64 \<and> attempt < 64")
    case True
    then have "unat (base * 2 ^ attempt) = unat base * 2 ^ attempt"
      by (simp add: unat_word_ariths unat_pow2)
    with True show ?thesis by (simp add: backoff_delay_def checked_delay [OF assms(1)] ceil)
  next
    case False
    have pos: "1 \<le> unat base" using assms(2) by (simp add: word_less_nat_alt)
    have "(2::nat) ^ 64 \<le> unat base * 2 ^ attempt" if "64 \<le> attempt"
      using mult_le_mono [OF pos power_increasing [OF that, of "2::nat"]] by simp
    with False have "60000 \<le> unat base * 2 ^ attempt" by (cases "attempt < 64") simp_all
    with False show ?thesis
      by (auto simp: backoff_delay_def checked_delay [OF assms(1)] ceil unsigned_minus_1_eq_mask mask_eq_exp_minus_1)
  qed
qed

theorem backoff_delay_exact_witness:
  "unat (backoff_delay True 500 3) = 4000 \<and> unat (backoff_delay True 500 70) = 60000"
  using backoff_delay_exact [of 3 500] backoff_delay_exact [of 70 500] by simp

section \<open>Retries\<close>

lemma attempts_produced:
  "fst (attempts h d ctx x n k err) = Produced out \<Longrightarrow>
    \<exists>j. k \<le> j \<and> j < k + n \<and> gated_attempt h d x j = Inr out
      \<and> (\<forall>i. k \<le> i \<and> i < j \<longrightarrow> (\<exists>e. gated_attempt h d x i = Inl e))"
proof (induction n arbitrary: k err)
  case (Suc n)
  show ?case
  proof (cases "gated_attempt h d x k")
    case (Inl e)
    with Suc.prems have "fst (attempts h d ctx x n (Suc k) (Some e)) = Produced out"
      by (auto split: if_splits)
    from Suc.IH [OF this] obtain j where j: "Suc k \<le> j" "j < Suc k + n" "gated_attempt h d x j = Inr out"
      "\<forall>i. Suc k \<le> i \<and> i < j \<longrightarrow> (\<exists>e. gated_attempt h d x i = Inl e)" by blast
    have "\<exists>e. gated_attempt h d x i = Inl e" if "k \<le> i" "i < j" for i
      using that j(4) Inl by (cases "i = k") auto
    with j show ?thesis by (intro exI [of _ j]) auto
  next
    case (Inr v)
    with Suc.prems have "v = out" by (auto split: if_splits)
    with Inr show ?thesis by (intro exI [of _ k]) auto
  qed
qed simp

lemma attempts_first_good:
  assumes "\<And>m. \<not> h_cancelled h ctx m" "gated_attempt h d x j = Inr out"
    "\<And>i. k \<le> i \<Longrightarrow> i < j \<Longrightarrow> \<exists>e. gated_attempt h d x i = Inl e" "k \<le> j" "j < k + n"
  shows "attempts h d ctx x n k err = (Produced out, Suc j)"
  using assms(3-5)
proof (induction n arbitrary: k err)
  case (Suc n)
  have nc: "\<not> wait_cancelled (\<lambda>s. h_cancelled h ctx (BackoffSlice k s)) i r" for i r
    by (induction "\<lambda>s. h_cancelled h ctx (BackoffSlice k s)" i r rule: wait_cancelled.induct)
       (subst wait_cancelled.simps, simp add: assms(1))
  show ?case
  proof (cases "k = j")
    case True
    with assms(1,2) show ?thesis by simp
  next
    case False
    then have "k < j" using Suc.prems(2) by simp
    then obtain e where e: "gated_attempt h d x k = Inl e" using Suc.prems(1) [of k] by auto
    have "attempts h d ctx x n (Suc k) (Some e) = (Produced out, Suc j)"
      using Suc.prems \<open>k < j\<close> by (intro Suc.IH) auto
    with e assms(1) nc show ?thesis by simp
  qed
qed simp

lemma gated_attempt_passes: "gated_attempt h d x k = Inr out \<Longrightarrow> enforce (hd_node d) out = Inr ()"
  by (auto simp: gated_attempt_def split: sum.splits)

text \<open>C23 (retry_takes_first_good_output): a run of attempts that is not cancelled settles on an
  output exactly when some attempt within the budget both succeeds and passes the node's
  postcondition, and then it is the first such attempt's output; an output that fails the
  postcondition is never settled on.\<close>

theorem retry_takes_first_good_output:
  assumes "\<And>m. \<not> h_cancelled h ctx m"
  shows "(fst (attempts h d ctx x n 0 None) = Produced out \<longleftrightarrow>
      (\<exists>j < n. gated_attempt h d x j = Inr out
        \<and> (\<forall>i < j. \<exists>e. gated_attempt h d x i = Inl e)))
    \<and> (fst (attempts h d ctx x n 0 None) = Produced out \<longrightarrow> enforce (hd_node d) out = Inr ())"
proof -
  have "\<exists>j < n. gated_attempt h d x j = Inr out \<and> (\<forall>i < j. \<exists>e. gated_attempt h d x i = Inl e)"
    if "fst (attempts h d ctx x n 0 None) = Produced out"
    using attempts_produced [OF that] by auto
  moreover have "fst (attempts h d ctx x n 0 None) = Produced out"
    if "j < n" "gated_attempt h d x j = Inr out" "\<forall>i < j. \<exists>e. gated_attempt h d x i = Inl e" for j
    using attempts_first_good [OF assms that(2), of 0 n None] that by simp
  ultimately show ?thesis using gated_attempt_passes by blast
qed

section \<open>What an activation commits\<close>

fun result_update :: "'u node_result \<Rightarrow> 'u option" where
  "result_update (NUpdate u) = Some u"
| "result_update (NCommand c) = cmd_update c"
| "result_update (NInterrupt _) = None"

text \<open>The updates an activation of node \<open>i\<close> may hand to the reducer: nothing, or its own slot.\<close>

definition own_update :: "string \<Rightarrow> json \<Rightarrow> bool" where
  "own_update i u \<longleftrightarrow> u = JObject [] \<or> (\<exists>slot. u = node_update i slot)"

lemma stamp_node_update: "\<exists>slot'. stamp_activation_step (node_update i slot) i step = node_update i slot'"
  by (cases slot) (auto simp: stamp_activation_step_def node_update_def split: option.split json.split)

lemma own_update_stamp: "own_update i u \<Longrightarrow> own_update i (stamp_activation_step u i step)"
  using stamp_node_update by (force simp: own_update_def stamp_activation_step_def)

lemma own_update_items [simp]:
  "own_update i (items_update_with_meta i its p meta)" "own_update i (items_update i its p)"
  "own_update i (lane_items_update i l its p st meta)" "own_update i (JObject [])"
  by (auto simp: own_update_def items_update_with_meta_def items_update_def lane_items_update_def)

lemma own_update_output [simp]: "own_update (hd_id d) (output_update d lane its p meta)"
  by (simp add: output_update_def split: option.split)

lemma emit_update:
  "result_update (emit d lane step u p its) = Some (case lane of
      None \<Rightarrow> stamp_activation_step u (hd_id d) step | Some _ \<Rightarrow> u)"
  by (simp add: emit_def with_update_def Let_def split: option.split handler_routing_kind.split)

lemma own_update_emit:
  "own_update (hd_id d) u \<Longrightarrow> result_update (emit d lane step u p its) = Some v \<Longrightarrow> own_update (hd_id d) v"
  by (auto simp: emit_update own_update_stamp split: option.splits)

lemma own_update_finish:
  assumes "finish_execution h d ctx lane out err = (Inr res, stash)" "result_update res = Some u"
  shows "own_update (hd_id d) u"
  using assms
  by (auto simp: finish_execution_def finish_output_def settle_failure_def idle_update_def Let_def
      with_update_def own_update_stamp
      split: option.splits node_control.splits if_splits intro: own_update_emit [rotated])

lemma own_update_gates:
  assumes "gates h d ctx lane state = Some (Inr res)" "result_update res = Some u"
  shows "own_update (hd_id d) u"
  using assms
  by (auto simp: gates_def Let_def idle_update_def own_update_stamp
      split: option.splits if_splits intro: own_update_emit [rotated])

lemma own_update_activate:
  assumes "h_hook h = None" "fst (activate h d state ctx) = Inr res" "result_update res = Some u"
  shows "own_update (hd_id d) u"
proof (cases "gates h d ctx (lane_context_of (ctx_send_arg ctx)) state")
  case None
  with assms show ?thesis
    by (auto simp: activate_def settle_def intercept_before_def intercept_after_def Let_def
        apply_state_patch_def idle_update_def map_sum_def
        split: prod.splits settlement.splits sum.splits dest: own_update_finish)
next
  case (Some r)
  with assms show ?thesis by (auto simp: activate_def Let_def intro: own_update_gates)
qed

lemma own_update_other_slots:
  assumes "own_update i u" "i \<noteq> REPLACE" "j \<noteq> i"
  shows "node_slot (merge state u) j = node_slot state j"
proof -
  have "merge state (JObject []) = JObject (obj_of state)"
    by (cases state) (simp_all add: merge.simps(1) sentinel_def obj_of_def)
  moreover have "node_slot (JObject (obj_of state)) j = node_slot state j"
    by (cases state) (simp_all add: node_slot_def obj_of_def)
  ultimately show ?thesis using assms by (auto simp: own_update_def node_slot_merge)
qed


section \<open>The approval gate\<close>

text \<open>C21 (gate_shields_executor): if what a node with an approval gate does depends at all on its
  executor, the gate was approved, either in the run state or by the resume value, and was not
  denied: an unapproved or denied gate runs nothing.\<close>

theorem gate_shields_executor:
  assumes "cfg_flag (hd_node d) ''requires_approval''"
    "activate (h\<lparr>h_execute := exec\<rparr>) d state ctx \<noteq> activate h d state ctx"
  shows "(approved_in_state (hd_id d) state \<or> approved_by_resume (hd_id d) (ctx_resume ctx))
    \<and> \<not> denied_by_resume (hd_id d) (ctx_resume ctx)"
proof -
  have same: "gates (h\<lparr>h_execute := exec\<rparr>) d ctx lane state = gates h d ctx lane state" for lane
    by (simp add: gates_def)
  have "gates h d ctx (lane_context_of (ctx_send_arg ctx)) state = None"
    using assms(2) by (auto simp: activate_def same Let_def split: option.splits)
  with assms(1) show ?thesis by (auto simp: gates_def Let_def split: if_splits)
qed

section \<open>A sample\<close>

text \<open>A gated node whose first attempt fails and whose second one succeeds.\<close>

definition flaky_host :: host where
  "flaky_host = \<lparr>
     h_execute = (\<lambda>x k. if k = 0 then Inl (ECapability (Message ''down''))
                        else Inr (output_main [item_new (JBool True)])),
     h_overruns = (\<lambda>_ _. False), h_cancelled = (\<lambda>_ _. False), h_hook = None,
     h_show = (\<lambda>_. ''down'')\<rparr>"

definition gated_data :: handler_data where
  "gated_data =
    \<lparr>hd_node = mk_node ''a'' ToolCall
        [(''requires_approval'', JBool True), (''retry'', jobj [(''max_attempts'', jnat 2)])],
     hd_incoming = [], hd_back_incoming = [], hd_agents = [], hd_routing = Plain,
     hd_plain_targets = [], hd_plain_targets_by_port = [], hd_gather_nodes = {},
     hd_has_error_edge = False, hd_is_trigger = False, hd_node_timeout = None\<rparr>"

definition sample_context :: "json option \<Rightarrow> node_context" where
  "sample_context resume =
    \<lparr>ctx_node_id = ''a'', ctx_run_id = ''r'', ctx_thread_id = None, ctx_step = 1, ctx_resume = resume,
     ctx_fork = None, ctx_send_arg = None, ctx_root_run_id = None, ctx_frames = []\<rparr>"

abbreviation approved_context :: node_context where
  "approved_context \<equiv> sample_context (Some (JBool True))"

abbreviation gated_exec :: exec_context where
  "gated_exec \<equiv> derive_context gated_data approved_context None None (JObject [])"

theorem retry_takes_first_good_output_witness:
  "fst (attempts flaky_host gated_data approved_context gated_exec 2 0 None)
    = Produced (output_main [item_new (JBool True)])"
proof -
  have "gated_attempt flaky_host gated_data gated_exec 1 = Inr (output_main [item_new (JBool True)])"
    "gated_attempt flaky_host gated_data gated_exec 0 = Inl (ECapability (Message ''down''))"
    by code_simp+
  then have "\<exists>j < 2. gated_attempt flaky_host gated_data gated_exec j = Inr (output_main [item_new (JBool True)])
      \<and> (\<forall>i < j. \<exists>e. gated_attempt flaky_host gated_data gated_exec i = Inl e)"
    by (intro exI [of _ "1::nat"]) simp
  moreover have "\<not> h_cancelled flaky_host approved_context m" for m by (simp add: flaky_host_def)
  ultimately show ?thesis
    using retry_takes_first_good_output [of flaky_host approved_context gated_data gated_exec 2
        "output_main [item_new (JBool True)]"] by blast
qed


theorem gate_shields_executor_witness:
  "approved_by_resume ''a'' (Some (JBool True)) \<and> \<not> denied_by_resume ''a'' (Some (JBool True))"
proof -
  have "cfg_flag (hd_node gated_data) ''requires_approval''" by code_simp
  moreover have "activate (flaky_host\<lparr>h_execute := \<lambda>_ _. Inr output_empty\<rparr>) gated_data (JObject []) approved_context
      \<noteq> activate flaky_host gated_data (JObject []) approved_context"
    by code_simp
  ultimately have "(approved_in_state (hd_id gated_data) (JObject [])
        \<or> approved_by_resume (hd_id gated_data) (ctx_resume approved_context))
      \<and> \<not> denied_by_resume (hd_id gated_data) (ctx_resume approved_context)"
    by (rule gate_shields_executor)
  then show ?thesis by (simp add: gated_data_def mk_node_def sample_context_def approved_in_state_def)
qed

end
