(* ===== verification/Tf_Control.thy ===== *)
theory Tf_Control
  imports Tf_Expr Tf_Activation "HOL-Library.Multiset"
begin

text \<open>
  The executors that need no host capability: \<open>nodes/control_flow\<close> (condition, switch, merge,
  split out, transform, void, scatter, gather, loop), the release policies of \<open>nodes/release.rs\<close>
  and the dispatch of \<open>nodes/execution.rs\<close>.  An executor reads its context and returns an output
  or an error.  The capability-backed kinds, and the deduplication node with its durable store, are
  a function argument of the dispatch.
\<close>

section \<open>Routing nodes\<close>

abbreviation scope_of :: "exec_context \<Rightarrow> json" where
  "scope_of x \<equiv> expr_scope (nx_input x) (nx_run x) (nx_nodes x)"

text \<open>\<open>Number::as_f64\<close> differs from zero: a double is zero when all bits but the sign are.\<close>

fun nonzero :: "number \<Rightarrow> bool" where
  "nonzero (PosInt n) \<longleftrightarrow> n \<noteq> 0"
| "nonzero (NegInt n) \<longleftrightarrow> n \<noteq> 0"
| "nonzero (Float bits) \<longleftrightarrow> bits + bits \<noteq> 0"

fun is_truthy :: "json \<Rightarrow> bool" where
  "is_truthy JNull \<longleftrightarrow> False"
| "is_truthy (JBool b) \<longleftrightarrow> b"
| "is_truthy (JNumber n) \<longleftrightarrow> nonzero n"
| "is_truthy (JString s) \<longleftrightarrow> s \<noteq> []"
| "is_truthy (JArray xs) \<longleftrightarrow> xs \<noteq> []"
| "is_truthy (JObject m) \<longleftrightarrow> m \<noteq> []"

definition execute_condition :: "expr_lib \<Rightarrow> exec_context \<Rightarrow> node_output" where
  "execute_condition lib x =
    (let field = cfg_str (nx_node x) ''field'';
         truthy = (case nx_input x of
             [] \<Rightarrow> False
           | it # _ \<Rightarrow> is_truthy (case field of
                 Some f \<Rightarrow> if is_expression f then evaluate lib (JString f) (scope_of x)
                           else or_null (jget f (item_json it))
               | None \<Rightarrow> item_json it))
     in output_routed (nx_input x) (if truthy then ''true'' else ''false''))"

definition switch_value :: "expr_lib \<Rightarrow> exec_context \<Rightarrow> json" where
  "switch_value lib x =
    (case cfg (nx_node x) ''expression'' of
       Some e \<Rightarrow> evaluate lib e (scope_of x)
     | None \<Rightarrow>
        (case cfg_str (nx_node x) ''field'' of
           Some f \<Rightarrow> or_null (jget f (or_null (jget ''item'' (scope_of x))))
         | None \<Rightarrow> JNull))"

definition switch_port :: "expr_lib \<Rightarrow> json \<Rightarrow> string" where
  "switch_port lib v =
    (case v of
       JString s \<Rightarrow> s
     | JNumber n \<Rightarrow> lib_show lib (JNumber n)
     | JBool b \<Rightarrow> (if b then ''true'' else ''false'')
     | _ \<Rightarrow> ''default'')"

definition execute_switch :: "expr_lib \<Rightarrow> exec_context \<Rightarrow> node_output" where
  "execute_switch lib x = output_routed (nx_input x) (switch_port lib (switch_value lib x))"

definition execute_merge :: "exec_context \<Rightarrow> node_output" where
  "execute_merge x = output_main (nx_input x)"

definition execute_trigger :: "exec_context \<Rightarrow> node_output" where
  "execute_trigger x = output_main (nx_input x)"

definition resolve_dotted_path :: "json \<Rightarrow> string \<Rightarrow> json" where
  "resolve_dotted_path v p = or_null (follow (split_on (CHR ''.'') p) v)"

definition split_item :: "string option \<Rightarrow> nat \<Rightarrow> item \<Rightarrow> item list" where
  "split_item p k it =
    (let v = (case p of
         Some p \<Rightarrow> if p \<noteq> [] then resolve_dotted_path (item_json it) p else item_json it
       | None \<Rightarrow> item_json it)
     in case v of
          JArray vs \<Rightarrow> map (\<lambda>e. paired_with k (item_new e)) vs
        | _ \<Rightarrow> [paired_with k (item_new v)])"

definition execute_split_out :: "exec_context \<Rightarrow> node_output" where
  "execute_split_out x =
    output_main (concat (map (\<lambda>(k, it). split_item (cfg_str (nx_node x) ''path'') k it)
      (enumerate 0 (nx_input x))))"

definition transform_json :: "expr_lib \<Rightarrow> jmap option \<Rightarrow> json \<Rightarrow> json \<Rightarrow> json" where
  "transform_json lib sets scope v =
    (case sets of
       None \<Rightarrow> v
     | Some m \<Rightarrow> JObject (fold (\<lambda>(k, e). bt_insert k (evaluate lib e scope)) m (obj_of v)))"

definition execute_transform :: "expr_lib \<Rightarrow> exec_context \<Rightarrow> node_output" where
  "execute_transform lib x =
    (let sets = Option.bind (cfg (nx_node x) ''set'') as_object;
         its = map item_json (nx_input x);
         ns = nodes_scope (nx_nodes x)
     in output_main (map (\<lambda>(k, it). paired_with k (item_new (transform_json lib sets
          (build_expr_scope (item_json it) its (nx_run x) ns) (item_json it))))
        (enumerate 0 (nx_input x))))"

definition execute_void :: "exec_context \<Rightarrow> node_output" where
  "execute_void x = output_empty\<lparr>out_meta := Some (jobj [(''discarded'', jnat (length (nx_input x)))])\<rparr>"

section \<open>Scatter\<close>

definition MAX_LANES :: nat where
  "MAX_LANES = 256"

text \<open>\<open>slice::chunks\<close>; the chunk size is positive in every call.\<close>

function chunks :: "nat \<Rightarrow> 'a list \<Rightarrow> 'a list list" where
  "chunks n xs = (if xs = [] then [] else if n = 0 then [xs] else take n xs # chunks n (drop n xs))"
  by pat_completeness auto

termination
  by (relation "measure (\<lambda>(n, xs). length xs)") auto

declare chunks.simps [simp del]

definition clamp :: "nat \<Rightarrow> nat \<Rightarrow> nat \<Rightarrow> nat" where
  "clamp lo hi n = (if n < lo then lo else if hi < n then hi else n)"

definition div_ceil :: "nat \<Rightarrow> nat \<Rightarrow> nat" where
  "div_ceil a b = (if a mod b = 0 then a div b else a div b + 1)"

definition split_lanes :: "'a list \<Rightarrow> nat option \<Rightarrow> 'a list list" where
  "split_lanes its lanes =
    (if its = [] then []
     else (let requested = clamp 1 MAX_LANES (case lanes of Some n \<Rightarrow> n | None \<Rightarrow> length its) in
       if length its \<le> requested then map (\<lambda>it. [it]) its
       else chunks (div_ceil (length its) requested) its))"

definition scatter_items :: "exec_context \<Rightarrow> item list" where
  "scatter_items x =
    (case cfg_str (nx_node x) ''path'' of
       Some p \<Rightarrow>
         (case (case nx_input x of
             [] \<Rightarrow> None
           | it # _ \<Rightarrow> Option.bind (follow (split_on (CHR ''.'') p) (item_json it)) as_array) of
            Some vs \<Rightarrow> map item_new vs
          | None \<Rightarrow> nx_input x)
     | None \<Rightarrow> nx_input x)"

definition requested_lanes :: "node \<Rightarrow> nat option" where
  "requested_lanes n =
    (case cfg_u64 n ''lanes'' of Some k \<Rightarrow> if 0 < k then Some (unat k) else None | None \<Rightarrow> None)"

definition execute_scatter :: "exec_context \<Rightarrow> engine_error + node_output" where
  "execute_scatter x =
    (if nx_lane x \<noteq> None then Inl (ECapability (NodeFailed (node_id (nx_node x)) NestedScatter))
     else (let lanes = split_lanes (scatter_items x) (requested_lanes (nx_node x))
       in Inr (output_scatter lanes (jobj [(''lane_count'', jnat (length lanes))]))))"

section \<open>Release policies\<close>

datatype release_policy = RAll | RAny | FirstN nat | Quorum nat | TimeoutPartial

datatype release = Emit | Wait | Timeout

definition policy_count :: "node \<Rightarrow> engine_error + nat" where
  "policy_count n =
    (case cfg_u64 n ''n'' of
       Some k \<Rightarrow> if 0 < k then Inr (unat k) else Inl (ECapability (NodeFailed (node_id n) NeedsPositiveN))
     | None \<Rightarrow> Inl (ECapability (NodeFailed (node_id n) NeedsPositiveN)))"

definition policy_of :: "node \<Rightarrow> engine_error + release_policy" where
  "policy_of n =
    (case cfg_str n ''release'' of
       None \<Rightarrow> Inr RAll
     | Some p \<Rightarrow>
        if p = ''all'' then Inr RAll
        else if p = ''any'' then Inr RAny
        else if p = ''first_n'' then map_sum id FirstN (policy_count n)
        else if p = ''quorum'' then map_sum id Quorum (policy_count n)
        else if p = ''timeout_partial'' then Inr TimeoutPartial
        else Inl (ECapability (NodeFailed (node_id n) (UnknownRelease p))))"

fun threshold :: "release_policy \<Rightarrow> nat \<Rightarrow> nat" where
  "threshold RAll expected = expected"
| "threshold TimeoutPartial expected = expected"
| "threshold RAny expected = min 1 expected"
| "threshold (FirstN n) expected = min n expected"
| "threshold (Quorum n) expected = min n expected"

definition evaluate_release :: "release_policy \<Rightarrow> nat \<Rightarrow> nat \<Rightarrow> bool \<Rightarrow> release" where
  "evaluate_release p arrived expected spent =
    (if threshold p expected \<le> arrived then Emit
     else if \<not> spent then Wait
     else if p = TimeoutPartial then Emit
     else Timeout)"

section \<open>Gather\<close>

datatype on_lane_error = Collect | SkipLane | FailFast

definition on_lane_error_of :: "node \<Rightarrow> on_lane_error" where
  "on_lane_error_of n =
    (case cfg_str n ''on_lane_error'' of
       Some p \<Rightarrow> if p = ''skip'' then SkipLane else if p = ''fail_fast'' then FailFast else Collect
     | None \<Rightarrow> Collect)"

record arrived =
  ar_index :: "64 word"
  ar_items :: "item list"
  ar_failed :: "string option"

definition arrived_of :: "json \<Rightarrow> arrived" where
  "arrived_of slot =
    \<lparr>ar_index = (case Option.bind (jget ''index'' slot) as_u64 of Some n \<Rightarrow> n | None \<Rightarrow> 0),
     ar_items = slot_items (Some slot),
     ar_failed =
       (if Option.bind (jget ''status'' slot) as_str = Some ''failed''
        then Some (case Option.bind (jget ''error'' slot) as_str of
            Some e \<Rightarrow> e | None \<Rightarrow> ''lane failed'')
        else None)\<rparr>"

definition lanes_at :: "json \<Rightarrow> string \<Rightarrow> jmap" where
  "lanes_at ns pred =
    (case Option.bind (Option.bind (jget pred ns) (jget ''lanes'')) as_object of
       Some m \<Rightarrow> m | None \<Rightarrow> [])"

definition lane_arrivals :: "json \<Rightarrow> string list \<Rightarrow> arrived list" where
  "lane_arrivals ns preds = concat (map (\<lambda>pred. map (arrived_of \<circ> snd) (lanes_at ns pred)) preds)"

fun first_some :: "('a \<Rightarrow> 'b option) \<Rightarrow> 'a list \<Rightarrow> 'b option" where
  "first_some f [] = None"
| "first_some f (x # xs) = (case f x of Some y \<Rightarrow> Some y | None \<Rightarrow> first_some f xs)"

definition expected_lanes :: "json \<Rightarrow> 64 word option" where
  "expected_lanes ns =
    (case as_object ns of
       None \<Rightarrow> None
     | Some m \<Rightarrow> first_some (\<lambda>slot. Option.bind (jget ''lane_count'' slot) as_u64) (map snd m))"

definition positive_u64 :: "node \<Rightarrow> string \<Rightarrow> 64 word \<Rightarrow> 64 word" where
  "positive_u64 n k d =
    (case cfg_u64 n k of Some v \<Rightarrow> if 0 < v then v else d | None \<Rightarrow> d)"

definition lane_output :: "on_lane_error \<Rightarrow> arrived \<Rightarrow> item list" where
  "lane_output policy l =
    (case ar_failed l of
       Some e \<Rightarrow>
         if policy = SkipLane then []
         else [paired_with (unat (ar_index l)) (item_new (jobj
            [(''failed'', JBool True), (''error'', JString e), (''lane'', JNumber (PosInt (ar_index l)))]))]
     | None \<Rightarrow> map (paired_with (unat (ar_index l))) (ar_items l))"

definition emit_items :: "arrived list \<Rightarrow> on_lane_error \<Rightarrow> item list" where
  "emit_items ls policy = concat (map (lane_output policy) (sort_key ar_index ls))"

definition gather_from :: "node \<Rightarrow> string list" where
  "gather_from n =
    (case Option.bind (cfg n ''from'') as_array of
       Some vs \<Rightarrow> List.map_filter as_str vs | None \<Rightarrow> [])"

definition gather_polls :: "exec_context \<Rightarrow> 64 word" where
  "gather_polls x =
    (case Option.bind (Option.bind (jget (node_id (nx_node x)) (nx_nodes x)) (jget ''polls'')) as_u64 of
       Some n \<Rightarrow> n | None \<Rightarrow> 0)"

definition max_polls :: "node \<Rightarrow> 64 word" where
  "max_polls n = positive_u64 n ''max_polls'' 500"

definition gather_meta :: "64 word \<Rightarrow> nat \<Rightarrow> arrived list \<Rightarrow> (string \<times> json) list" where
  "gather_meta polls expected ls =
    [(''polls'', JNumber (PosInt (polls + 1))), (''lanes'', jnat expected),
     (''arrived'', jnat (length ls)),
     (''failed'', jnat (length (filter (\<lambda>l. ar_failed l \<noteq> None) ls)))]"

definition execute_gather :: "exec_context \<Rightarrow> engine_error + node_output" where
  "execute_gather x =
    (let n = nx_node x in
     case policy_of n of
       Inl e \<Rightarrow> Inl e
     | Inr policy \<Rightarrow>
        (let ls = lane_arrivals (nx_nodes x) (gather_from n);
             expected = (case expected_lanes (nx_nodes x) of Some k \<Rightarrow> unat k | None \<Rightarrow> length ls);
             polls = gather_polls x;
             meta = gather_meta polls expected ls
         in case (if on_lane_error_of n = FailFast then first_some ar_failed ls else None) of
              Some failure \<Rightarrow> Inl (ECapability (NodeFailed (node_id n) (LaneFailed failure)))
            | None \<Rightarrow> (case evaluate_release policy (length ls) expected (max_polls n \<le> polls) of
                Wait \<Rightarrow> Inr (output_reenter_after (positive_u64 n ''poll_interval_ms'' 5) (jobj meta))
              | Timeout \<Rightarrow> Inl (ECapability (NodeFailed (node_id n) (LanesMissing (length ls) expected (max_polls n))))
              | Emit \<Rightarrow> Inr ((output_main (emit_items ls (on_lane_error_of n)))
                  \<lparr>out_meta := Some (jobj (meta @ [(''partial'', JBool (length ls < expected))]))\<rparr>))))"

section \<open>Loop\<close>

definition DEFAULT_MAX_ITERATIONS :: "64 word" where
  "DEFAULT_MAX_ITERATIONS = 25"

definition self_key :: "exec_context \<Rightarrow> string \<Rightarrow> json option" where
  "self_key x k = Option.bind (jget (node_id (nx_node x)) (nx_nodes x)) (jget k)"

definition current_iteration :: "exec_context \<Rightarrow> 64 word" where
  "current_iteration x =
    (case Option.bind (self_key x ''iteration'') as_u64 of Some n \<Rightarrow> n | None \<Rightarrow> 0)"

definition current_state :: "exec_context \<Rightarrow> json option" where
  "current_state x = self_key x ''state''"

definition is_expr_value :: "json \<Rightarrow> bool" where
  "is_expr_value v \<longleftrightarrow> (case as_str v of Some s \<Rightarrow> is_expression s | None \<Rightarrow> False)"

definition value_or_expr :: "expr_lib \<Rightarrow> json \<Rightarrow> json \<Rightarrow> json" where
  "value_or_expr lib scope v = (if is_expr_value v then evaluate lib v scope else v)"

definition state_cfg :: "node \<Rightarrow> string \<Rightarrow> json option" where
  "state_cfg n k = Option.bind (cfg n ''state'') (jget k)"

definition initial_state :: "expr_lib \<Rightarrow> exec_context \<Rightarrow> json" where
  "initial_state lib x =
    (case state_cfg (nx_node x) ''init'' of
       None \<Rightarrow> JNull
     | Some init \<Rightarrow> value_or_expr lib (scope_of x) init)"

definition scope_with_state :: "exec_context \<Rightarrow> json \<Rightarrow> json" where
  "scope_with_state x st = JObject (bt_insert ''state'' st (obj_of (scope_of x)))"

definition fold_state :: "expr_lib \<Rightarrow> exec_context \<Rightarrow> json" where
  "fold_state lib x =
    (let prev = (case current_state x of Some st \<Rightarrow> st | None \<Rightarrow> initial_state lib x) in
     case state_cfg (nx_node x) ''update'' of
       None \<Rightarrow> prev
     | Some (JObject upds) \<Rightarrow>
         JObject (fold (\<lambda>(k, raw). bt_insert k (value_or_expr lib (scope_with_state x prev) raw))
           upds (obj_of prev))
     | Some raw \<Rightarrow> value_or_expr lib (scope_with_state x prev) raw)"

definition until_holds :: "expr_lib \<Rightarrow> exec_context \<Rightarrow> json \<Rightarrow> bool" where
  "until_holds lib x st =
    (case cfg (nx_node x) ''until'' of
       None \<Rightarrow> False
     | Some u \<Rightarrow> is_truthy (value_or_expr lib (scope_with_state x st) u))"

definition condition_holds :: "expr_lib \<Rightarrow> exec_context \<Rightarrow> bool" where
  "condition_holds lib x =
    (case cfg (nx_node x) ''condition'' of
       None \<Rightarrow> True
     | Some c \<Rightarrow> is_truthy (value_or_expr lib (scope_of x) c))"

definition max_iterations :: "node \<Rightarrow> 64 word" where
  "max_iterations n =
    (case cfg_u64 n ''max_iterations'' of Some k \<Rightarrow> k | None \<Rightarrow> DEFAULT_MAX_ITERATIONS)"

definition loop_items :: "node \<Rightarrow> item list \<Rightarrow> json \<Rightarrow> item list" where
  "loop_items n its st =
    (case cfg_str n ''emit'' of
       Some m \<Rightarrow> if m = ''state'' then [item_new st] else if m = ''both'' then its @ [item_new st] else its
     | None \<Rightarrow> its)"

definition loop_exit :: "exec_context \<Rightarrow> json \<Rightarrow> string \<Rightarrow> string \<Rightarrow> node_output" where
  "loop_exit x st reason port =
    (output_routed (loop_items (nx_node x) (nx_input x) st) port)\<lparr>out_meta := Some (jobj
       [(''iteration'', JNumber (PosInt (current_iteration x))), (''state'', replace st),
        (''exit_reason'', JString reason)])\<rparr>"

definition execute_loop :: "expr_lib \<Rightarrow> exec_context \<Rightarrow> engine_error + node_output" where
  "execute_loop lib x =
    (let n = nx_node x; k = current_iteration x;
         st = (if 0 < k then fold_state lib x else initial_state lib x)
     in if until_holds lib x st then
          Inr (loop_exit x st ''until'' (if cfg_flag n ''success_port'' then ''success'' else ''done''))
        else if \<not> condition_holds lib x then Inr (loop_exit x st ''condition'' ''done'')
        else if max_iterations n \<le> k then
          (if cfg_str n ''on_exceeded'' = Some ''continue''
           then Inr (loop_exit x st ''max_iterations'' ''done'')
           else Inl (ELoopLimit (node_id n) (max_iterations n)))
        else Inr ((output_routed (nx_input x) ''body'')\<lparr>out_meta := Some (jobj
          [(''iteration'', JNumber (PosInt (k + 1))), (''state'', replace st)])\<rparr>))"

section \<open>Dispatch\<close>

definition execute_node ::
  "expr_lib \<Rightarrow> (exec_context \<Rightarrow> nat \<Rightarrow> engine_error + node_output) \<Rightarrow> exec_context \<Rightarrow> nat \<Rightarrow>
    engine_error + node_output" where
  "execute_node lib capability x attempt =
    (case kind (nx_node x) of
       Trigger \<Rightarrow> Inr (execute_trigger x)
     | Condition \<Rightarrow> Inr (execute_condition lib x)
     | Switch \<Rightarrow> Inr (execute_switch lib x)
     | Merge \<Rightarrow> Inr (execute_merge x)
     | SplitOut \<Rightarrow> Inr (execute_split_out x)
     | Transform \<Rightarrow> Inr (execute_transform lib x)
     | Void \<Rightarrow> Inr (execute_void x)
     | Scatter \<Rightarrow> execute_scatter x
     | Gather \<Rightarrow> execute_gather x
     | Loop \<Rightarrow> execute_loop lib x
     | _ \<Rightarrow> capability x attempt)"

section \<open>Scatter splits its input\<close>

lemma chunks_concat: "0 < n \<Longrightarrow> concat (chunks n xs) = xs"
  by (induction n xs rule: chunks.induct) (subst chunks.simps, auto)

lemma chunks_nonempty: "0 < n \<Longrightarrow> [] \<notin> set (chunks n xs)"
  by (induction n xs rule: chunks.induct) (subst chunks.simps, auto)

lemma chunks_length: "0 < n \<Longrightarrow> length xs \<le> n * r \<Longrightarrow> length (chunks n xs) \<le> r"
proof (induction n xs arbitrary: r rule: chunks.induct)
  case (1 n xs)
  show ?case
  proof (cases "xs = []")
    case False
    with "1.prems" obtain r' where r: "r = Suc r'" by (cases r) auto
    with "1.prems" have "length (drop n xs) \<le> n * r'" by simp
    with "1.IH" False "1.prems" have "length (chunks n (drop n xs)) \<le> r'" by simp
    with False "1.prems" r show ?thesis by (subst chunks.simps) simp
  qed (subst chunks.simps, simp)
qed

lemma div_ceil_covers: "0 < b \<Longrightarrow> a \<le> div_ceil a b * b"
proof -
  assume b: "0 < b"
  define q m where "q = a div b" "m = a mod b"
  then have "a = q * b + m" "m < b" using b by simp_all
  then show ?thesis unfolding div_ceil_def q_m_def [symmetric] by (simp add: distrib_right)
qed

text \<open>C34 (scatter_partitions_input): a scatter splits its items into lanes in order, losing and
  repeating none, opens no empty lane, and opens no more lanes than were asked for and never more
  than 256.\<close>

theorem scatter_partitions_input:
  "concat (split_lanes its lanes) = its \<and> [] \<notin> set (split_lanes its lanes)
    \<and> length (split_lanes its lanes) \<le> 256
    \<and> (case lanes of Some n \<Rightarrow> length (split_lanes its lanes) \<le> max 1 n | None \<Rightarrow> True)"
proof (cases "its = []")
  case False
  define r where "r = clamp 1 MAX_LANES (case lanes of Some n \<Rightarrow> n | None \<Rightarrow> length its)"
  have r: "1 \<le> r" "r \<le> 256" "\<And>n. lanes = Some n \<Longrightarrow> r \<le> max 1 n"
    by (auto simp: r_def clamp_def MAX_LANES_def)
  show ?thesis
  proof (cases "length its \<le> r")
    case True
    then have "split_lanes its lanes = map (\<lambda>it. [it]) its"
      using False by (simp only: split_lanes_def Let_def r_def if_False if_True)
    with True r show ?thesis by (force split: option.split)
  next
    case more: False
    then have eq: "split_lanes its lanes = chunks (div_ceil (length its) r) its"
      using False by (simp only: split_lanes_def Let_def r_def if_False)
    have "length its \<le> div_ceil (length its) r * r" using r(1) by (intro div_ceil_covers) simp
    moreover have pos: "0 < div_ceil (length its) r"
      using calculation False by (cases "div_ceil (length its) r") auto
    ultimately have "length (chunks (div_ceil (length its) r) its) \<le> r" by (intro chunks_length)
    with r chunks_concat [OF pos] chunks_nonempty [OF pos] show ?thesis
      unfolding eq by (force split: option.split)
  qed
qed (simp add: split_lanes_def split: option.split)

section \<open>What a node records about itself\<close>

lemma fold_insert_get:
  "distinct (bt_keys m) \<Longrightarrow> bt_get k (fold (\<lambda>(k, v). bt_insert k v) m slot) =
    (case bt_get k m of Some v \<Rightarrow> Some v | None \<Rightarrow> bt_get k slot)"
proof (induction m arbitrary: slot)
  case (Cons kv m)
  obtain k' v where kv: "kv = (k', v)" by (cases kv)
  have "bt_get k' m = None" using Cons.prems by (simp add: kv bt_get_None_iff)
  with Cons show ?case by (auto simp: kv split: option.split)
qed simp

lemma fold_insert_wf:
  "bt_wf slot \<Longrightarrow> bt_wf (fold (\<lambda>(k, v). bt_insert k v) m slot)"
  by (induction m arbitrary: slot) (auto simp: bt_wf_insert)

text \<open>The update of an activation that carried bookkeeping.  The handler stamps it with the
  super-step, except when the node asks to be run again.\<close>

definition recorded_update :: "string \<Rightarrow> node_output \<Rightarrow> nat option \<Rightarrow> json" where
  "recorded_update i out step =
    (let upd = items_update_with_meta i (out_items out) (out_port out) (out_meta out) in
     case step of Some k \<Rightarrow> stamp_activation_step upd i k | None \<Rightarrow> upd)"

lemma recorded_meta:
  assumes "i \<noteq> REPLACE" "out_meta out = Some (JObject meta)" "bt_wf meta"
    "bt_get k meta = Some w" "k \<noteq> ''_activation_step''"
  shows "Option.bind (node_slot (merge s (recorded_update i out step)) i) (jget k)
    = Some (merge (or_null (Option.bind (node_slot s i) (jget k))) w)"
proof -
  define base where "base = bt_insert ''port'' (port_value (out_port out))
    (bt_insert ''items'' (items_to_value (out_items out)) [])"
  define v where "v = (case step of
      Some n \<Rightarrow> bt_insert ''_activation_step'' (jnat n) (with_meta (out_meta out) base)
    | None \<Rightarrow> with_meta (out_meta out) base)"
  have base: "bt_wf base" by (simp add: base_def bt_wf_insert bt_wf_def)
  have wf: "bt_wf v" unfolding v_def with_meta_def assms(2)
    by (simp add: bt_wf_insert fold_insert_wf base split: option.split)
  have get: "bt_get k v = Some w"
    using assms(3-5)
    by (simp add: v_def with_meta_def assms(2) fold_insert_get bt_wf_distinct split: option.split)
  have "bt_get ''items'' v \<noteq> None" "bt_get ''port'' v \<noteq> None"
    using assms(3) by (simp_all add: v_def with_meta_def assms(2) fold_insert_get bt_wf_distinct base_def
        split: option.split)
  then have "length v \<noteq> 1" by (cases v rule: remdups_adj.cases) (auto split: if_splits)
  then have plain: "sentinel v = None" by (simp add: sentinel_def)
  have "recorded_update i out step = node_update i (JObject v)"
    by (simp add: recorded_update_def stamp_activation_step_def items_update_with_meta_def
        node_update_def v_def base_def split: option.split)
  then have "node_slot (merge s (recorded_update i out step)) i
      = Some (JObject (merge_entries (obj_of (or_null (node_slot s i))) v))"
    by (simp add: node_slot_merge [OF assms(1)] merge_object [OF plain])
  moreover have "bt_get k (obj_of (or_null (node_slot s i))) = Option.bind (node_slot s i) (jget k)"
    by (cases "node_slot s i") (simp_all add: jget_obj_of)
  ultimately show ?thesis
    using wf by (simp add: merge_entries_get bt_wf_distinct get)
qed

section \<open>Nodes that count their own activations\<close>

text \<open>A node that keeps a counter in its slot: a \<open>tick\<close> is an activation that happens below the
  bound and counts itself, any other activation keeps the count.  Between activations the rest of
  the run state may change in any way.\<close>

inductive history :: "('s \<Rightarrow> 's \<Rightarrow> bool) \<Rightarrow> ('s \<Rightarrow> 's \<Rightarrow> bool) \<Rightarrow> 's \<Rightarrow> nat \<Rightarrow> 's \<Rightarrow> bool"
  for tick keep s0 where
  history_start: "history tick keep s0 0 s0"
| history_tick: "history tick keep s0 k s \<Longrightarrow> tick s s' \<Longrightarrow> history tick keep s0 (Suc k) s'"
| history_keep: "history tick keep s0 k s \<Longrightarrow> keep s s' \<Longrightarrow> history tick keep s0 k s'"

locale self_counter =
  fixes count_of :: "'s \<Rightarrow> nat" and tick keep :: "'s \<Rightarrow> 's \<Rightarrow> bool" and bound :: nat
  assumes tick_counts: "tick s s' \<Longrightarrow> count_of s < bound \<and> count_of s' = Suc (count_of s)"
    and keep_counts: "keep s s' \<Longrightarrow> count_of s' = count_of s"
begin

lemma history_counts:
  "history tick keep s0 k s \<Longrightarrow> count_of s = count_of s0 + k \<and> k \<le> bound - count_of s0"
proof (induction rule: history.induct)
  case (history_tick k s s')
  with tick_counts [OF history_tick.hyps(2)] show ?case by auto
next
  case (history_keep k s s')
  with keep_counts [OF history_keep.hyps(2)] show ?case by auto
qed simp

end

text \<open>An executor reads the nodes of the run state; its update is merged into its slot.\<close>

definition reads :: "exec_context \<Rightarrow> node \<Rightarrow> json \<Rightarrow> bool" where
  "reads x n s \<longleftrightarrow> nx_node x = n \<and> nx_nodes x = or_null (jget ''nodes'' s)"

definition records :: "node \<Rightarrow> node_output \<Rightarrow> json \<Rightarrow> json \<Rightarrow> bool" where
  "records n out s s' \<longleftrightarrow> node_id n \<noteq> REPLACE
    \<and> (\<exists>step. node_slot s' (node_id n) = node_slot (merge s (recorded_update (node_id n) out step)) (node_id n))"

definition slot_count :: "string \<Rightarrow> node \<Rightarrow> json \<Rightarrow> nat" where
  "slot_count k n s =
    (case Option.bind (Option.bind (node_slot s (node_id n)) (jget k)) as_u64 of
       Some c \<Rightarrow> unat c | None \<Rightarrow> 0)"

definition loop_pass :: "expr_lib \<Rightarrow> node \<Rightarrow> json \<Rightarrow> json \<Rightarrow> bool" where
  "loop_pass lib n s s' \<longleftrightarrow> (\<exists>x out. reads x n s \<and> execute_loop lib x = Inr out
    \<and> out_port out = Some ''body'' \<and> records n out s s')"

definition loop_leave :: "expr_lib \<Rightarrow> node \<Rightarrow> json \<Rightarrow> json \<Rightarrow> bool" where
  "loop_leave lib n s s' \<longleftrightarrow> (\<exists>x out. reads x n s \<and> execute_loop lib x = Inr out
    \<and> out_port out \<noteq> Some ''body'' \<and> records n out s s')"

definition gather_wait :: "node \<Rightarrow> json \<Rightarrow> json \<Rightarrow> bool" where
  "gather_wait n s s' \<longleftrightarrow> (\<exists>x out ms. reads x n s \<and> execute_gather x = Inr out
    \<and> out_control out = Some (CtlReenter ms) \<and> records n out s s')"

lemma node_slot_bind: "Option.bind (node_slot s i) f = Option.bind (jget i (or_null (jget ''nodes'' s))) f"
  by (cases "jget ''nodes'' s") (simp_all add: node_slot_def jget_obj_of)

lemma reads_count:
  "reads x n s \<Longrightarrow> unat (current_iteration x) = slot_count ''iteration'' n s"
  "reads x n s \<Longrightarrow> unat (gather_polls x) = slot_count ''polls'' n s"
  by (auto simp: reads_def current_iteration_def self_key_def gather_polls_def slot_count_def
      node_slot_bind split: option.split)

lemma records_count:
  assumes "records n out s s'" "out_meta out = Some (JObject meta)" "bt_wf meta"
    "bt_get k meta = Some (JNumber (PosInt c))" "k \<noteq> ''_activation_step''"
  shows "slot_count k n s' = unat c"
proof -
  obtain step where r: "node_id n \<noteq> REPLACE"
    "node_slot s' (node_id n) = node_slot (merge s (recorded_update (node_id n) out step)) (node_id n)"
    using assms(1) by (auto simp: records_def)
  show ?thesis
    unfolding slot_count_def r(2) recorded_meta [OF r(1) assms(2-5)] by simp
qed

lemma Suc_unat: "a < b \<Longrightarrow> unat (a + 1) = Suc (unat (a :: 64 word))"
proof -
  assume "a < b"
  moreover have "unat b < 2 ^ LENGTH(64)" by (rule unsigned_less)
  ultimately have "Suc (unat a) < 2 ^ 64" by (simp add: word_less_nat_alt)
  then show ?thesis by (simp add: unat_word_ariths)
qed

lemma loop_body:
  assumes "execute_loop lib x = Inr out" "out_port out = Some ''body''"
  shows "current_iteration x < max_iterations (nx_node x)"
    "\<exists>st. out_meta out = Some (jobj [(''iteration'', JNumber (PosInt (current_iteration x + 1))), (''state'', st)])"
  using assms by (auto simp: execute_loop_def Let_def loop_exit_def output_defs not_le split: if_splits)

lemma loop_other:
  assumes "execute_loop lib x = Inr out" "out_port out \<noteq> Some ''body''"
  shows "\<exists>st r. out_meta out = Some (jobj [(''iteration'', JNumber (PosInt (current_iteration x))),
    (''state'', st), (''exit_reason'', r)])"
  using assms by (auto simp: execute_loop_def Let_def loop_exit_def output_defs split: if_splits) blast+

lemma gather_waits:
  assumes "execute_gather x = Inr out" "out_control out = Some (CtlReenter ms)"
  shows "gather_polls x < max_polls (nx_node x)"
    "\<exists>e ls. out_meta out = Some (jobj (gather_meta (gather_polls x) e ls))"
  using assms by (auto simp: execute_gather_def Let_def output_defs evaluate_release_def not_le
      split: if_splits sum.splits option.splits release.splits) blast+

lemmas meta_wf = jobj_def bt_from_list_def bt_wf_def gather_meta_def

interpretation loop_head: self_counter "slot_count ''iteration'' n" "loop_pass lib n" "loop_leave lib n"
  "unat (max_iterations n)" for lib n
proof
  fix s s' assume "loop_pass lib n s s'"
  then obtain x out where x: "reads x n s" "execute_loop lib x = Inr out" "out_port out = Some ''body''"
    "records n out s s'" by (auto simp: loop_pass_def)
  obtain st where meta: "out_meta out =
      Some (jobj [(''iteration'', JNumber (PosInt (current_iteration x + 1))), (''state'', st)])"
    using loop_body(2) [OF x(2,3)] by blast
  have less: "current_iteration x < max_iterations n"
    using loop_body(1) [OF x(2,3)] x(1) by (simp add: reads_def)
  have "slot_count ''iteration'' n s' = unat (current_iteration x + 1)"
    using meta unfolding jobj_def by (rule records_count [OF x(4)]) (simp_all add: meta_wf)
  with less reads_count(1) [OF x(1)] Suc_unat [OF less]
  show "slot_count ''iteration'' n s < unat (max_iterations n)
      \<and> slot_count ''iteration'' n s' = Suc (slot_count ''iteration'' n s)"
    by (simp add: word_less_nat_alt)
next
  fix s s' assume "loop_leave lib n s s'"
  then obtain x out where x: "reads x n s" "execute_loop lib x = Inr out" "out_port out \<noteq> Some ''body''"
    "records n out s s'" by (auto simp: loop_leave_def)
  obtain st r where "out_meta out = Some (jobj [(''iteration'', JNumber (PosInt (current_iteration x))),
      (''state'', st), (''exit_reason'', r)])"
    using loop_other [OF x(2,3)] by blast
  then have "slot_count ''iteration'' n s' = unat (current_iteration x)"
    unfolding jobj_def by (rule records_count [OF x(4)]) (simp_all add: meta_wf)
  with reads_count(1) [OF x(1)] show "slot_count ''iteration'' n s' = slot_count ''iteration'' n s" by simp
qed

interpretation gather_poll: self_counter "slot_count ''polls'' n" "gather_wait n" "\<lambda>s s'. False"
  "unat (max_polls n)" for n
proof
  fix s s' assume "gather_wait n s s'"
  then obtain x out ms where x: "reads x n s" "execute_gather x = Inr out"
    "out_control out = Some (CtlReenter ms)" "records n out s s'" by (auto simp: gather_wait_def)
  obtain e ls where meta: "out_meta out = Some (jobj (gather_meta (gather_polls x) e ls))"
    using gather_waits(2) [OF x(2,3)] by blast
  have less: "gather_polls x < max_polls n"
    using gather_waits(1) [OF x(2,3)] x(1) by (simp add: reads_def)
  have "slot_count ''polls'' n s' = unat (gather_polls x + 1)"
    using meta unfolding jobj_def by (rule records_count [OF x(4)]) (simp_all add: meta_wf)
  with less reads_count(2) [OF x(1)] Suc_unat [OF less]
  show "slot_count ''polls'' n s < unat (max_polls n)
      \<and> slot_count ''polls'' n s' = Suc (slot_count ''polls'' n s)"
    by (simp add: word_less_nat_alt)
qed simp

text \<open>C19 (loop_passes_bounded): over a whole run a loop head sends its input round the body at
  most \<open>max_iterations\<close> times, and its slot counts the passes.  Leaving the loop does not reset the
  count, so a loop that an enclosing loop enters again continues on what is left of its budget.\<close>

theorem loop_passes_bounded:
  assumes "history (loop_pass lib n) (loop_leave lib n) s0 k s" "slot_count ''iteration'' n s0 = 0"
  shows "k \<le> unat (max_iterations n) \<and> slot_count ''iteration'' n s = k"
  using loop_head.history_counts [OF assms(1)] assms(2) by simp

text \<open>A gather asks to be run again at most \<open>max_polls\<close> times in a row
  before it emits or fails.\<close>

theorem gather_waits_bounded:
  assumes "history (gather_wait n) (\<lambda>s s'. False) s0 k s" "slot_count ''polls'' n s0 = 0"
  shows "k \<le> unat (max_polls n)"
  using gather_poll.history_counts [OF assms(1)] assms(2) by simp

text \<open>The accumulator a loop head leaves in its slot is exactly the value
  this activation computed.  Nothing of the accumulator it replaces survives the merge.\<close>

theorem loop_state_assigned:
  assumes "execute_loop lib x = Inr out" "records (nx_node x) out s s'"
  shows "Option.bind (node_slot s' (node_id (nx_node x))) (jget ''state'')
    = Some (if 0 < current_iteration x then fold_state lib x else initial_state lib x)"
proof -
  let ?st = "if 0 < current_iteration x then fold_state lib x else initial_state lib x"
  obtain step where r: "node_id (nx_node x) \<noteq> REPLACE"
    "node_slot s' (node_id (nx_node x))
      = node_slot (merge s (recorded_update (node_id (nx_node x)) out step)) (node_id (nx_node x))"
    using assms(2) by (auto simp: records_def)
  obtain c m where "out_meta out = Some (jobj ((''iteration'', c) # (''state'', replace ?st) # m))"
    "m = [] \<or> (\<exists>r. m = [(''exit_reason'', r)])"
    using assms(1) by (auto simp: execute_loop_def Let_def loop_exit_def output_defs split: if_splits)
  then have "\<exists>meta. out_meta out = Some (JObject meta) \<and> bt_wf meta \<and> bt_get ''state'' meta = Some (replace ?st)"
    by (auto simp: meta_wf)
  then obtain meta where m: "out_meta out = Some (JObject meta)" "bt_wf meta"
    "bt_get ''state'' meta = Some (replace ?st)" by blast
  show ?thesis
    unfolding r(2) using recorded_meta [OF r(1) m, of s step] by (simp add: replace_def merge_sentinel)
qed

section \<open>Gather restores the order of its lanes\<close>

abbreviation lanes_in :: "json \<Rightarrow> string \<Rightarrow> jmap" where
  "lanes_in s \<equiv> lanes_at (or_null (jget ''nodes'' s))"

definition lane_of :: "string \<Rightarrow> nat \<Rightarrow> nat \<Rightarrow> lane_context" where
  "lane_of origin n k =
    \<lparr>lane_id = mk_lane_id origin k, lane_origin = origin, lane_index = of_nat k, lane_count = of_nat n\<rparr>"

text \<open>The lanes of one fan-out finish on node \<open>w\<close> in some order.\<close>

definition lanes_finish :: "string \<Rightarrow> string \<Rightarrow> item list list \<Rightarrow> nat list \<Rightarrow> json \<Rightarrow> json" where
  "lanes_finish w origin rs =
    fold (\<lambda>k s. merge s (lane_items_update w (lane_of origin (length rs) k) (rs ! k) None ''ok'' None))"

definition lane_slot :: "nat \<Rightarrow> item list \<Rightarrow> json" where
  "lane_slot k its = jobj [(''items'', items_to_value its), (''port'', JNull), (''status'', JString ''ok''),
    (''index'', JNumber (PosInt (of_nat k)))]"

lemma lane_slot_update:
  "lane_items_update w (lane_of origin n k) its None ''ok'' None
    = path_update [''nodes'', w, ''lanes'', mk_lane_id origin k] (lane_slot k its)"
  by (simp add: lane_items_update_def lane_of_def lane_slot_def node_update_def with_meta_def
      port_value_def jobj_def bt_from_list_def)

lemma lanes_in_eq: "lanes_in s w = obj_of (or_null (jget ''lanes'' (or_null (node_slot s w))))"
  unfolding lanes_at_def node_slot_bind [symmetric]
  by (cases "node_slot s w"; cases "jget ''lanes'' (or_null (node_slot s w))")
     (auto simp: jget_obj_of obj_of_def split: json.splits option.splits)

lemma merge_null_lane_slot: "merge JNull (lane_slot k its) = lane_slot k its"
  by (simp add: lane_slot_def jobj_def bt_from_list_def merge_object sentinel_def items_to_value_def)

lemma lanes_in_write:
  assumes "w \<noteq> REPLACE" "bt_get (mk_lane_id origin k) (lanes_in s w) = None"
  shows "lanes_in (merge s (lane_items_update w (lane_of origin n k) its None ''ok'' None)) w
    = bt_insert (mk_lane_id origin k) (lane_slot k its) (lanes_in s w)"
  using assms unfolding lane_slot_update lanes_in_eq
    merge_lane_slot [OF assms(1) mk_lane_id_not_REPLACE]
  by (simp add: merge_null_lane_slot jget_obj_of)

lemma mset_bt_insert:
  "bt_get k m = None \<Longrightarrow> mset (bt_insert k v m) = add_mset (k, v) (mset m)"
  by (induction m) auto

lemma lanes_finish_mset:
  assumes "w \<noteq> REPLACE" "distinct ks" "\<And>k. k \<in> set ks \<Longrightarrow> bt_get (mk_lane_id origin k) (lanes_in s w) = None"
  shows "mset (lanes_in (lanes_finish w origin rs ks s) w)
    = mset (lanes_in s w) + image_mset (\<lambda>k. (mk_lane_id origin k, lane_slot k (rs ! k))) (mset ks)"
  using assms(2,3)
proof (induction ks arbitrary: s)
  case (Cons k ks)
  let ?s = "merge s (lane_items_update w (lane_of origin (length rs) k) (rs ! k) None ''ok'' None)"
  have ins: "lanes_in ?s w = bt_insert (mk_lane_id origin k) (lane_slot k (rs ! k)) (lanes_in s w)"
    using Cons.prems by (intro lanes_in_write [OF assms(1)]) simp
  have "mset (lanes_in (lanes_finish w origin rs ks ?s) w)
      = mset (lanes_in ?s w) + image_mset (\<lambda>k. (mk_lane_id origin k, lane_slot k (rs ! k))) (mset ks)"
    using Cons.prems by (intro Cons.IH) (auto simp: ins mk_lane_id_inject)
  then show ?case using Cons.prems by (simp add: lanes_finish_def ins mset_bt_insert)
qed (simp add: lanes_finish_def)

lemma arrived_lane_slot:
  assumes "\<And>it. it \<in> set its \<Longrightarrow> item_ok it"
  shows "arrived_of (lane_slot k its) = \<lparr>ar_index = of_nat k, ar_items = its, ar_failed = None\<rparr>"
  using items_roundtrip [OF assms]
  by (simp add: arrived_of_def lane_slot_def jobj_def bt_from_list_def slot_items_def items_to_value_def)

lemma lanes_finish_order:
  assumes "w \<noteq> REPLACE" "mset ks = mset [0..<length rs]" "length rs \<le> 256" "lanes_in s w = []"
    and ok: "\<And>its it. its \<in> set rs \<Longrightarrow> it \<in> set its \<Longrightarrow> item_ok it"
  shows "length (lane_arrivals (or_null (jget ''nodes'' (lanes_finish w origin rs ks s))) [w]) = length rs"
    "sort_key ar_index (lane_arrivals (or_null (jget ''nodes'' (lanes_finish w origin rs ks s))) [w])
      = map (\<lambda>k. \<lparr>ar_index = of_nat k, ar_items = rs ! k, ar_failed = None\<rparr>) [0..<length rs]"
proof -
  let ?arr = "\<lambda>k. \<lparr>ar_index = of_nat k, ar_items = rs ! k, ar_failed = None\<rparr>"
  let ?as = "lane_arrivals (or_null (jget ''nodes'' (lanes_finish w origin rs ks s))) [w]"
  have ks: "set ks = {0..<length rs}" "distinct ks"
    using mset_eq_setD [OF assms(2)] mset_eq_imp_distinct_iff [OF assms(2)] by simp_all
  have "mset (lanes_in (lanes_finish w origin rs ks s) w)
      = image_mset (\<lambda>k. (mk_lane_id origin k, lane_slot k (rs ! k))) (mset ks)"
    using lanes_finish_mset [OF assms(1) ks(2)] assms(4) by simp
  moreover have "arrived_of (lane_slot k (rs ! k)) = ?arr k" if "k \<in> set ks" for k
    using that ks(1) ok by (intro arrived_lane_slot) (auto dest: nth_mem)
  ultimately have "image_mset (arrived_of \<circ> snd) (mset (lanes_in (lanes_finish w origin rs ks s) w))
      = image_mset ?arr (mset ks)"
    by (simp only: multiset.map_comp comp_def snd_conv) (rule image_mset_cong, simp)
  then have "mset ?as = image_mset ?arr (mset ks)" by (simp add: lane_arrivals_def)
  then have ms: "mset (map ?arr [0..<length rs]) = mset ?as" by (simp add: assms(2))
  have inj: "(of_nat a :: 64 word) = of_nat b \<longleftrightarrow> a = b" "(of_nat a :: 64 word) \<le> of_nat b \<longleftrightarrow> a \<le> b"
    if "a < length rs" "b < length rs" for a b
    using that assms(3) by (simp_all add: word_of_nat_eq_iff word_of_nat_less_eq_iff take_bit_nat_eq_self)
  show "length ?as = length rs" using mset_eq_length [OF ms] by simp
  show "sort_key ar_index ?as = map ?arr [0..<length rs]"
  proof (rule sort_key_inj_key_eq)
    show "mset ?as = mset (map ?arr [0..<length rs])" using ms by simp
    show "inj_on ar_index (set ?as)"
      unfolding mset_eq_setD [OF ms, symmetric] using inj(1) by (auto simp: inj_on_def)
    show "sorted (map ar_index (map ?arr [0..<length rs]))"
      using inj(2) by (auto simp: sorted_iff_nth_mono comp_def)
  qed
qed


section \<open>Sample activations\<close>

definition plain_lib :: expr_lib where
  "plain_lib = \<lparr>lib_jq = (\<lambda>p v. None), lib_show = (\<lambda>v. [])\<rparr>"

definition context_on :: "node \<Rightarrow> item list \<Rightarrow> json \<Rightarrow> exec_context" where
  "context_on n its s =
    \<lparr>nx_node = n, nx_input = its, nx_run = JNull, nx_nodes = or_null (jget ''nodes'' s), nx_agents = [],
     nx_lane = None, nx_resume = None, nx_step = 0\<rparr>"

definition output_of :: "engine_error + node_output \<Rightarrow> node_output" where
  "output_of r = (case r of Inr out \<Rightarrow> out | Inl e \<Rightarrow> output_empty)"

definition after_run :: "node \<Rightarrow> (exec_context \<Rightarrow> engine_error + node_output) \<Rightarrow> item list \<Rightarrow> json \<Rightarrow> json" where
  "after_run n f its s = merge s (recorded_update (node_id n) (output_of (f (context_on n its s))) (Some 0))"

lemma reads_context [simp]: "reads (context_on n its s) n s"
  by (simp add: reads_def context_on_def)

lemma records_after: "node_id n \<noteq> REPLACE \<Longrightarrow> records n (output_of (f (context_on n its s))) s (after_run n f its s)"
  by (auto simp: records_def after_run_def)

definition loop_node :: node where
  "loop_node = mk_node ''l'' Loop [(''max_iterations'', jnat 3)]"

lemma loop_node_pass:
  "execute_loop plain_lib (context_on loop_node [] (JObject [])) =
    Inr (output_of (execute_loop plain_lib (context_on loop_node [] (JObject []))))
   \<and> out_port (output_of (execute_loop plain_lib (context_on loop_node [] (JObject [])))) = Some ''body''"
  by code_simp

lemma loop_node_id: "node_id loop_node \<noteq> REPLACE"
  by code_simp

theorem loop_passes_bounded_witness:
  "history (loop_pass plain_lib loop_node) (loop_leave plain_lib loop_node) (JObject []) 1
      (after_run loop_node (execute_loop plain_lib) [] (JObject []))
    \<and> 1 \<le> unat (max_iterations loop_node)"
proof -
  have "loop_pass plain_lib loop_node (JObject []) (after_run loop_node (execute_loop plain_lib) [] (JObject []))"
    unfolding loop_pass_def using loop_node_pass records_after [OF loop_node_id] reads_context by blast
  then have "history (loop_pass plain_lib loop_node) (loop_leave plain_lib loop_node) (JObject []) 1
      (after_run loop_node (execute_loop plain_lib) [] (JObject []))"
    using history_tick [OF history_start] by simp
  moreover have "slot_count ''iteration'' loop_node (JObject []) = 0" by code_simp
  ultimately show ?thesis using loop_passes_bounded by blast
qed

theorem loop_state_assigned_witness:
  "Option.bind (node_slot (after_run loop_node (execute_loop plain_lib) [] (JObject [])) ''l'') (jget ''state'')
    = Some JNull"
proof -
  let ?x = "context_on loop_node [] (JObject [])"
  have ev: "node_id loop_node = ''l''" "initial_state plain_lib ?x = JNull" "current_iteration ?x = 0"
    by code_simp+
  have n: "nx_node ?x = loop_node" by (simp add: context_on_def)
  have "Option.bind (node_slot (after_run loop_node (execute_loop plain_lib) [] (JObject [])) (node_id loop_node))
      (jget ''state'') = Some (if 0 < current_iteration ?x then fold_state plain_lib ?x else initial_state plain_lib ?x)"
    by (rule loop_state_assigned [OF loop_node_pass [THEN conjunct1], unfolded n]) (rule records_after [OF loop_node_id])
  then show ?thesis by (simp add: ev)
qed

definition gather_node :: node where
  "gather_node = mk_node ''g'' Gather [(''from'', JArray [JString ''w''])]"

definition scatter_node :: "string \<Rightarrow> node" where
  "scatter_node i = mk_node i Scatter []"

definition note_item :: "string \<Rightarrow> item" where
  "note_item t = item_new (JString t)"

text \<open>A scatter with id \<open>s\<close> has opened two lanes.\<close>

definition scattered :: json where
  "scattered = after_run (scatter_node ''s'') execute_scatter [note_item ''a'', note_item ''b''] (JObject [])"

lemma gather_node_waits:
  "execute_gather (context_on gather_node [] scattered) =
    Inr (output_of (execute_gather (context_on gather_node [] scattered)))
   \<and> out_control (output_of (execute_gather (context_on gather_node [] scattered))) = Some (CtlReenter 5)"
  by code_simp

lemma gather_node_id: "node_id gather_node \<noteq> REPLACE"
  by code_simp

theorem gather_waits_bounded_witness:
  "history (gather_wait gather_node) (\<lambda>s s'. False) scattered 1 (after_run gather_node execute_gather [] scattered)
    \<and> 1 \<le> unat (max_polls gather_node)"
proof -
  have "gather_wait gather_node scattered (after_run gather_node execute_gather [] scattered)"
    unfolding gather_wait_def using gather_node_waits records_after [OF gather_node_id] reads_context by blast
  then have "history (gather_wait gather_node) (\<lambda>s s'. False) scattered 1 (after_run gather_node execute_gather [] scattered)"
    using history_tick [OF history_start] by simp
  moreover have "slot_count ''polls'' gather_node scattered = 0" by code_simp
  ultimately show ?thesis using gather_waits_bounded by blast
qed

definition two_results :: "item list list" where
  "two_results = [[note_item ''a''], [note_item ''b'']]"


text \<open>The count a gather waits for is the first \<open>lane_count\<close> of the run state in node id order,
  whichever scatter recorded it.\<close>

definition two_scatters :: json where
  "two_scatters = lanes_finish ''w'' ''t'' [[note_item ''x'']] [0]
    (after_run (scatter_node ''t'') execute_scatter [note_item ''x''] scattered)"


text \<open>Lane slots are never cleared, so a second pass through a scatter with fewer lanes than the
  first leaves the results of the first pass in place.\<close>

definition second_pass :: json where
  "second_pass = lanes_finish ''w'' ''s'' [[note_item ''new'']] [0]
    (after_run (scatter_node ''s'') execute_scatter [note_item ''n'']
      (lanes_finish ''w'' ''s'' two_results [0, 1] scattered))"


text \<open>Validation accepts a workflow whose gather does not name the
  nodes it collects from.  Such a gather counts no lane, even after every lane of its scatter has
  arrived on the node wired to it.\<close>

theorem unnamed_gather_keeps_waiting:
  "validate sample_graph = Inr () \<and> kind (nodes sample_graph ! 3) = Gather
    \<and> gather_from (nodes sample_graph ! 3) = []
    \<and> out_control (output_of (execute_gather (context_on (nodes sample_graph ! 3) []
        (lanes_finish ''w'' ''s'' two_results [0, 1] scattered)))) = Some (CtlReenter 5)"
  by (intro conjI sample_accepted; code_simp)

end
