(* ===== verification/Tf_Lower.thy ===== *)
theory Tf_Lower
  imports Tf_Control Tf_Run
begin

text \<open>
  The lowering of a workflow onto the graph runtime: \<open>build_graph\<close> of \<open>engine/build.rs\<close>,
  \<open>register_handlers\<close> of \<open>engine/build/handlers.rs\<close> and \<open>wire_graph\<close> of \<open>engine/build/wiring.rs\<close>.
  The lemmas connect validation, lowering and the builder: an accepted graph always compiles, its
  run starts at the trigger, and every edge of the workflow is one the runtime can drive.
\<close>

section \<open>Handlers\<close>

definition is_back_edge :: "workflow_graph \<Rightarrow> edge \<Rightarrow> bool" where
  "is_back_edge g e \<longleftrightarrow> (from_node e, to_node e) \<in> set (back_edges g)"

definition incoming_of :: "workflow_graph \<Rightarrow> bool \<Rightarrow> string \<Rightarrow> (string \<times> string) list" where
  "incoming_of g returning i =
    map (\<lambda>e. (from_node e, from_port e))
      (filter (\<lambda>e. to_node e = i \<and> is_back_edge g e = returning) (edges g))"

definition handler_data_of :: "workflow_graph \<Rightarrow> nat option \<Rightarrow> node \<Rightarrow> handler_data" where
  "handler_data_of g timeout n =
    \<lparr>hd_node = n, hd_incoming = incoming_of g False (node_id n),
     hd_back_incoming = incoming_of g True (node_id n), hd_agents = agents g,
     hd_routing = handler_routing g (node_id n),
     hd_plain_targets = concat (map snd (outgoing_by_port g (node_id n))),
     hd_plain_targets_by_port = outgoing_by_port g (node_id n),
     hd_gather_nodes = set (ids_of_kind g Gather),
     hd_has_error_edge = has_port_edge g (node_id n) ''error'',
     hd_is_trigger = (kind n = Trigger), hd_node_timeout = timeout\<rparr>"

definition register_handlers ::
  "host \<Rightarrow> workflow_graph \<Rightarrow> nat option \<Rightarrow> (json, json) graph_builder \<Rightarrow> (json, json) graph_builder" where
  "register_handlers h g timeout b =
    fold (\<lambda>n. add_node (node_id n) (node_handler h (handler_data_of g timeout n))) (nodes g) b"

section \<open>Wiring\<close>

definition incoming_count :: "workflow_graph \<Rightarrow> string \<Rightarrow> nat" where
  "incoming_count g i = length (filter (\<lambda>e. to_node e = i) (filter (\<lambda>e. \<not> is_back_edge g e) (edges g)))"

definition is_fan_in :: "workflow_graph \<Rightarrow> edge \<Rightarrow> bool" where
  "is_fan_in g e \<longleftrightarrow> \<not> is_back_edge g e \<and> 1 < incoming_count g (to_node e)"

definition port_router :: "string \<Rightarrow> json \<Rightarrow> string" where
  "port_router i state = emitted_port (node_slot state i)"

definition filter_router :: "string \<Rightarrow> string \<Rightarrow> json \<Rightarrow> string" where
  "filter_router i p state = (if port_router i state = p then p else END)"

definition wire_plain ::
  "workflow_graph \<Rightarrow> string \<Rightarrow> edge list \<Rightarrow> (json, json) graph_builder \<Rightarrow> (json, json) graph_builder" where
  "wire_plain g i out b =
    (case out of
       [e] \<Rightarrow>
         if from_port e \<noteq> ''main'' then
           add_conditional_edges i (filter_router i (from_port e))
             [(from_port e, to_node e), (END, END)] b
         else if is_fan_in g e then add_waiting_edge i (to_node e) b
         else add_edge i (to_node e) b
     | _ \<Rightarrow> add_conditional_edges i (port_router i) (map (\<lambda>e. (from_port e, to_node e)) out) b)"

definition wire_routes ::
  "workflow_graph \<Rightarrow> string \<Rightarrow> (json, json) graph_builder \<Rightarrow> (json, json) graph_builder" where
  "wire_routes g i b =
    (if outgoing g i = [] then add_edge i END b
     else (case handler_routing g i of
         FanOut dests \<Rightarrow> with_unconditional_fanout i dests b
       | PortCommand groups \<Rightarrow> with_command_destinations i (concat (map snd groups)) b
       | Plain \<Rightarrow> wire_plain g i (outgoing g i) b))"

definition wire_node ::
  "workflow_graph \<Rightarrow> node \<Rightarrow> (json, json) graph_builder \<Rightarrow> (json, json) graph_builder" where
  "wire_node g n b =
    wire_routes g (node_id n)
      (if cfg_flag n ''requires_approval'' then mark_interrupt (node_id n) b else b)"

definition wire_relief ::
  "workflow_graph \<Rightarrow> string \<Rightarrow> string \<Rightarrow> (json, json) graph_builder \<Rightarrow> (json, json) graph_builder" where
  "wire_relief g m pred b =
    (case find_conditional_brancher g pred m of
       Some brancher \<Rightarrow> add_barrier_relief brancher pred m b
     | None \<Rightarrow> b)"

definition wire_reliefs ::
  "workflow_graph \<Rightarrow> node \<Rightarrow> (json, json) graph_builder \<Rightarrow> (json, json) graph_builder" where
  "wire_reliefs g m b =
    (if incoming_count g (node_id m) \<le> 1 then b
     else fold (wire_relief g (node_id m)) (conditional_predecessors g (node_id m) (back_edges g)) b)"

definition wire_graph ::
  "workflow_graph \<Rightarrow> string \<Rightarrow> (json, json) graph_builder \<Rightarrow> (json, json) graph_builder" where
  "wire_graph g trigger_id b =
    fold (wire_reliefs g) (nodes g) (fold (wire_node g) (nodes g) (set_entry trigger_id b))"

section \<open>Run-level knobs\<close>

definition positive_knob :: "node \<Rightarrow> string \<Rightarrow> 64 word option" where
  "positive_knob t k = (case cfg_u64 t k of Some n \<Rightarrow> if 0 < n then Some n else None | None \<Rightarrow> None)"

definition MAX_GRAPH_CONCURRENCY :: nat where
  "MAX_GRAPH_CONCURRENCY = 256"

definition max_concurrency_of :: "node \<Rightarrow> nat option" where
  "max_concurrency_of t = map_option (\<lambda>n. min (unat n) MAX_GRAPH_CONCURRENCY) (positive_knob t ''max_concurrency'')"

definition sat_add :: "64 word \<Rightarrow> 64 word \<Rightarrow> 64 word" where
  "sat_add a b = (if unat a + unat b < 2 ^ 64 then a + b else - 1)"

definition sat_mul :: "64 word \<Rightarrow> 64 word \<Rightarrow> 64 word" where
  "sat_mul a b = (if unat a * unat b < 2 ^ 64 then a * b else - 1)"

text \<open>The sum over the loop nodes is a plain \<open>u64\<close> sum: it wraps in a release build.\<close>

definition loop_budget :: "workflow_graph \<Rightarrow> 64 word" where
  "loop_budget g =
    sum_list (map (\<lambda>n. sat_add
        (case cfg_u64 n ''max_iterations'' of Some k \<Rightarrow> k | None \<Rightarrow> DEFAULT_MAX_ITERATIONS) 1)
      (filter (\<lambda>n. kind n = Loop) (nodes g)))"

definition derived_limit :: "workflow_graph \<Rightarrow> 64 word" where
  "derived_limit g =
    sat_add (sat_mul (loop_budget g) (of_nat (length (nodes g)))) (of_nat (length (nodes g)))"

definition apply_recursion_limit ::
  "workflow_graph \<Rightarrow> node \<Rightarrow> (json, json) graph_builder \<Rightarrow> (json, json) graph_builder" where
  "apply_recursion_limit g t b =
    (case positive_knob t ''recursion_limit'' of
       Some l \<Rightarrow> with_recursion_limit (unat l) b
     | None \<Rightarrow> if 0 < loop_budget g then with_recursion_limit (unat (derived_limit g)) b else b)"

definition visit_policy :: "node \<Rightarrow> recursion_policy option" where
  "visit_policy t =
    map_option (\<lambda>visits. default_policy\<lparr>max_visits_per_node := Some (unat visits),
        max_total_steps := (case positive_knob t ''recursion_limit'' of
            Some l \<Rightarrow> max (max_total_steps default_policy) (unat l)
          | None \<Rightarrow> max_total_steps default_policy)\<rparr>)
      (positive_knob t ''max_node_visits'')"

definition base_builder :: "string \<Rightarrow> workflow_graph \<Rightarrow> node \<Rightarrow> (json, json) graph_builder" where
  "base_builder gid g t =
    apply_recursion_limit g t
      ((case max_concurrency_of t of Some n \<Rightarrow> with_max_concurrency n | None \<Rightarrow> id)
        (set_reducer merge_reducer_apply (with_parallel True (builder_new gid))))"

definition lowered_builder :: "host \<Rightarrow> string \<Rightarrow> workflow_graph \<Rightarrow> node \<Rightarrow> (json, json) graph_builder" where
  "lowered_builder h gid g t =
    wire_graph g (node_id t)
      (register_handlers h g (map_option unat (positive_knob t ''node_timeout_secs'')) (base_builder gid g t))"

text \<open>\<open>Display\<close> of a graph error, which the capability error of a failed compilation carries, is
  the rendering of \<^const>\<open>error_to_string\<close>.\<close>

definition build_graph ::
  "host \<Rightarrow> string \<Rightarrow> workflow_graph \<Rightarrow> engine_error + (json, json) compiled_graph \<times> string" where
  "build_graph h gid g =
    (case trigger g of
       None \<Rightarrow> Inl (EValidation MissingTrigger)
     | Some t \<Rightarrow>
        (case compile (lowered_builder h gid g t) of
           Inl e \<Rightarrow> Inl (ECapability (Message (error_to_string e)))
         | Inr c \<Rightarrow>
            (let c' = with_checkpointer c
             in Inr (case visit_policy t of Some p \<Rightarrow> with_recursion_policy p c' | None \<Rightarrow> c', node_id t))))"

section \<open>Port groups\<close>

lemma push_group_fst:
  "map fst (push_group p t gs) = (if p \<in> set (map fst gs) then map fst gs else map fst gs @ [p])"
  by (induction p t gs rule: push_group.induct) (auto simp: rev_image_eqI)

lemma push_group_total:
  "sum_list (map (\<lambda>grp. length (snd grp)) (push_group p t gs))
    = Suc (sum_list (map (\<lambda>grp. length (snd grp)) gs))"
  by (induction p t gs rule: push_group.induct) auto

lemma push_group_targets: "set (concat (map snd (push_group p t gs))) = insert t (set (concat (map snd gs)))"
  by (induction p t gs rule: push_group.induct) (auto split: if_splits)

definition port_groups :: "edge list \<Rightarrow> (string \<times> string list) list" where
  "port_groups es = fold (\<lambda>e. push_group (from_port e) (to_node e)) es []"

lemma port_groups_snoc: "port_groups (es @ [e]) = push_group (from_port e) (to_node e) (port_groups es)"
  by (simp add: port_groups_def)

lemma port_groups_facts:
  "set (map fst (port_groups es)) = set (map from_port es)
    \<and> sum_list (map (\<lambda>grp. length (snd grp)) (port_groups es)) = length es
    \<and> set (concat (map snd (port_groups es))) = set (map to_node es)
    \<and> distinct (map fst (port_groups es))"
proof (induction es rule: rev_induct)
  case (snoc e es)
  then show ?case
    unfolding port_groups_snoc push_group_fst push_group_total push_group_targets by auto
qed (simp add: port_groups_def)

lemma outgoing_groups:
  "set (map fst (outgoing_by_port g i)) = set (map from_port (outgoing g i))"
  "sum_list (map (\<lambda>grp. length (snd grp)) (outgoing_by_port g i)) = length (outgoing g i)"
  "set (concat (map snd (outgoing_by_port g i))) = to_node ` set (outgoing g i)"
  "distinct (map fst (outgoing_by_port g i))"
proof -
  have "outgoing_by_port g i = port_groups (outgoing g i)"
    by (simp add: outgoing_by_port_def outgoing_def port_groups_def)
  with port_groups_facts [of "outgoing g i"]
  show "set (map fst (outgoing_by_port g i)) = set (map from_port (outgoing g i))"
    "sum_list (map (\<lambda>grp. length (snd grp)) (outgoing_by_port g i)) = length (outgoing g i)"
    "set (concat (map snd (outgoing_by_port g i))) = to_node ` set (outgoing g i)"
    "distinct (map fst (outgoing_by_port g i))"
    by (metis (no_types) list.set_map)+
qed

lemma plain_ports_distinct:
  assumes "handler_routing g i = Plain"
  shows "distinct (map from_port (outgoing g i))"
proof -
  let ?gs = "outgoing_by_port g i"
  have "length ?gs = length (outgoing g i) \<or> length (outgoing g i) \<le> 1"
    using assms outgoing_groups(2) [of g i]
    by (auto simp: handler_routing_def Let_def split: list.splits if_splits)
  then show ?thesis
  proof
    assume len: "length ?gs = length (outgoing g i)"
    have "card (set (map from_port (outgoing g i))) = card (set (map fst ?gs))"
      by (simp only: outgoing_groups(1))
    also have "\<dots> = length (map fst ?gs)" using outgoing_groups(4) [of g i] by (rule distinct_card)
    finally show ?thesis using len by (intro card_distinct) simp
  next
    assume "length (outgoing g i) \<le> 1"
    then show ?thesis by (cases "outgoing g i") auto
  qed
qed

lemma command_targets:
  "handler_routing g i = FanOut ts \<Longrightarrow> set ts = to_node ` set (outgoing g i)"
  "handler_routing g i = PortCommand gs \<Longrightarrow> set (concat (map snd gs)) = to_node ` set (outgoing g i)"
proof -
  have "handler_routing g i = FanOut ts \<Longrightarrow> concat (map snd (outgoing_by_port g i)) = ts"
    "handler_routing g i = PortCommand gs \<Longrightarrow> outgoing_by_port g i = gs"
    by (auto simp: handler_routing_def Let_def split: list.splits if_splits)
  then show "handler_routing g i = FanOut ts \<Longrightarrow> set ts = to_node ` set (outgoing g i)"
    "handler_routing g i = PortCommand gs \<Longrightarrow> set (concat (map snd gs)) = to_node ` set (outgoing g i)"
    using outgoing_groups(3) [of g i] by metis+
qed

section \<open>What each node contributes\<close>

definition static_target :: "workflow_graph \<Rightarrow> string \<Rightarrow> string option" where
  "static_target g i =
    (if outgoing g i = [] then Some END
     else if handler_routing g i \<noteq> Plain then None
     else (case outgoing g i of [e] \<Rightarrow> if from_port e = ''main'' then Some (to_node e) else None | _ \<Rightarrow> None))"

definition branch_table :: "workflow_graph \<Rightarrow> string \<Rightarrow> (string \<times> string) list option" where
  "branch_table g i =
    (if outgoing g i = [] \<or> handler_routing g i \<noteq> Plain \<or> static_target g i \<noteq> None then None
     else Some (map (\<lambda>e. (from_port e, to_node e)) (outgoing g i)
        @ (if length (outgoing g i) = 1 then [(END, END)] else [])))"

definition command_table :: "workflow_graph \<Rightarrow> string \<Rightarrow> string list option" where
  "command_table g i =
    (if outgoing g i = [] then None
     else (case handler_routing g i of
         Plain \<Rightarrow> None
       | FanOut ts \<Rightarrow> Some ts
       | PortCommand gs \<Rightarrow> Some (concat (map snd gs))))"

definition waits_at :: "workflow_graph \<Rightarrow> string \<Rightarrow> string option" where
  "waits_at g i =
    (case outgoing g i of
       [e] \<Rightarrow> if handler_routing g i = Plain \<and> from_port e = ''main'' \<and> is_fan_in g e
               then Some (to_node e) else None
     | _ \<Rightarrow> None)"

named_theorems wiring \<open>the maps of a wired builder\<close>

lemma outgoing_cases:
  obtains (leaf) "outgoing g i = []"
  | (command) ts where "command_table g i = Some ts" "outgoing g i \<noteq> []"
      "\<And>b. wire_routes g i b = with_unconditional_fanout i ts b
        \<or> wire_routes g i b = with_command_destinations i ts b" "handler_routing g i \<noteq> Plain"
  | (single) e where "outgoing g i = [e]" "handler_routing g i = Plain" "from_port e = ''main''"
  | (guarded) e where "outgoing g i = [e]" "handler_routing g i = Plain" "from_port e \<noteq> ''main''"
  | (branching) "2 \<le> length (outgoing g i)" "handler_routing g i = Plain"
proof (cases "handler_routing g i")
  case Plain
  then show ?thesis
    using leaf single guarded branching
    by (cases "outgoing g i" rule: remdups_adj.cases) auto
next
  case (FanOut ts)
  then show ?thesis using leaf command [of ts]
    by (cases "outgoing g i = []") (auto simp: command_table_def wire_routes_def)
next
  case (PortCommand gs)
  then show ?thesis using leaf command [of "concat (map snd gs)"]
    by (cases "outgoing g i = []") (auto simp: command_table_def wire_routes_def)
qed

definition table_branch :: "string \<Rightarrow> edge list \<Rightarrow> (string \<times> string) list \<Rightarrow> json branch" where
  "table_branch i out table =
    \<lparr>router = (case out of [e] \<Rightarrow> filter_router i (from_port e) | _ \<Rightarrow> port_router i),
     routes = fold (\<lambda>(k, v). hm_insert k v) table []\<rparr>"

definition waiting_at :: "string \<Rightarrow> ('s, 'u) graph_builder \<Rightarrow> string hset" where
  "waiting_at t b = (case bt_get t (gb_waiting b) of Some ps \<Rightarrow> ps | None \<Rightarrow> [])"

lemmas contribution_defs = static_target_def branch_table_def command_table_def waits_at_def

lemma wire_routes_maps [wiring]:
  "gb_edges (wire_routes g i b) =
      (case static_target g i of Some t \<Rightarrow> hm_insert i t (gb_edges b) | None \<Rightarrow> gb_edges b)
    \<and> gb_branches (wire_routes g i b) =
      (case branch_table g i of
         Some table \<Rightarrow> hm_insert i (table_branch i (outgoing g i) table) (gb_branches b)
       | None \<Rightarrow> gb_branches b)
    \<and> gb_command_nodes (wire_routes g i b) =
      (if command_table g i = None then gb_command_nodes b else hs_insert i (gb_command_nodes b))
    \<and> gb_waiting (wire_routes g i b) =
      (case waits_at g i of
         Some t \<Rightarrow> hm_insert t (hs_insert i (waiting_at t b)) (gb_waiting b)
       | None \<Rightarrow> gb_waiting b)
    \<and> gb_nodes (wire_routes g i b) = gb_nodes b \<and> gb_reducer (wire_routes g i b) = gb_reducer b
    \<and> gb_recursion_limit (wire_routes g i b) = gb_recursion_limit b"
proof (cases rule: outgoing_cases [of g i])
  case leaf
  then show ?thesis by (simp add: wire_routes_def contribution_defs builder_defs)
next
  case (command ts)
  have "static_target g i = None" "branch_table g i = None" "waits_at g i = None"
    using command(2,4) by (auto simp: contribution_defs split: list.split)
  with command(1) command(3) [of b] show ?thesis by (auto simp: builder_defs)
next
  case (single e)
  then show ?thesis
    by (simp add: wire_routes_def wire_plain_def contribution_defs builder_defs waiting_at_def)
next
  case (guarded e)
  then show ?thesis
    by (simp add: wire_routes_def wire_plain_def contribution_defs builder_defs table_branch_def)
next
  case branching
  then obtain e f es where out: "outgoing g i = e # f # es"
    by (cases "outgoing g i" rule: remdups_adj.cases) auto
  with branching(2) show ?thesis
    by (simp add: wire_routes_def wire_plain_def contribution_defs builder_defs table_branch_def)
qed

lemma waiting_at_insert:
  "gb_waiting b' = hm_insert m ps (gb_waiting b) \<Longrightarrow> waiting_at t b' = (if t = m then ps else waiting_at t b)"
  by (simp add: waiting_at_def)

lemma waiting_at_reliefs [simp]: "waiting_at t (b\<lparr>gb_barrier_reliefs := rs\<rparr>) = waiting_at t b"
  by (simp add: waiting_at_def)

lemma mark_interrupt_maps [simp]:
  "gb_edges (mark_interrupt i b) = gb_edges b" "gb_branches (mark_interrupt i b) = gb_branches b"
  "gb_command_nodes (mark_interrupt i b) = gb_command_nodes b"
  "gb_waiting (mark_interrupt i b) = gb_waiting b" "gb_nodes (mark_interrupt i b) = gb_nodes b"
  "gb_reducer (mark_interrupt i b) = gb_reducer b"
  "gb_recursion_limit (mark_interrupt i b) = gb_recursion_limit b"
  "waiting_at t (mark_interrupt i b) = waiting_at t b"
  by (simp_all add: waiting_at_def mark_interrupt_def edit_meta_def)

lemma wire_node_get [wiring]:
  "bt_get k (gb_edges (wire_node g n b)) =
    (if k = node_id n \<and> static_target g k \<noteq> None then static_target g k else bt_get k (gb_edges b))"
  "bt_get k (gb_branches (wire_node g n b)) =
    (if k = node_id n \<and> branch_table g k \<noteq> None
     then map_option (table_branch k (outgoing g k)) (branch_table g k) else bt_get k (gb_branches b))"
  "set (gb_command_nodes (wire_node g n b)) =
    (if command_table g (node_id n) = None then {} else {node_id n}) \<union> set (gb_command_nodes b)"
  "set (waiting_at t (wire_node g n b)) =
    (if waits_at g (node_id n) = Some t then {node_id n} else {}) \<union> set (waiting_at t b)"
  "gb_nodes (wire_node g n b) = gb_nodes b" "gb_reducer (wire_node g n b) = gb_reducer b"
  "gb_recursion_limit (wire_node g n b) = gb_recursion_limit b"
proof -
  have "\<exists>b'. wire_node g n b = wire_routes g (node_id n) b' \<and> gb_edges b' = gb_edges b
      \<and> gb_branches b' = gb_branches b \<and> gb_command_nodes b' = gb_command_nodes b
      \<and> gb_waiting b' = gb_waiting b \<and> gb_nodes b' = gb_nodes b \<and> gb_reducer b' = gb_reducer b
      \<and> gb_recursion_limit b' = gb_recursion_limit b"
    by (cases "cfg_flag n ''requires_approval''") (auto simp: wire_node_def)
  then obtain b' where b': "wire_node g n b = wire_routes g (node_id n) b'" "gb_edges b' = gb_edges b"
      "gb_branches b' = gb_branches b" "gb_command_nodes b' = gb_command_nodes b"
      "gb_waiting b' = gb_waiting b" "gb_nodes b' = gb_nodes b" "gb_reducer b' = gb_reducer b"
      "gb_recursion_limit b' = gb_recursion_limit b" by blast
  have w: "waiting_at t b' = waiting_at t b" for t by (simp add: waiting_at_def b')
  show "bt_get k (gb_edges (wire_node g n b)) =
      (if k = node_id n \<and> static_target g k \<noteq> None then static_target g k else bt_get k (gb_edges b))"
    "bt_get k (gb_branches (wire_node g n b)) =
      (if k = node_id n \<and> branch_table g k \<noteq> None
       then map_option (table_branch k (outgoing g k)) (branch_table g k) else bt_get k (gb_branches b))"
    "set (gb_command_nodes (wire_node g n b)) =
      (if command_table g (node_id n) = None then {} else {node_id n}) \<union> set (gb_command_nodes b)"
    "gb_nodes (wire_node g n b) = gb_nodes b" "gb_reducer (wire_node g n b) = gb_reducer b"
    "gb_recursion_limit (wire_node g n b) = gb_recursion_limit b"
    by (auto simp: b' wire_routes_maps split: option.split)
  show "set (waiting_at t (wire_node g n b)) =
      (if waits_at g (node_id n) = Some t then {node_id n} else {}) \<union> set (waiting_at t b)"
  proof (cases "waits_at g (node_id n)")
    case None
    then show ?thesis by (simp add: waiting_at_def b' wire_routes_maps)
  next
    case (Some m)
    have "gb_waiting (wire_node g n b) = hm_insert m (hs_insert (node_id n) (waiting_at m b)) (gb_waiting b)"
      by (simp add: b' wire_routes_maps Some w)
    from waiting_at_insert [OF this] Some show ?thesis by simp
  qed
qed

lemma fold_wire_node [wiring]:
  "bt_get k (gb_edges (fold (wire_node g) ns b)) =
    (if k \<in> node_id ` set ns \<and> static_target g k \<noteq> None then static_target g k
     else bt_get k (gb_edges b))"
  "bt_get k (gb_branches (fold (wire_node g) ns b)) =
    (if k \<in> node_id ` set ns \<and> branch_table g k \<noteq> None
     then map_option (table_branch k (outgoing g k)) (branch_table g k)
     else bt_get k (gb_branches b))"
  "set (gb_command_nodes (fold (wire_node g) ns b)) =
    {i \<in> node_id ` set ns. command_table g i \<noteq> None} \<union> set (gb_command_nodes b)"
  "set (waiting_at t (fold (wire_node g) ns b)) =
    {i \<in> node_id ` set ns. waits_at g i = Some t} \<union> set (waiting_at t b)"
  "gb_nodes (fold (wire_node g) ns b) = gb_nodes b"
  "gb_reducer (fold (wire_node g) ns b) = gb_reducer b"
  "gb_recursion_limit (fold (wire_node g) ns b) = gb_recursion_limit b"
  by (induction ns arbitrary: b) (auto simp: wire_node_get)

lemma wire_reliefs_only:
  "\<exists>rs. fold (wire_reliefs g) ns b = b\<lparr>gb_barrier_reliefs := rs\<rparr>"
proof -
  have same: "\<exists>rs. b = b\<lparr>gb_barrier_reliefs := rs\<rparr>" for b :: "(json, json) graph_builder"
    by (rule exI [of _ "gb_barrier_reliefs b"]) simp
  have step: "\<exists>rs. fold f xs b = b\<lparr>gb_barrier_reliefs := rs\<rparr>"
    if upd: "\<And>x b. \<exists>rs. f x b = b\<lparr>gb_barrier_reliefs := rs\<rparr>"
    for f :: "'x \<Rightarrow> (json, json) graph_builder \<Rightarrow> (json, json) graph_builder" and xs b
  proof (induction xs arbitrary: b)
    case (Cons x xs)
    obtain rs where "f x b = b\<lparr>gb_barrier_reliefs := rs\<rparr>" using upd by blast
    with Cons [of "f x b"] show ?case by auto
  qed (simp add: same)
  have "\<exists>rs. wire_relief g m p b = b\<lparr>gb_barrier_reliefs := rs\<rparr>" for m p b
    by (auto simp: wire_relief_def add_barrier_relief_def same split: option.split)
  then have "\<exists>rs. wire_reliefs g m b = b\<lparr>gb_barrier_reliefs := rs\<rparr>" for m b
    by (simp add: wire_reliefs_def step same)
  then show ?thesis by (rule step)
qed

lemma registered_nodes:
  "bt_get k (gb_nodes (register_handlers h g timeout b)) = None \<longleftrightarrow>
    k \<notin> set (node_ids g) \<and> bt_get k (gb_nodes b) = None"
proof -
  have "bt_get k (gb_nodes (fold (\<lambda>n. add_node (node_id n) (f n)) ns b)) = None \<longleftrightarrow>
      k \<notin> node_id ` set ns \<and> bt_get k (gb_nodes b) = None" for f ns
    by (induction ns arbitrary: b) (auto simp: add_node_def)
  then show ?thesis by (simp add: register_handlers_def)
qed

lemma register_handlers_rest [simp]:
  "gb_edges (register_handlers h g timeout b) = gb_edges b"
  "gb_branches (register_handlers h g timeout b) = gb_branches b"
  "gb_command_nodes (register_handlers h g timeout b) = gb_command_nodes b"
  "gb_waiting (register_handlers h g timeout b) = gb_waiting b"
  "gb_reducer (register_handlers h g timeout b) = gb_reducer b"
  "gb_recursion_limit (register_handlers h g timeout b) = gb_recursion_limit b"
proof -
  have "\<exists>ns'. fold (\<lambda>n. add_node (node_id n) (f n)) ns b = b\<lparr>gb_nodes := ns'\<rparr>" for f ns
  proof (induction ns arbitrary: b)
    case Nil
    then show ?case by (auto intro: exI [of _ "gb_nodes b"])
  next
    case (Cons n ns)
    from Cons [of "add_node (node_id n) (f n) b"] show ?case by (auto simp: add_node_def)
  qed
  from this [of "\<lambda>n. node_handler h (handler_data_of g timeout n)" "nodes g"]
  obtain ns' where "register_handlers h g timeout b = b\<lparr>gb_nodes := ns'\<rparr>"
    unfolding register_handlers_def by (rule exE)
  then show "gb_edges (register_handlers h g timeout b) = gb_edges b"
    "gb_branches (register_handlers h g timeout b) = gb_branches b"
    "gb_command_nodes (register_handlers h g timeout b) = gb_command_nodes b"
    "gb_waiting (register_handlers h g timeout b) = gb_waiting b"
    "gb_reducer (register_handlers h g timeout b) = gb_reducer b"
    "gb_recursion_limit (register_handlers h g timeout b) = gb_recursion_limit b"
    by simp_all
qed

lemma base_builder_maps [simp]:
  "gb_edges (base_builder gid g t) = []" "gb_branches (base_builder gid g t) = []"
  "gb_command_nodes (base_builder gid g t) = []" "gb_waiting (base_builder gid g t) = []"
  "gb_nodes (base_builder gid g t) = []"
  "gb_reducer (base_builder gid g t) = Some merge_reducer_apply"
  by (simp_all add: base_builder_def apply_recursion_limit_def builder_defs split: option.split)

section \<open>The lowered topology\<close>

lemma lowered_maps [wiring]:
  "bt_get k (gb_edges (lowered_builder h gid g t)) =
    (if k \<in> set (node_ids g) \<and> static_target g k \<noteq> None then static_target g k
     else if k = START then Some (node_id t) else None)"
  "bt_get k (gb_branches (lowered_builder h gid g t)) =
    (if k \<in> set (node_ids g) then map_option (table_branch k (outgoing g k)) (branch_table g k) else None)"
  "set (gb_command_nodes (lowered_builder h gid g t)) = {i \<in> set (node_ids g). command_table g i \<noteq> None}"
  "set (waiting_at m (lowered_builder h gid g t)) = {i \<in> set (node_ids g). waits_at g i = Some m}"
  "bt_get k (gb_nodes (lowered_builder h gid g t)) = None \<longleftrightarrow> k \<notin> set (node_ids g)"
  "gb_reducer (lowered_builder h gid g t) = Some merge_reducer_apply"
  "gb_recursion_limit (lowered_builder h gid g t) = gb_recursion_limit (base_builder gid g t)"
proof -
  define b where "b = set_entry (node_id t)
    (register_handlers h g (map_option unat (positive_knob t ''node_timeout_secs'')) (base_builder gid g t))"
  obtain rs where rs: "lowered_builder h gid g t = (fold (wire_node g) (nodes g) b)\<lparr>gb_barrier_reliefs := rs\<rparr>"
    using wire_reliefs_only [of g "nodes g" "fold (wire_node g) (nodes g) b"]
    by (auto simp: lowered_builder_def wire_graph_def b_def)
  have b: "bt_get k (gb_edges b) = (if k = START then Some (node_id t) else None)"
    "gb_branches b = []" "gb_command_nodes b = []" "waiting_at m b = []"
    "bt_get k (gb_nodes b) = None \<longleftrightarrow> k \<notin> set (node_ids g)"
    "gb_reducer b = Some merge_reducer_apply"
    "gb_recursion_limit b = gb_recursion_limit (base_builder gid g t)" for k m
    by (simp_all add: b_def set_entry_def add_edge_def waiting_at_def registered_nodes)
  show "bt_get k (gb_edges (lowered_builder h gid g t)) =
      (if k \<in> set (node_ids g) \<and> static_target g k \<noteq> None then static_target g k
       else if k = START then Some (node_id t) else None)"
    "bt_get k (gb_branches (lowered_builder h gid g t)) =
      (if k \<in> set (node_ids g) then map_option (table_branch k (outgoing g k)) (branch_table g k) else None)"
    "set (gb_command_nodes (lowered_builder h gid g t)) = {i \<in> set (node_ids g). command_table g i \<noteq> None}"
    "bt_get k (gb_nodes (lowered_builder h gid g t)) = None \<longleftrightarrow> k \<notin> set (node_ids g)"
    "gb_reducer (lowered_builder h gid g t) = Some merge_reducer_apply"
    "gb_recursion_limit (lowered_builder h gid g t) = gb_recursion_limit (base_builder gid g t)"
    by (simp_all add: rs fold_wire_node b)
  show "set (waiting_at m (lowered_builder h gid g t)) = {i \<in> set (node_ids g). waits_at g i = Some m}"
    by (simp add: rs fold_wire_node b)
qed

lemma built_fold: "(\<And>x b. built b \<Longrightarrow> built (f x b)) \<Longrightarrow> built b \<Longrightarrow> built (fold f xs b)"
  by (induction xs arbitrary: b) auto

lemma built_wire_node: "built b \<Longrightarrow> built (wire_node g n b)"
proof -
  assume "built b"
  then have "built (if cfg_flag n ''requires_approval'' then mark_interrupt (node_id n) b else b)" (is "built ?b")
    by (simp add: built_interrupt)
  then show ?thesis
    by (cases rule: outgoing_cases [of g "node_id n"])
       (auto simp: wire_node_def wire_routes_def wire_plain_def split: list.split handler_routing_kind.split
         intro: built.intros)
qed

lemma built_lowered: "built (lowered_builder h gid g t)"
proof -
  have "built (base_builder gid g t)"
    by (auto simp: base_builder_def apply_recursion_limit_def split: option.split
        intro!: built_recursion_limit built_max_concurrency built_reducer built_parallel built_new)
  then have "built (register_handlers h g timeout (base_builder gid g t))" for timeout
    unfolding register_handlers_def by (rule built_fold [rotated]) (rule built_node)
  then have wired: "built (fold (wire_node g) (nodes g) (set_entry (node_id t)
      (register_handlers h g timeout (base_builder gid g t))))" for timeout
    by (intro built_fold built_wire_node built_entry)
  have "built (wire_relief g m p b)" if "built b" for m p b
    using that by (auto simp: wire_relief_def split: option.split intro: built_relief)
  then have reliefs: "built (wire_reliefs g m b)" if "built b" for m b
    using that by (auto simp: wire_reliefs_def intro!: built_fold)
  show ?thesis unfolding lowered_builder_def wire_graph_def
    by (rule built_fold [OF reliefs wired])
qed

lemma contributions_known:
  assumes "edges_known g"
  shows "static_target g i = Some t \<Longrightarrow> t = END \<or> t \<in> set (node_ids g)"
    "branch_table g i = Some table \<Longrightarrow> (p, t) \<in> set table \<Longrightarrow> t = END \<or> t \<in> set (node_ids g)"
    "waits_at g i = Some t \<Longrightarrow> t \<in> set (node_ids g)"
proof -
  have known: "to_node e \<in> set (node_ids g)" if "e \<in> set (outgoing g i)" for e
    using that assms unfolding edges_known_def graph_node_None_iff by auto
  have only: "to_node e \<in> set (node_ids g)" if "outgoing g i = [e]" for e
    using known [of e] unfolding that by simp
  show "static_target g i = Some t \<Longrightarrow> t = END \<or> t \<in> set (node_ids g)"
    using only by (auto simp: static_target_def split: if_splits list.splits)
  show "branch_table g i = Some table \<Longrightarrow> (p, t) \<in> set table \<Longrightarrow> t = END \<or> t \<in> set (node_ids g)"
    using known by (auto simp: branch_table_def split: if_splits)
  show "waits_at g i = Some t \<Longrightarrow> t \<in> set (node_ids g)"
    using only by (auto simp: waits_at_def split: if_splits list.splits)
qed

lemma contributions_exclusive:
  "branch_table g i \<noteq> None \<Longrightarrow> static_target g i = None"
  "command_table g i \<noteq> None \<Longrightarrow> static_target g i = None \<and> branch_table g i = None"
  by (auto simp: contribution_defs split: if_splits handler_routing_kind.splits)

lemma table_branch_routes:
  "bt_get p (routes (table_branch i out table)) = map_of (rev table) p"
  using hm.get_build [of p table "[]"] by (simp add: table_branch_def split: option.splits)

lemma lowered_graph_ok:
  assumes "edges_known g" "t \<in> set (nodes g)" "START \<notin> set (node_ids g)" "END \<notin> set (node_ids g)"
  shows "graph_ok (from_parts (lowered_builder h gid g t) (node_id t) merge_reducer_apply)"
proof -
  let ?b = "lowered_builder h gid g t"
  let ?c = "from_parts ?b (node_id t) merge_reducer_apply"
  have reg: "registered ?c k \<longleftrightarrow> k \<in> set (node_ids g)" for k
    using lowered_maps(5) [of k h gid g t] by auto
  have t: "node_id t \<in> set (node_ids g)" using assms(2) by simp
  have "edges_ok ?c"
    unfolding edges_ok_def reg
  proof (intro allI impI)
    fix k m assume "bt_get k (cg_edges ?c) = Some m"
    then have "k = START \<and> m = node_id t \<or> k \<in> set (node_ids g) \<and> static_target g k = Some m"
      using assms(3) t by (auto simp: lowered_maps split: if_splits)
    moreover have "m = END \<or> m \<in> set (node_ids g)" if "static_target g k = Some m"
      using contributions_known(1) [OF assms(1) that] .
    moreover have "x \<noteq> START \<and> x \<noteq> END" if "x \<in> set (node_ids g)" for x
      using assms(3,4) that by metis
    ultimately show "(k = START \<or> k \<in> set (node_ids g)) \<and> k \<noteq> END
        \<and> (m = END \<or> m \<in> set (node_ids g)) \<and> m \<noteq> START"
      using t by (elim disjE conjE) (simp_all del: set_map list.set_map, auto)
  qed
  moreover have "branches_ok ?c"
    unfolding branches_ok_def reg
  proof (intro allI impI)
    fix k br assume "bt_get k (cg_branches ?c) = Some br"
    then obtain table where k: "k \<in> set (node_ids g)" "branch_table g k = Some table"
        "br = table_branch k (outgoing g k) table"
      by (auto simp: lowered_maps split: if_splits)
    have "(r, u) \<in> set table" if "bt_get r (routes br) = Some u" for r u
      using that k(3) by (auto simp: table_branch_routes dest!: map_of_SomeD)
    then have "u = END \<or> u \<in> set (node_ids g)" if "bt_get r (routes br) = Some u" for r u
      using that contributions_known(2) [OF assms(1) k(2)] by blast
    moreover have "k \<noteq> START" using k(1) assms(3) by metis
    ultimately
    show "k \<in> set (node_ids g) \<and> bt_get k (cg_edges ?c) = None
        \<and> (\<forall>r t. bt_get r (routes br) = Some t \<longrightarrow> t = END \<or> t \<in> set (node_ids g))"
      using k contributions_exclusive(1) [of g k] by (simp add: lowered_maps)
  qed
  moreover have "waiting_ok ?c"
    unfolding waiting_ok_def reg
  proof (intro allI impI)
    fix m ps assume m: "bt_get m (cg_waiting ?c) = Some ps"
    then have "set ps = {i \<in> set (node_ids g). waits_at g i = Some m}"
      using lowered_maps(4) [of m h gid g t] by (simp add: waiting_at_def)
    moreover have "ps \<noteq> []"
      using m built_wf [OF built_lowered [of h gid g t]] by (auto simp: builder_wf_def waiting_wf_def)
    ultimately show "m \<in> set (node_ids g) \<and> (\<forall>p \<in> set ps. p \<in> set (node_ids g))"
      using contributions_known(3) [OF assms(1)] by (cases ps) auto
  qed
  moreover have "commands_ok ?c"
    using contributions_exclusive(2) assms(3) unfolding commands_ok_def reg
    by (auto simp: lowered_maps)
  moreover have "node_id t \<noteq> START" "node_id t \<noteq> END" using t assms(3,4) by metis+
  ultimately show ?thesis using t assms(3) by (auto simp: graph_ok_def lowered_maps)
qed

lemma lowered_compiles:
  assumes "edges_known g" "t \<in> set (nodes g)" "START \<notin> set (node_ids g)" "END \<notin> set (node_ids g)"
  shows "compile (lowered_builder h gid g t)
    = Inr (from_parts (lowered_builder h gid g t) (node_id t) merge_reducer_apply)"
  using compile_Inr [OF built_wf [OF built_lowered [of h gid g t]]] lowered_graph_ok [OF assms]
    lowered_maps(1) [of START h gid g t] lowered_maps(6) [of h gid g t] assms(3) by auto

section \<open>Every edge can be driven\<close>

definition dests_at :: "string \<Rightarrow> ('s, 'u) graph_builder \<Rightarrow> string list" where
  "dests_at k b = (case bt_get k (gb_node_meta b) of Some m \<Rightarrow> command_destinations m | None \<Rightarrow> [])"

lemma dests_at_meta:
  "dests_at k (edit_meta i f b) = (if k = i
     then command_destinations (f (case bt_get i (gb_node_meta b) of Some m \<Rightarrow> m | None \<Rightarrow> default_meta))
     else dests_at k b)"
  "dests_at k (mark_command_routing i b) = dests_at k b"
  by (simp_all add: dests_at_def edit_meta_def mark_command_routing_def)

lemma default_meta_dests [simp]: "command_destinations default_meta = []"
  by (simp add: default_meta_def)

lemma dests_at_command:
  "dests_at k (with_command_destinations i ts b) = (if k = i then ts else dests_at k b)"
  "dests_at k (with_unconditional_fanout i ts b) = (if k = i then ts else dests_at k b)"
  "dests_at k (mark_interrupt i b) = dests_at k b"
  by (auto simp: with_command_destinations_def with_unconditional_fanout_def mark_interrupt_def
      dests_at_meta) (auto simp: dests_at_def edit_meta_def mark_command_routing_def split: option.split)

lemma dests_at_wire_node:
  "dests_at k (wire_node g n b) =
    (case command_table g k of
       Some ts \<Rightarrow> if k = node_id n then ts else dests_at k b
     | None \<Rightarrow> dests_at k b)"
proof -
  have "dests_at k (wire_routes g i b) =
      (if k = i \<and> command_table g k \<noteq> None then the (command_table g k) else dests_at k b)" for i b
  proof (cases rule: outgoing_cases [of g i])
    case (command ts)
    show ?thesis using command(3) [where b = b]
    proof
      assume "wire_routes g i b = with_unconditional_fanout i ts b"
      then show ?thesis using command(1) by (simp add: dests_at_command)
    next
      assume "wire_routes g i b = with_command_destinations i ts b"
      then show ?thesis using command(1) by (simp add: dests_at_command)
    qed
  qed (auto simp: wire_routes_def wire_plain_def command_table_def dests_at_def add_edge_def
      add_waiting_edge_def add_conditional_edges_def split: list.split)
  then show ?thesis by (auto simp: wire_node_def dests_at_command split: option.split)
qed

lemma dests_at_lowered:
  assumes "k \<in> set (node_ids g)" "command_table g k = Some ts"
  shows "dests_at k (lowered_builder h gid g t) = ts"
proof -
  have "dests_at k (fold (wire_node g) ns b) = ts" if "k \<in> node_id ` set ns" for ns b
    using that
  proof (induction ns rule: rev_induct)
    case (snoc n ns)
    then show ?case by (auto simp: dests_at_wire_node assms(2))
  qed simp
  moreover obtain rs b where "lowered_builder h gid g t = (fold (wire_node g) (nodes g) b)\<lparr>gb_barrier_reliefs := rs\<rparr>"
    using wire_reliefs_only unfolding lowered_builder_def wire_graph_def by blast
  ultimately show ?thesis using assms(1) by (simp add: dests_at_def)
qed

text \<open>The runtime can take an edge of the workflow: statically, by the label its port is, or by a
  command of its source.\<close>

definition drives :: "(json, json) compiled_graph \<Rightarrow> edge \<Rightarrow> bool" where
  "drives c e \<longleftrightarrow>
    bt_get (from_node e) (cg_edges c) = Some (to_node e)
    \<or> (\<exists>br. bt_get (from_node e) (cg_branches c) = Some br \<and> bt_get (from_port e) (routes br) = Some (to_node e))
    \<or> (from_node e \<in> set (cg_command_nodes c)
       \<and> (\<exists>m. bt_get (from_node e) (cg_node_meta c) = Some m \<and> to_node e \<in> set (command_destinations m)))"

lemma lowered_drives:
  assumes "e \<in> set (edges g)" "from_node e \<in> set (node_ids g)" "from_port e \<noteq> END"
  shows "drives (from_parts (lowered_builder h gid g t) k r) e"
proof -
  let ?i = "from_node e"
  have out: "e \<in> set (outgoing g ?i)" using assms(1) by simp
  then have some: "outgoing g ?i \<noteq> []" by (metis empty_iff empty_set)
  show ?thesis
  proof (cases "command_table g ?i")
    case (Some ts)
    then have "to_node e \<in> set (dests_at ?i (lowered_builder h gid g t))"
      using out command_targets [of g ?i] dests_at_lowered [OF assms(2) Some]
      by (auto simp: command_table_def split: if_splits handler_routing_kind.splits)
    then have "\<exists>m. bt_get ?i (gb_node_meta (lowered_builder h gid g t)) = Some m
        \<and> to_node e \<in> set (command_destinations m)"
      by (cases "bt_get ?i (gb_node_meta (lowered_builder h gid g t))") (simp_all add: dests_at_def)
    with Some assms(2) show ?thesis by (auto simp: drives_def lowered_maps)
  next
    case None
    then have plain: "handler_routing g ?i = Plain"
      using some by (auto simp: command_table_def split: if_splits handler_routing_kind.splits)
    show ?thesis
    proof (cases "static_target g ?i")
      case (Some m)
      then have "m = to_node e"
        using out plain some unfolding static_target_def
        by (cases "outgoing g ?i" rule: remdups_adj.cases) (simp_all only: list.set, auto split: if_splits)
      with Some assms(2) show ?thesis by (simp add: drives_def lowered_maps)
    next
      case none: None
      define table where "table = map (\<lambda>e. (from_port e, to_node e)) (outgoing g ?i)
        @ (if length (outgoing g ?i) = 1 then [(END, END)] else [])"
      have "distinct (map fst (map (\<lambda>e. (from_port e, to_node e)) (outgoing g ?i)))"
        using plain_ports_distinct [OF plain] by (simp add: comp_def)
      then have "map_of (rev (map (\<lambda>e. (from_port e, to_node e)) (outgoing g ?i))) (from_port e) = Some (to_node e)"
        using out by (intro map_of_is_SomeI) (force simp: rev_map [symmetric])+
      then have "map_of (rev table) (from_port e) = Some (to_node e)"
        using assms(3) by (simp add: table_def)
      moreover have "branch_table g ?i = Some table"
        using some none plain by (simp add: branch_table_def table_def)
      ultimately show ?thesis
        using assms(2) by (auto simp: drives_def lowered_maps table_branch_routes)
    qed
  qed
qed

text \<open>C5 (lowering_faithful): a graph that validation accepts and that uses neither sentinel name
  always lowers and compiles.  The compiled graph starts at the trigger, has a handler for every
  node, and can drive every edge of the workflow, so no branch is lost in the lowering.\<close>

theorem lowering_faithful:
  assumes "validate g = Inr ()" "START \<notin> set (node_ids g)" "END \<notin> set (node_ids g)"
    "END \<notin> from_port ` set (edges g)"
  shows "\<exists>c t. trigger g = Some t \<and> build_graph h gid g = Inr (c, node_id t) \<and> runnable c
    \<and> cg_entry c = node_id t \<and> list_all (registered c) (node_ids g) \<and> list_all (drives c) (edges g)"
proof -
  obtain t where t: "trigger g = Some t" using accepted_trigger [OF assms(1)] by blast
  note known = accepted_edges_known [OF assms(1)]
  let ?c = "from_parts (lowered_builder h gid g t) (node_id t) merge_reducer_apply"
  have ok: "compile (lowered_builder h gid g t) = Inr ?c"
    using known trigger_SomeD [OF t] assms(2,3) by (intro lowered_compiles) auto
  define c where "c = (case visit_policy t of
      Some p \<Rightarrow> with_recursion_policy p (with_checkpointer ?c) | None \<Rightarrow> with_checkpointer ?c)"
  have sel: "cg_entry c = node_id t" "registered c k \<longleftrightarrow> registered ?c k" "drives c e \<longleftrightarrow> drives ?c e" for k e
    by (simp_all add: c_def config_defs drives_def registered_def split: option.split)
  have "runnable c"
    unfolding c_def using ok built_lowered [of h gid g t]
    by (auto split: option.split intro: runnable.intros)
  moreover have "drives c e" if "e \<in> set (edges g)" for e
    unfolding sel
  proof (rule lowered_drives [OF that])
    show "from_node e \<in> set (node_ids g)"
      using known that by (auto simp: edges_known_def graph_node_None_iff)
    show "from_port e \<noteq> END" using that assms(4) by (metis image_eqI)
  qed
  moreover have "registered c k" if "k \<in> set (node_ids g)" for k
    using that lowered_maps(5) [of k h gid g t] by (auto simp: sel)
  moreover have "build_graph h gid g = Inr (c, node_id t)"
    by (simp add: build_graph_def t ok c_def Let_def)
  ultimately show ?thesis using t sel(1) unfolding list_all_iff by blast
qed

theorem lowering_faithful_witness:
  "\<exists>c t. trigger sample_graph = Some t
    \<and> build_graph flaky_host ''wf'' sample_graph = Inr (c, node_id t) \<and> runnable c
    \<and> cg_entry c = node_id t \<and> list_all (registered c) (node_ids sample_graph)
    \<and> list_all (drives c) (edges sample_graph)"
  by (rule lowering_faithful [OF sample_accepted]) (simp_all add: sample_graph_def mk_simps)

section \<open>Barriers and run limits\<close>

lemma build_graph_InrD:
  assumes "build_graph h gid g = Inr (c, i)" "trigger g = Some t"
  shows "i = node_id t"
    "cg_waiting c = gb_waiting (lowered_builder h gid g t)"
    "cg_recursion_limit c = gb_recursion_limit (base_builder gid g t)"
    "cg_recursion_policy c = (case visit_policy t of Some p \<Rightarrow> p | None \<Rightarrow> default_policy)"
proof -
  obtain c0 where "compile (lowered_builder h gid g t) = Inr c0" and c: "i = node_id t"
    "c = (case visit_policy t of
      Some p \<Rightarrow> with_recursion_policy p (with_checkpointer c0) | None \<Rightarrow> with_checkpointer c0)"
    using assms by (auto simp: build_graph_def Let_def split: sum.splits)
  then obtain e r where c0: "c0 = from_parts (lowered_builder h gid g t) e r"
    using compile_Inr [OF built_wf [OF built_lowered [of h gid g t]]] by auto
  show "i = node_id t" by (rule c(1))
  show "cg_waiting c = gb_waiting (lowered_builder h gid g t)"
    "cg_recursion_limit c = gb_recursion_limit (base_builder gid g t)"
    "cg_recursion_policy c = (case visit_policy t of Some p \<Rightarrow> p | None \<Rightarrow> default_policy)"
    by (simp_all add: c(2) c0 config_defs from_parts_def lowered_maps split: option.split)
qed

definition barrier_waits :: "(json, json) compiled_graph \<Rightarrow> (string \<times> string) set" where
  "barrier_waits c = {(p, m). \<exists>ps. bt_get m (cg_waiting c) = Some ps \<and> p \<in> set ps}"

lemma waits_at_forward:
  "waits_at g p = Some m \<Longrightarrow> (p, m) \<in> set (edge_pairs g) - set (back_edges g)"
proof -
  assume w: "waits_at g p = Some m"
  then obtain e where e: "outgoing g p = [e]" "m = to_node e" "\<not> is_back_edge g e"
    by (auto simp: waits_at_def is_fan_in_def split: list.splits if_splits)
  then have "e \<in> set (outgoing g p)" by (simp only: list.set insertI1)
  then show ?thesis using e(2,3) by (auto simp: is_back_edge_def edge_pairs_def)
qed

text \<open>C14 (barriers_never_circular): in a lowered workflow a barrier waits only for forward
  predecessors, so the barriers never wait for one another in a circle, whatever loops the workflow
  has.\<close>

theorem barriers_never_circular:
  assumes "validate g = Inr ()" "build_graph h gid g = Inr (c, i)"
  shows "barrier_waits c \<subseteq> set (edge_pairs g) - set (back_edges g) \<and> acyclic (barrier_waits c)"
proof -
  obtain t where t: "trigger g = Some t" using accepted_trigger [OF assms(1)] by blast
  have "waits_at g p = Some m" if "(p, m) \<in> barrier_waits c" for p m
    using that lowered_maps(4) [of m h gid g t] build_graph_InrD(2) [OF assms(2) t]
    by (auto simp: barrier_waits_def waiting_at_def)
  then have sub: "barrier_waits c \<subseteq> set (edge_pairs g) - set (back_edges g)"
    by (intro subrelI waits_at_forward)
  with forward_edges_acyclic [OF accepted_edges_known [OF assms(1)]] show ?thesis
    by (auto intro: acyclic_subset)
qed

text \<open>The super-step budget a workflow declares, as the lowering and the recursion policy of the
  compiled graph leave it.\<close>

definition run_budget :: "workflow_graph \<Rightarrow> node \<Rightarrow> nat" where
  "run_budget g t =
    (case positive_knob t ''recursion_limit'' of
       Some l \<Rightarrow> if positive_knob t ''max_node_visits'' = None then min (unat l) 1000 else unat l
     | None \<Rightarrow> min (if 0 < loop_budget g then unat (derived_limit g) else 50) 1000)"

lemma build_step_limit:
  assumes "build_graph h gid g = Inr (c, i)" "trigger g = Some t"
  shows "step_limit c = run_budget g t"
  unfolding step_limit_def build_graph_InrD(3,4) [OF assms] run_budget_def
  by (auto simp: visit_policy_def default_policy_def base_builder_def apply_recursion_limit_def
      with_recursion_limit_def with_max_concurrency_def set_reducer_def with_parallel_def
      builder_new_def split: option.split)

text \<open>The super-step budget of a lowered workflow.  A declared
  \<open>recursion_limit\<close> is honoured in full only beside a \<open>max_node_visits\<close>; without one the
  default policy of the compiled graph caps it at 1000.  Without a declared limit the budget comes
  from the declared loops, or is the runtime's 50, under the same cap.\<close>

theorem run_budget_exact:
  assumes "build_graph h gid g = Inr (c, i)" "trigger g = Some t"
  shows "step_limit c =
    (case positive_knob t ''recursion_limit'' of
       Some l \<Rightarrow> if positive_knob t ''max_node_visits'' = None then min (unat l) 1000 else unat l
     | None \<Rightarrow> min (if 0 < loop_budget g then unat (derived_limit g) else 50) 1000)"
  unfolding build_step_limit [OF assms] run_budget_def ..

lemma build_graph_Inr:
  assumes "edges_known g" "trigger g = Some t" "START \<notin> set (node_ids g)" "END \<notin> set (node_ids g)"
  shows "\<exists>c. build_graph h gid g = Inr (c, node_id t)"
  using lowered_compiles [OF assms(1) _ assms(3,4)] trigger_SomeD [OF assms(2)] assms(2)
  by (simp add: build_graph_def Let_def)

definition join_graph :: workflow_graph where
  "join_graph = mk_graph
    [mk_node ''t'' Trigger [(''recursion_limit'', JNumber (PosInt 5000))], mk_node ''a'' Transform [],
     mk_node ''b'' Transform [], mk_node ''m'' Merge []]
    [mk_edge ''t'' ''main'' ''a'', mk_edge ''t'' ''main'' ''b'', mk_edge ''a'' ''main'' ''m'',
     mk_edge ''b'' ''main'' ''m'']"

lemma join_accepted: "validate join_graph = Inr ()"
  by code_simp

lemma join_trigger: "trigger join_graph = Some (nodes join_graph ! 0)"
  by code_simp

lemmas knob_simps = positive_knob_def cfg_u64_def cfg_def mk_simps jobj_def bt_from_list_def

lemma join_limit: "positive_knob (nodes join_graph ! 0) ''recursion_limit'' = Some 5000"
  by (simp add: join_graph_def knob_simps)

lemma join_visits: "positive_knob (nodes join_graph ! 0) ''max_node_visits'' = None"
  by (simp add: join_graph_def knob_simps)

lemma join_builds: "\<exists>c. build_graph flaky_host ''wf'' join_graph = Inr (c, ''t'')"
  using build_graph_Inr [OF accepted_edges_known [OF join_accepted] join_trigger, of flaky_host "''wf''"]
  by (simp add: join_graph_def mk_simps)

theorem barriers_never_circular_witness:
  "\<exists>c. build_graph flaky_host ''wf'' join_graph = Inr (c, ''t'') \<and> acyclic (barrier_waits c)"
  using join_builds barriers_never_circular [OF join_accepted] by blast

theorem run_budget_exact_witness:
  "\<exists>c. build_graph flaky_host ''wf'' join_graph = Inr (c, ''t'') \<and> step_limit c = 1000"
proof -
  obtain c where c: "build_graph flaky_host ''wf'' join_graph = Inr (c, ''t'')"
    using join_builds by blast
  then show ?thesis using run_budget_exact [OF c join_trigger] by (simp add: join_limit join_visits)
qed

text \<open>Validation reserves no node id.  A node named like the runtime's entry sentinel overwrites
  the entry edge when it is wired.\<close>

definition hijack_graph :: workflow_graph where
  "hijack_graph = mk_graph
    [mk_node ''t'' Trigger [], mk_node ''c'' Condition [(''field'', JString ''ready'')],
     mk_node ''__start__'' Transform [], mk_node ''x'' Transform []]
    [mk_edge ''t'' ''main'' ''c'', mk_edge ''c'' ''true'' ''__start__'', mk_edge ''c'' ''false'' ''x'',
     mk_edge ''__start__'' ''main'' ''x'']"


text \<open>The loop budget is summed in 64 bits without a check.\<close>

definition wrap_graph :: workflow_graph where
  "wrap_graph = mk_graph
    [mk_node ''t'' Trigger [], mk_node ''k'' Loop [(''max_iterations'', JNumber (PosInt 9223372036854775807))],
     mk_node ''l'' Loop [(''max_iterations'', JNumber (PosInt 9223372036854775807))]] []"

text \<open>Two loops that may each run 2^63 - 1 times have the loop budget
  zero, so the run falls back to the budget of a workflow without loops.\<close>

theorem loop_budget_wraps: "loop_budget wrap_graph = 0"
  by (simp add: wrap_graph_def loop_budget_def sat_add_def knob_simps)

end
