(* ===== verification/Tf_Engine.thy ===== *)
theory Tf_Engine
  imports Tf_Lower Tf_Resume
begin

text \<open>
  Starting and resuming a run: \<open>build_and_run\<close>, \<open>resume\<close> and \<open>merge_approvals\<close> of
  \<open>engine/run_state.rs\<close>, with the run input and outcome of \<open>engine.rs\<close>, and the parts of
  \<open>nodes/integration/agent_request.rs\<close> that read the seeded run state or narrow an agent's tools.
  What the error slot shared by the handlers holds when a run has failed, and whether the
  cancellation token is set at the end, are arguments.
\<close>

section \<open>Runs\<close>

record run_input =
  ri_trigger :: json
  ri_inputs :: jmap
  ri_approvals :: "string list"
  ri_run_id :: "string option"

record run_outcome =
  ro_output :: json
  ro_pending_approvals :: "string list"
  ro_cancelled :: bool

definition default_thread_id :: "workflow_graph \<Rightarrow> engine_error + string" where
  "default_thread_id g =
    (case trigger g of Some t \<Rightarrow> Inr (node_id t) | None \<Rightarrow> Inl (EValidation MissingTrigger))"

definition run_key :: "string \<Rightarrow> json \<Rightarrow> json" where
  "run_key k v = jobj [(''run'', jobj [(k, v)])]"

definition workspace_of :: "node \<Rightarrow> string option" where
  "workspace_of t =
    (case cfg_str t ''workspace'' of
       Some w \<Rightarrow> if trim w = [] then None else Some (trim w) | None \<Rightarrow> None)"

definition merge_opt :: "json \<Rightarrow> json option \<Rightarrow> json" where
  "merge_opt s u = (case u of Some v \<Rightarrow> merge s v | None \<Rightarrow> s)"

definition run_seed ::
  "workflow_graph \<Rightarrow> run_input \<Rightarrow> jmap \<Rightarrow> string \<Rightarrow> json option \<Rightarrow> json" where
  "run_seed g inp resolved trigger_id overlay =
    (let s0 = jobj [(''run'', jobj [(''trigger'', ri_trigger inp), (''inputs'', JObject resolved),
                (''approvals'', JArray (map JString (ri_approvals inp)))])];
         s1 = merge_opt s0 (map_option (\<lambda>i. run_key ''id'' (JString i)) (ri_run_id inp));
         s2 = merge s1 (items_update trigger_id [item_new (ri_trigger inp)] None);
         depth = Option.bind (trigger g) (\<lambda>t. positive_knob t ''max_sub_workflow_depth'');
         s3 = merge_opt s2 (map_option (\<lambda>n. run_key ''max_sub_workflow_depth'' (JNumber (PosInt n))) depth);
         s4 = merge_opt s3 (map_option (\<lambda>w. run_key ''workspace'' (JString w))
                (Option.bind (trigger g) workspace_of))
     in merge_opt s4 (map_option (\<lambda>ov. jobj [(''run'', ov)]) overlay))"

definition build_and_run ::
  "('st, json) checkpointer \<Rightarrow> host \<Rightarrow> string \<Rightarrow> runtime \<Rightarrow> workflow_graph \<Rightarrow> run_input \<Rightarrow> string \<Rightarrow>
    json option \<Rightarrow> engine_error option \<Rightarrow> bool \<Rightarrow> 'st world \<Rightarrow> (engine_error + run_outcome) \<times> 'st world" where
  "build_and_run cp h gid rt g inp thread overlay terminal cancelled w =
    (case resolve_inputs (inputs g) (ri_inputs inp) of
       Inl e \<Rightarrow> (Inl (EInput e), w)
     | Inr resolved \<Rightarrow>
        (case build_graph h gid g of
           Inl e \<Rightarrow> (Inl e, w)
         | Inr (c, trigger_id) \<Rightarrow>
            (case run_with_thread cp c rt thread (run_seed g inp resolved trigger_id overlay) w of
               (Inl e, w') \<Rightarrow>
                 (Inl (case terminal of
                     Some x \<Rightarrow> x | None \<Rightarrow> ECapability (Message (error_to_string e))), w')
             | (Inr ex, w') \<Rightarrow>
                 (Inr \<lparr>ro_output = ge_state ex, ro_pending_approvals = map interrupt_id (ge_interrupts ex),
                       ro_cancelled = cancelled\<rparr>, w'))))"

section \<open>Resuming by re-execution\<close>

definition trigger_approvals :: "json \<Rightarrow> string list" where
  "trigger_approvals t =
    (case Option.bind (jget ''approvals'' t) as_array of
       Some vs \<Rightarrow> List.map_filter as_str vs | None \<Rightarrow> [])"

definition merge_approvals :: "run_input \<Rightarrow> string list \<Rightarrow> run_input" where
  "merge_approvals inp newly =
    (let explicit = fold hs_insert (newly @ ri_approvals inp) [];
         union = fold hs_insert explicit (trigger_approvals (ri_trigger inp));
         listing = JArray (map JString union)
     in inp\<lparr>ri_trigger := (case ri_trigger inp of
              JObject m \<Rightarrow> JObject (bt_insert ''approvals'' listing m)
            | _ \<Rightarrow> jobj [(''approvals'', listing)]),
            ri_approvals := explicit\<rparr>)"

definition resume_run ::
  "('st, json) checkpointer \<Rightarrow> host \<Rightarrow> string \<Rightarrow> runtime \<Rightarrow> workflow_graph \<Rightarrow> run_input \<Rightarrow> string list \<Rightarrow>
    engine_error option \<Rightarrow> bool \<Rightarrow> 'st world \<Rightarrow> (engine_error + run_outcome) \<times> 'st world" where
  "resume_run cp h gid rt g inp newly terminal cancelled w =
    (case default_thread_id g of
       Inl e \<Rightarrow> (Inl e, w)
     | Inr thread \<Rightarrow>
        build_and_run cp h gid rt g (merge_approvals inp newly) thread None terminal cancelled w)"

section \<open>What an agent request reads\<close>

definition identity_run_id :: "json \<Rightarrow> string option" where
  "identity_run_id meta = Option.bind (jget ''run_id'' meta) as_str"

definition narrow_tools :: "tool_grant list \<Rightarrow> tool_grant list \<Rightarrow> tool_grant list" where
  "narrow_tools granted requested =
    filter (\<lambda>g. list_ex (\<lambda>w. covers w (slug g) \<or> covers g (slug w)) requested) granted"

definition merge_tools :: "tool_grant list \<Rightarrow> tool_grant list \<Rightarrow> tool_grant list" where
  "merge_tools granted requested =
    (if requested = [] then granted
     else if granted = [] then requested
     else narrow_tools granted requested)"

section \<open>The seeded run state\<close>

definition run_of :: "json \<Rightarrow> json" where
  "run_of s = or_null (jget ''run'' s)"

lemma run_of_merge_key [simp]:
  "jget k (run_of (merge s (run_key k' v))) =
    (if k' = REPLACE then jget k v
     else if k = k' then Some (merge (or_null (jget k (run_of s))) v) else jget k (run_of s))"
proof -
  have "''run'' \<noteq> REPLACE" by (simp add: REPLACE_def)
  then show ?thesis
    by (simp add: run_of_def run_key_def merge_single merge_sentinel jget_obj_of)
qed

lemma run_of_items_update [simp]: "run_of (merge s (items_update i its p)) = run_of s"
  by (simp add: run_of_def items_update_def items_update_with_meta_def node_update_def merge_single jget_obj_of)

lemma run_of_merge_opt:
  "(\<And>u. v = Some u \<Longrightarrow> jget k (run_of (merge s u)) = jget k (run_of s)) \<Longrightarrow>
    jget k (run_of (merge_opt s v)) = jget k (run_of s)"
  by (simp add: merge_opt_def split: option.split)

lemma run_seed_keys:
  "jget ''trigger'' (run_of (run_seed g inp resolved i None)) = Some (ri_trigger inp)"
  "jget ''approvals'' (run_of (run_seed g inp resolved i None)) = Some (JArray (map JString (ri_approvals inp)))"
  "jget ''id'' (run_of (run_seed g inp resolved i None)) = map_option JString (ri_run_id inp)"
  "jget ''run_id'' (run_of (run_seed g inp resolved i None)) = None"
  by (simp_all add: run_seed_def Let_def merge_opt_def REPLACE_def split: option.split)
     (simp_all add: run_of_def jobj_def bt_from_list_def)

text \<open>Whatever the trigger payload contains, the seeded run state holds
  the payload unchanged under \<open>run.trigger\<close>, and its \<open>run.id\<close> and \<open>run.approvals\<close> are exactly what the
  host supplied: a payload can neither name a run nor approve a gate through those keys.\<close>

theorem run_id_is_host_chosen:
  "jget ''trigger'' (run_of (run_seed g inp resolved i None)) = Some (ri_trigger inp)
    \<and> jget ''id'' (run_of (run_seed g inp resolved i None)) = map_option JString (ri_run_id inp)
    \<and> jget ''approvals'' (run_of (run_seed g inp resolved i None))
      = Some (JArray (map JString (ri_approvals inp)))"
  by (simp add: run_seed_keys)

text \<open>The run identity handed to an agent harness never carries the
  run's id: the engine seeds it as \<open>run.id\<close> and the identity reads \<open>run.run_id\<close>.\<close>

theorem agent_identity_lacks_run_id:
  "identity_run_id (run_of (run_seed g inp resolved i None)) = None"
  by (simp add: identity_run_id_def run_seed_keys)

text \<open>C24 (resume_provenance): a resume adds exactly the newly approved gates to the host's own
  approvals, never one that only the trigger payload names, keeps the run's id and inputs, and every
  gate the host has approved counts as approved in the resumed run's state.\<close>

theorem resume_provenance:
  "set (ri_approvals (merge_approvals inp newly)) = set newly \<union> set (ri_approvals inp)
    \<and> ri_run_id (merge_approvals inp newly) = ri_run_id inp
    \<and> ri_inputs (merge_approvals inp newly) = ri_inputs inp
    \<and> list_all (\<lambda>gate. approved_in_state gate
        (run_seed g (merge_approvals inp newly) resolved i None)) (newly @ ri_approvals inp)"
proof -
  have listed: "approved_in_state gate s" if "listed gate (jget ''approvals'' (run_of s))" for gate s
    using that by (cases "jget ''run'' s") (auto simp: approved_in_state_def run_of_def listed_def)
  have "listed gate (jget ''approvals'' (run_of (run_seed g (merge_approvals inp newly) resolved i None)))"
    if "gate \<in> set newly \<union> set (ri_approvals inp)" for gate
    using that by (auto simp: run_seed_keys listed_def merge_approvals_def Let_def set_fold_hs_insert)
  then show ?thesis
    by (auto simp: list_all_iff merge_approvals_def Let_def set_fold_hs_insert intro!: listed)
qed



text \<open>Narrowing keeps only grants of the definition, with the definition's credentials.  It keeps a
  whole pattern where the node named one tool of it.\<close>

lemma narrow_tools_granted: "set (narrow_tools granted requested) \<subseteq> set granted"
  by (auto simp: narrow_tools_def)

definition grant :: "string \<Rightarrow> tool_grant" where
  "grant s = \<lparr>slug = s, connection_ref = None\<rparr>"

text \<open>An agent node that asks for one tool of a granted pattern keeps the
  whole pattern, so tools it did not ask for stay available.\<close>

theorem narrowing_keeps_pattern:
  "merge_tools [grant ''github.*''] [grant ''github.search''] = [grant ''github.*'']
    \<and> covers (grant ''github.*'') ''github.delete'' \<and> \<not> covers (grant ''github.search'') ''github.delete''"
  by code_simp

end
