(* ===== verification/Tf_Continue.thy ===== *)
theory Tf_Continue
  imports Tf_Engine
begin

text \<open>
  Continuing a checkpointed run: \<open>engine/resumable.rs\<close> and \<open>engine/resumable/continuation.rs\<close>.  A
  thread is continued with the decisions on its approval gates, or after a failure with none; the
  failure boundary says where a failed run stopped.  As in \<open>Tf_Engine\<close>, what the error slot of the
  handlers holds and whether the token is set are arguments.
\<close>

section \<open>Continuations\<close>

datatype continuation =
    Approvals "string list" "string list"
  | Retry

abbreviation strings :: "string list \<Rightarrow> json" where
  "strings ids \<equiv> JArray (map JString ids)"

abbreviation approvals_update :: "string list \<Rightarrow> json" where
  "approvals_update ids \<equiv> run_key ''trigger'' (jobj [(''approvals'', strings ids)])"

fun continuation_command :: "continuation \<Rightarrow> json command" where
  "continuation_command (Approvals approved rejected) =
    with_update (approvals_update approved)
      (command_resume (jobj [(''approved'', strings approved), (''rejected'', strings rejected)]))"
| "continuation_command Retry = command_new"

abbreviation outcome_of :: "bool \<Rightarrow> json graph_execution \<Rightarrow> run_outcome" where
  "outcome_of cancelled ex \<equiv> \<lparr>ro_output = ge_state ex,
     ro_pending_approvals = map interrupt_id (ge_interrupts ex), ro_cancelled = cancelled\<rparr>"

definition resume_with_checkpointer_inner ::
  "('st, json) checkpointer \<Rightarrow> host \<Rightarrow> string \<Rightarrow> runtime \<Rightarrow> workflow_graph \<Rightarrow> string \<Rightarrow> continuation \<Rightarrow>
    engine_error option \<Rightarrow> bool \<Rightarrow> 'st world \<Rightarrow> (engine_error + run_outcome) \<times> 'st world" where
  "resume_with_checkpointer_inner cp h gid rt g thread k terminal cancelled w =
    (case default_thread_id g of
       Inl e \<Rightarrow> (Inl e, w)
     | Inr _ \<Rightarrow>
        (case build_graph h gid g of
           Inl e \<Rightarrow> (Inl e, w)
         | Inr (c, _) \<Rightarrow>
            (case resume cp c rt thread (continuation_command k) w of
               (Inl e, w') \<Rightarrow>
                 (Inl (case terminal of
                     Some x \<Rightarrow> x | None \<Rightarrow> ECapability (Message (error_to_string e))), w')
             | (Inr ex, w') \<Rightarrow> (Inr (outcome_of cancelled ex), w'))))"

text \<open>A live run keeps its graph and is resumed on it, with approvals only.\<close>

abbreviation live_command :: "string list \<Rightarrow> json command" where
  "live_command approved \<equiv>
    with_update (approvals_update approved) (command_resume (jobj [(''approved'', strings approved)]))"

definition live_resume ::
  "('st, json) checkpointer \<Rightarrow> (json, json) compiled_graph \<Rightarrow> runtime \<Rightarrow> string \<Rightarrow> string list \<Rightarrow>
    'st world \<Rightarrow> (engine_error + run_outcome) \<times> 'st world" where
  "live_resume cp c rt thread approved w =
    (case resume cp c rt thread (live_command approved) w of
       (Inl e, w') \<Rightarrow> (Inl (ECapability (Message (error_to_string e))), w')
     | (Inr ex, w') \<Rightarrow> (Inr (outcome_of False ex), w'))"

section \<open>Failure boundaries\<close>

record failure_boundary =
  fb_failed_node :: string
  fb_error :: string
  fb_checkpoint_id :: string
  fb_step :: nat
  fb_pending :: "string list"

definition boundary_in :: "json checkpoint \<Rightarrow> failure_boundary option" where
  "boundary_in ck =
    map_option (\<lambda>failed. \<lparr>fb_failed_node = failed,
        fb_error = (case Option.bind (jget ''error'' (ck_metadata ck)) as_str of Some e \<Rightarrow> e | None \<Rightarrow> []),
        fb_checkpoint_id = ck_id ck,
        fb_step = (case Option.bind (jget ''step'' (ck_metadata ck)) as_u64 of Some n \<Rightarrow> unat n | None \<Rightarrow> 0),
        fb_pending = ck_next_nodes ck\<rparr>)
      (Option.bind (jget ''failed_node'' (ck_metadata ck)) as_str)"

definition read_failure_boundary ::
  "('st, json) checkpointer \<Rightarrow> 'st \<Rightarrow> string \<Rightarrow> engine_error + failure_boundary option" where
  "read_failure_boundary cp st thread =
    (case cp_get cp st thread None of
       Inl e \<Rightarrow> Inl (ECapability (Message (error_to_string e)))
     | Inr ck \<Rightarrow> Inr (Option.bind ck boundary_in))"

section \<open>What a continuation decides\<close>

lemma listed_strings [simp]: "listed i (Some (strings ids)) \<longleftrightarrow> i \<in> set ids"
  by (auto simp: listed_def)

lemma continuation_resume [simp]:
  "approved_by_resume i (cmd_resume (continuation_command (Approvals a r))) \<longleftrightarrow> i \<in> set a"
  "denied_by_resume i (cmd_resume (continuation_command (Approvals a r))) \<longleftrightarrow> i \<in> set r"
  "\<not> approved_by_resume i (cmd_resume (continuation_command Retry))"
  "\<not> denied_by_resume i (cmd_resume (continuation_command Retry))"
  by (simp_all add: approved_by_resume_def denied_by_resume_def with_update_def command_resume_def
      command_new_def jobj_def bt_from_list_def) (simp_all add: listed_def)

lemma emit_no_interrupt [simp]: "emit d lane step upd port its \<noteq> NInterrupt it"
  by (simp add: emit_def Let_def split: option.split handler_routing_kind.split)



text \<open>The two ways to resume with approvals only decide every gate alike.\<close>

lemma live_resume_agrees:
  "approved_by_resume i (cmd_resume (live_command a)) = approved_by_resume i (cmd_resume (continuation_command (Approvals a [])))"
  "denied_by_resume i (cmd_resume (live_command a)) = denied_by_resume i (cmd_resume (continuation_command (Approvals a [])))"
  unfolding continuation_resume
  by (simp_all add: approved_by_resume_def denied_by_resume_def with_update_def command_resume_def
      command_new_def jobj_def bt_from_list_def) (simp add: listed_def)

section \<open>What a failure leaves behind\<close>

lemma mem_get_latest: "mem_records st th = cks @ [ck] \<Longrightarrow> cp_get in_memory st th None = Inr (Some ck)"
  by (auto simp: in_memory_def mem_get_def mem_records_def last_opt_def split: option.splits)

lemma ledger_latest:
  "ck_thread_id ck = th \<Longrightarrow>
    cp_get in_memory (w_store (snd (put_with_ledger in_memory ck w))) th None = Inr (Some ck)"
  using ledger_mem [of ck w] by (auto simp: appended_def intro!: mem_get_latest)

lemma failure_latest:
  assumes "cg_checkpointer c"
  shows "\<exists>ck. cp_get in_memory (w_store (snd (persist_failure_checkpoint in_memory c rt (Some th) b n e w))) th None
      = Inr (Some ck)
    \<and> ck_state ck = bd_state b \<and> ck_next_nodes ck = activation_nodes (bd_pending b)
    \<and> ck_metadata ck = jobj (loop_metadata b @ [(''failed_node'', JString n), (''error'', JString (error_to_string e))])"
proof -
  obtain i w1 where i: "new_checkpoint_id rt w = (i, w1)" by fastforce
  show ?thesis
    unfolding persist_failure_checkpoint_def Let_def i option.case prod.case if_P [OF assms]
    by (rule exI, intro conjI, rule ledger_latest) simp_all
qed

lemma boundary_in_failure:
  assumes "ck_metadata ck = jobj (loop_metadata b @ [(''failed_node'', JString n), (''error'', JString e)])"
    "bd_step b < 2 ^ 64"
  shows "boundary_in ck = Some \<lparr>fb_failed_node = n, fb_error = e, fb_checkpoint_id = ck_id ck,
    fb_step = bd_step b, fb_pending = ck_next_nodes ck\<rparr>"
proof -
  have "unat (of_nat (bd_step b) :: 64 word) = bd_step b"
    using assms(2) by (simp add: unat_of_nat take_bit_eq_mod)
  then show ?thesis
    by (simp add: boundary_in_def assms(1) loop_metadata_def jobj_def bt_from_list_def jnat_def)
qed


text \<open>Two branches of a step, the first completed and the second failed.\<close>

definition failed_rc :: run_context where
  "failed_rc = \<lparr>rc_run_id = ''r'', rc_thread = Some ''t'', rc_root = ''r'', rc_parent_run = None,
     rc_stack = stack_with_frames [] default_policy\<rparr>"

definition failed_ls :: "json loop_state" where
  "failed_ls = \<lparr>ls_state = JNull, ls_active = [plain ''a'', plain ''b''], ls_steps = 1, ls_barriers = [],
     ls_visits = Map.empty, ls_resume = Map.empty, ls_visited = [], ls_parent = None, ls_last = None,
     ls_async = no_writes\<rparr>"

definition failed_sr :: "json step_run" where
  "failed_sr = empty_step\<lparr>sr_completed := [0], sr_failure := Some (1, GraphErr ''down'')\<rparr>"


text \<open>A boundary that is not a failure, a pause included, reads as none.\<close>

lemma no_failure_boundary:
  assumes "cg_checkpointer c"
  shows "read_failure_boundary in_memory (w_store (snd (persist_checkpoint in_memory c rt (Some th) b w))) th = Inr None"
proof -
  obtain ck w1 where b: "build_loop_checkpoint c rt th b w = (ck, w1)" by fastforce
  then have "boundary_in ck = None" "ck_thread_id ck = th"
    by (auto simp: build_loop_checkpoint_def boundary_in_def loop_metadata_def jobj_def bt_from_list_def split: prod.splits)
  with b assms ledger_latest [of ck th w1] show ?thesis
    by (simp add: persist_checkpoint_def read_failure_boundary_def)
qed

end
