(* ===== verification/Tf_Dedup.thy ===== *)
theory Tf_Dedup
  imports Tf_Control
begin

text \<open>
  The commit-on-success protocol of the deduplication node: the filter that runs inside a workflow
  (\<open>nodes/control_flow/dedup.rs\<close>) and the settlement the host performs when the run has finished
  (\<open>nodes/control_flow/dedup_settle.rs\<close>).  The host's key/value store is a map; a record of fault
  functions says which calls fail, so that every failure of a store call is a branch.  One
  settlement performs each kind of call on a key at most once, so a fault function of the key
  covers every way the calls can fail.
\<close>

section \<open>The store\<close>

type_synonym kv = "string \<Rightarrow> json option"

record 'e kv_faults =
  get_fault :: "string \<Rightarrow> 'e option"
  set_fault :: "string \<Rightarrow> 'e option"
  delete_fault :: "string \<Rightarrow> 'e option"

definition no_faults :: "'e kv_faults" where
  "no_faults = \<lparr>get_fault = (\<lambda>k. None), set_fault = (\<lambda>k. None), delete_fault = (\<lambda>k. None)\<rparr>"

definition kv_get :: "'e kv_faults \<Rightarrow> kv \<Rightarrow> string \<Rightarrow> 'e + json option" where
  "kv_get f kv k = (case get_fault f k of Some e \<Rightarrow> Inl e | None \<Rightarrow> Inr (kv k))"

definition kv_set :: "'e kv_faults \<Rightarrow> kv \<Rightarrow> string \<Rightarrow> json \<Rightarrow> ('e + unit) \<times> kv" where
  "kv_set f kv k v =
    (case set_fault f k of Some e \<Rightarrow> (Inl e, kv) | None \<Rightarrow> (Inr (), kv(k := Some v)))"

definition kv_delete :: "'e kv_faults \<Rightarrow> kv \<Rightarrow> string \<Rightarrow> ('e + unit) \<times> kv" where
  "kv_delete f kv k =
    (case delete_fault f k of Some e \<Rightarrow> (Inl e, kv) | None \<Rightarrow> (Inr (), kv(k := None)))"

definition committed_key :: "string \<Rightarrow> string" where
  "committed_key i = ''dedup:'' @ i @ '':committed''"

definition tentative_key :: "string \<Rightarrow> string option \<Rightarrow> string" where
  "tentative_key i run =
    (case run of
       Some r \<Rightarrow> ''dedup:'' @ i @ '':tentative:'' @ r
     | None \<Rightarrow> ''dedup:'' @ i @ '':tentative'')"

definition carryover_key :: "string \<Rightarrow> string" where
  "carryover_key i = ''dedup:'' @ i @ '':uncommitted''"

text \<open>A key set is stored as a JSON array of strings; anything else reads as the empty set.\<close>

definition key_set :: "json option \<Rightarrow> string hset" where
  "key_set v =
    (case Option.bind v as_array of
       Some vs \<Rightarrow> fold hs_insert (List.map_filter as_str vs) []
     | None \<Rightarrow> [])"

definition load_key_set :: "'e kv_faults \<Rightarrow> kv \<Rightarrow> string \<Rightarrow> 'e + string hset" where
  "load_key_set f kv k = map_sum id key_set (kv_get f kv k)"

definition store_key_set :: "'e kv_faults \<Rightarrow> kv \<Rightarrow> string \<Rightarrow> string hset \<Rightarrow> ('e + unit) \<times> kv" where
  "store_key_set f kv k ks = kv_set f kv k (JArray (map JString (sort ks)))"

section \<open>The filter\<close>

definition run_id_of :: "exec_context \<Rightarrow> string option" where
  "run_id_of x = Option.bind (jget ''id'' (nx_run x)) as_str"

definition resolve_key :: "expr_lib \<Rightarrow> json \<Rightarrow> string option" where
  "resolve_key lib c =
    (case jget ''key'' c of
       None \<Rightarrow> None
     | Some JNull \<Rightarrow> None
     | Some (JString s) \<Rightarrow> if s = [] then None else Some s
     | Some v \<Rightarrow> Some (lib_show lib v))"

definition item_key :: "expr_lib \<Rightarrow> exec_context \<Rightarrow> item \<Rightarrow> string option" where
  "item_key lib x it =
    resolve_key lib (fst (resolve_traced lib (config (nx_node x))
      (expr_scope_for (nx_input x) (nx_run x) (nx_nodes x) (item_json it))))"

fun filter_items ::
  "(item \<Rightarrow> string option) \<Rightarrow> string hset \<Rightarrow> item list \<Rightarrow> string hset \<Rightarrow> item list \<times> string hset" where
  "filter_items key committed [] seen = ([], seen)"
| "filter_items key committed (it # its) seen =
    (case key it of
       None \<Rightarrow> (let (passed, seen') = filter_items key committed its seen in (it # passed, seen'))
     | Some k \<Rightarrow>
        if k \<in> set committed \<or> k \<in> set seen then filter_items key committed its seen
        else (let (passed, seen') = filter_items key committed its (hs_insert k seen)
              in (it # passed, seen')))"

definition execute_dedup ::
  "expr_lib \<Rightarrow> engine_error kv_faults \<Rightarrow> exec_context \<Rightarrow> kv \<Rightarrow> (engine_error + node_output) \<times> kv" where
  "execute_dedup lib f x kv =
    (let i = node_id (nx_node x); tentative = tentative_key i (run_id_of x) in
     case load_key_set f kv (committed_key i) of
       Inl e \<Rightarrow> (Inl e, kv)
     | Inr committed \<Rightarrow>
        (let (passed, seen) = filter_items (item_key lib x) committed (nx_input x) [] in
         if seen = [] then (Inr (output_main passed), kv)
         else (case load_key_set f kv tentative of
             Inl e \<Rightarrow> (Inl e, kv)
           | Inr staged \<Rightarrow>
              (case store_key_set f kv tentative (fold hs_insert seen staged) of
                 (Inl e, kv') \<Rightarrow> (Inl e, kv')
               | (Inr _, kv') \<Rightarrow> (Inr (output_main passed), kv')))))"

section \<open>Settlement\<close>

datatype commit_outcome =
    NothingTentative
  | CommitFailed string
  | Committed nat nat "string option"

datatype settlement_result =
    Commit commit_outcome
  | Release "string + unit"

definition park_for_retry ::
  "string kv_faults \<Rightarrow> kv \<Rightarrow> string \<Rightarrow> string option \<Rightarrow> string hset \<Rightarrow> string hset option \<Rightarrow> string \<Rightarrow>
    commit_outcome \<times> kv" where
  "park_for_retry f kv tkey park tentative carryover e =
    (case (park, carryover) of
       (Some key, Some carried) \<Rightarrow>
         if tentative = [] then (CommitFailed e, kv)
         else (case store_key_set f kv key (fold hs_insert tentative carried) of
             (Inr _, kv') \<Rightarrow> (CommitFailed e, snd (kv_delete f kv' tkey))
           | (Inl _, kv') \<Rightarrow> (CommitFailed e, kv'))
     | _ \<Rightarrow> (CommitFailed e, kv))"

definition error_of :: "'e + 'a \<Rightarrow> 'e option" where
  "error_of r = (case r of Inl e \<Rightarrow> Some e | Inr _ \<Rightarrow> None)"

definition commit_sets ::
  "string kv_faults \<Rightarrow> kv \<Rightarrow> string \<Rightarrow> string option \<Rightarrow> string hset \<Rightarrow> string hset option \<Rightarrow>
    commit_outcome \<times> kv" where
  "commit_sets f kv i run tentative carryover =
    (let tkey = tentative_key i run; ckey = committed_key i; okey = carryover_key i;
         carried = (case carryover of Some ks \<Rightarrow> ks | None \<Rightarrow> []);
         park = map_option (\<lambda>_. okey) run
     in if tentative = [] \<and> carried = [] then (NothingTentative, kv)
        else (case load_key_set f kv ckey of
            Inl e \<Rightarrow> park_for_retry f kv tkey park tentative carryover e
          | Inr committed \<Rightarrow>
             (let committed' = fold hs_insert (tentative @ carried) committed in
              case store_key_set f kv ckey committed' of
                (Inl e, kv') \<Rightarrow> park_for_retry f kv' tkey park tentative carryover e
              | (Inr _, kv') \<Rightarrow>
                 (let (r1, kv1) = kv_delete f kv' tkey;
                      (r2, kv2) = (if carried \<noteq> [] then kv_delete f kv1 okey else (Inr (), kv1))
                  in (Committed (length committed' - length committed) (length committed')
                        (case error_of r1 of Some e \<Rightarrow> Some e | None \<Rightarrow> error_of r2), kv2)))))"

definition commit ::
  "string kv_faults \<Rightarrow> kv \<Rightarrow> string \<Rightarrow> string option \<Rightarrow> commit_outcome \<times> kv" where
  "commit f kv i run =
    (case load_key_set f kv (tentative_key i run) of
       Inl e \<Rightarrow> (CommitFailed e, kv)
     | Inr tentative \<Rightarrow>
        commit_sets f kv i run tentative
          (case load_key_set f kv (carryover_key i) of Inr ks \<Rightarrow> Some ks | Inl _ \<Rightarrow> None))"

definition release_run :: "string kv_faults \<Rightarrow> kv \<Rightarrow> string \<Rightarrow> string option \<Rightarrow> (string + unit) \<times> kv" where
  "release_run f kv i run = kv_delete f kv (tentative_key i run)"

definition settle_run ::
  "string kv_faults \<Rightarrow> kv \<Rightarrow> string \<Rightarrow> string option \<Rightarrow> bool \<Rightarrow> settlement_result \<times> kv" where
  "settle_run f kv i run success =
    (if success then (case commit f kv i run of (r, kv') \<Rightarrow> (Commit r, kv'))
     else (case release_run f kv i run of (r, kv') \<Rightarrow> (Release r, kv')))"

definition is_success_status :: "string \<Rightarrow> bool" where
  "is_success_status s \<longleftrightarrow> s = ''completed'' \<or> s = ''completed_with_warnings''"

section \<open>Key sets\<close>

declare set_fold_hs_insert [simp]

lemma key_set_stored [simp]: "set (key_set (Some (JArray (map JString (sort ks))))) = set ks"
  by (simp add: key_set_def List.map_filter_def comp_def)

abbreviation keys_at :: "kv \<Rightarrow> string \<Rightarrow> string set" where
  "keys_at kv k \<equiv> set (key_set (kv k))"

lemma key_set_None [simp]: "key_set None = []"
  by (simp add: key_set_def)

lemma store_keys_differ [simp]:
  "tentative_key i run \<noteq> committed_key i" "committed_key i \<noteq> tentative_key i run"
  "tentative_key i run \<noteq> carryover_key i" "carryover_key i \<noteq> tentative_key i run"
  "committed_key i \<noteq> carryover_key i" "carryover_key i \<noteq> committed_key i"
  by (auto simp: tentative_key_def committed_key_def carryover_key_def split: option.split)

lemma filter_items_seen:
  "filter_items key committed its seen = (passed, seen') \<Longrightarrow>
    set seen' = set seen \<union> {k. \<exists>it \<in> set passed. key it = Some k}
    \<and> (\<forall>it \<in> set passed. \<forall>k. key it = Some k \<longrightarrow> k \<notin> set committed \<and> k \<notin> set seen)
    \<and> distinct (List.map_filter key passed)"
proof (induction key committed its seen arbitrary: passed seen' rule: filter_items.induct)
  case (2 key committed it its seen)
  show ?case
  proof (cases "key it")
    case None
    with "2.prems" "2.IH"(1) [OF None] show ?thesis
      by (fastforce simp: List.map_filter_simps split: prod.splits)
  next
    case (Some k)
    show ?thesis
    proof (cases "k \<in> set committed \<or> k \<in> set seen")
      case True
      with "2.prems" "2.IH"(2) [OF Some True] Some show ?thesis by simp
    next
      case False
      then obtain rest where p: "filter_items key committed its (hs_insert k seen) = (rest, seen')"
        "passed = it # rest"
        using "2.prems" Some by (auto split: prod.splits)
      from "2.IH"(3) [OF Some False p(1)] show ?thesis
        using Some False unfolding p(2) by (auto simp: List.map_filter_simps List.map_filter_def)
    qed
  qed
qed (simp add: List.map_filter_def)

abbreviation passed_keys :: "expr_lib \<Rightarrow> exec_context \<Rightarrow> node_output \<Rightarrow> string set" where
  "passed_keys lib x out \<equiv> {k. \<exists>it \<in> set (out_items out). item_key lib x it = Some k}"

lemma execute_dedup_Inr:
  assumes "execute_dedup lib f x kv = (Inr out, kv')"
  shows "out_items out = fst (filter_items (item_key lib x) (key_set (kv (committed_key (node_id (nx_node x))))) (nx_input x) [])"
    "passed_keys lib x out \<inter> keys_at kv (committed_key (node_id (nx_node x))) = {}"
    "distinct (List.map_filter (item_key lib x) (out_items out))"
    "passed_keys lib x out \<subseteq> keys_at kv' (tentative_key (node_id (nx_node x)) (run_id_of x))"
    "kv' (committed_key (node_id (nx_node x))) = kv (committed_key (node_id (nx_node x)))"
proof -
  let ?i = "node_id (nx_node x)"
  obtain passed seen where p: "filter_items (item_key lib x) (key_set (kv (committed_key ?i))) (nx_input x) [] = (passed, seen)"
    by (cases "filter_items (item_key lib x) (key_set (kv (committed_key ?i))) (nx_input x) []")
  have out: "out = output_main passed"
    using assms p by (auto simp: execute_dedup_def Let_def load_key_set_def kv_get_def
        split: option.splits sum.splits prod.splits if_splits)
  note seen = filter_items_seen [OF p]
  show "out_items out = fst (filter_items (item_key lib x) (key_set (kv (committed_key ?i))) (nx_input x) [])"
    by (simp add: out p output_defs)
  show "passed_keys lib x out \<inter> keys_at kv (committed_key ?i) = {}"
    "distinct (List.map_filter (item_key lib x) (out_items out))"
    using seen by (auto simp: out output_defs)
  show "kv' (committed_key ?i) = kv (committed_key ?i)"
    using assms p by (auto simp: execute_dedup_def Let_def load_key_set_def kv_get_def store_key_set_def kv_set_def
        split: option.splits sum.splits prod.splits if_splits)
  show "passed_keys lib x out \<subseteq> keys_at kv' (tentative_key ?i (run_id_of x))"
  proof (cases "seen = []")
    case False
    then have "kv' (tentative_key ?i (run_id_of x)) = Some (JArray (map JString (sort
        (fold hs_insert seen (key_set (kv (tentative_key ?i (run_id_of x))))))))"
      using assms p by (auto simp: execute_dedup_def Let_def load_key_set_def kv_get_def store_key_set_def kv_set_def
          split: option.splits sum.splits)
    with seen show ?thesis by (auto simp: out output_defs)
  qed (use seen in \<open>auto simp: out output_defs\<close>)
qed

text \<open>The three key sets of a node after a commit, by the branch the commit took.\<close>

lemma park_keys:
  assumes "park_for_retry f kv (tentative_key i run) park tentative carryover e = (out, kv')"
    "park = None \<or> park = Some (carryover_key i)" "set tentative = keys_at kv (tentative_key i run)"
    "carryover = None \<or> (\<exists>ks. carryover = Some ks \<and> set ks = keys_at kv (carryover_key i))"
  shows "kv' (committed_key i) = kv (committed_key i)"
    "keys_at kv (tentative_key i run) \<union> keys_at kv (carryover_key i)
      \<subseteq> keys_at kv' (tentative_key i run) \<union> keys_at kv' (carryover_key i)"
    "{k. kv' k \<noteq> kv k} \<subseteq> {tentative_key i run, carryover_key i}"
  using assms by (auto simp: park_for_retry_def store_key_set_def kv_set_def kv_delete_def
      split: option.splits sum.splits prod.splits if_splits)

lemma commit_cases:
  assumes "commit f kv i run = (out, kv')"
  obtains (unchanged) "kv' = kv" "\<And>a b c. out \<noteq> Committed a b c"
  | (parked) park tentative carryover e where
      "park_for_retry f kv (tentative_key i run) park tentative carryover e = (out, kv')"
      "park = None \<or> park = Some (carryover_key i)" "set tentative = keys_at kv (tentative_key i run)"
      "carryover = None \<or> (\<exists>ks. carryover = Some ks \<and> set ks = keys_at kv (carryover_key i))"
  | (stored) carried where
      "set carried \<subseteq> keys_at kv (carryover_key i)"
      "keys_at kv' (committed_key i)
        = keys_at kv (committed_key i) \<union> keys_at kv (tentative_key i run) \<union> set carried"
      "kv' (carryover_key i) = kv (carryover_key i) \<or> set carried = keys_at kv (carryover_key i)"
      "{k. kv' k \<noteq> kv k} \<subseteq> {committed_key i, tentative_key i run, carryover_key i}"
proof (cases "load_key_set f kv (tentative_key i run)")
  case (Inl e)
  with assms have "out = CommitFailed e" "kv' = kv" by (simp_all add: commit_def)
  then show ?thesis by (intro unchanged) simp_all
next
  case (Inr t)
  obtain carryover where "carryover = (case load_key_set f kv (carryover_key i) of Inr ks \<Rightarrow> Some ks | Inl _ \<Rightarrow> None)"
    by simp
  moreover obtain carried where carried: "carried = (case carryover of Some ks \<Rightarrow> ks | None \<Rightarrow> [])" by simp
  ultimately have c: "carryover = None \<or> (\<exists>ks. carryover = Some ks \<and> set ks = keys_at kv (carryover_key i))"
    "set carried \<subseteq> keys_at kv (carryover_key i)"
    "carried = [] \<or> set carried = keys_at kv (carryover_key i)"
    and run: "commit_sets f kv i run t carryover = (out, kv')"
    using assms Inr
    by (auto simp: commit_def load_key_set_def kv_get_def split: option.splits)
  have t: "set t = keys_at kv (tentative_key i run)"
    using Inr by (auto simp: load_key_set_def kv_get_def split: option.splits)
  let ?new = "fold hs_insert (t @ carried) (key_set (kv (committed_key i)))"
  let ?kv1 = "snd (kv_delete f (kv(committed_key i := Some (JArray (map JString (sort ?new))))) (tentative_key i run))"
  note sets = commit_sets_def Let_def carried [symmetric]
  consider "t = []" "carried = []"
    | e where "park_for_retry f kv (tentative_key i run) (map_option (\<lambda>_. carryover_key i) run) t carryover e = (out, kv')"
    | "kv' = (if carried \<noteq> [] then snd (kv_delete f ?kv1 (carryover_key i)) else ?kv1)"
  proof (cases "load_key_set f kv (committed_key i)")
    case (Inl e)
    with run that show ?thesis by (auto simp: sets split: if_splits)
  next
    case (Inr committed)
    then have load: "load_key_set f kv (committed_key i) = Inr (key_set (kv (committed_key i)))"
      by (auto simp: load_key_set_def kv_get_def split: option.splits)
    show ?thesis
    proof (cases "t = [] \<and> carried = []")
      case some: False
      show ?thesis
      proof (cases "set_fault f (committed_key i)")
        case None
        then have "store_key_set f kv (committed_key i) ?new
            = (Inr (), kv(committed_key i := Some (JArray (map JString (sort ?new)))))"
          by (simp add: store_key_set_def kv_set_def)
        with run some show ?thesis
          by (intro that(3)) (cases "carried = []"; simp add: sets load case_prod_beta)
      next
        case (Some e)
        then have "store_key_set f kv (committed_key i) ?new = (Inl e, kv)"
          by (simp add: store_key_set_def kv_set_def)
        with run some show ?thesis by (intro that(2) [of e]) (simp add: sets load)
      qed
    qed (use that(1) in simp)
  qed
  then show ?thesis
  proof cases
    case 1
    with run have "out = NothingTentative" "kv' = kv" by (simp_all add: sets)
    then show ?thesis by (intro unchanged) simp_all
  next
    case (2 e)
    then show ?thesis by (rule parked) (use c(1) t in auto)
  next
    case 3
    have "kv' (committed_key i) = Some (JArray (map JString (sort ?new)))"
      "carried = [] \<Longrightarrow> kv' (carryover_key i) = kv (carryover_key i)"
      "\<And>k. k \<notin> {committed_key i, tentative_key i run, carryover_key i} \<Longrightarrow> kv' k = kv k"
      unfolding 3 by (simp_all add: kv_delete_def split: option.split)
    then show ?thesis using c(2,3) t by (intro stored [of carried]) auto
  qed
qed

text \<open>C20 (settlement_loses_no_key): a commit under any store failures keeps every committed key,
  commits only keys that were staged or carried over, loses none of those, and touches no key of
  the store but the three of its node.\<close>

theorem settlement_loses_no_key:
  "case commit f kv i run of (out, kv') \<Rightarrow>
    keys_at kv (committed_key i) \<subseteq> keys_at kv' (committed_key i)
    \<and> keys_at kv' (committed_key i)
      \<subseteq> keys_at kv (committed_key i) \<union> keys_at kv (tentative_key i run) \<union> keys_at kv (carryover_key i)
    \<and> keys_at kv (tentative_key i run) \<union> keys_at kv (carryover_key i)
      \<subseteq> keys_at kv' (committed_key i) \<union> keys_at kv' (tentative_key i run) \<union> keys_at kv' (carryover_key i)
    \<and> {k. kv' k \<noteq> kv k} \<subseteq> {committed_key i, tentative_key i run, carryover_key i}"
proof (cases "commit f kv i run")
  case (Pair out kv')
  then show ?thesis
  proof (cases rule: commit_cases)
    case (parked park tentative carryover e)
    note keys = park_keys [OF parked]
    show ?thesis using keys(2,3) by (auto simp: Pair keys(1))
  next
    case (stored carried)
    have "keys_at kv (carryover_key i) \<subseteq> keys_at kv' (committed_key i) \<union> keys_at kv' (carryover_key i)"
      using stored(3)
    proof
      assume "set carried = keys_at kv (carryover_key i)"
      then show ?thesis using stored(2) by blast
    qed simp
    moreover have "keys_at kv (committed_key i) \<union> keys_at kv (tentative_key i run) \<subseteq> keys_at kv' (committed_key i)"
      using stored(2) by blast
    moreover have "keys_at kv' (committed_key i)
        \<subseteq> keys_at kv (committed_key i) \<union> keys_at kv (tentative_key i run) \<union> keys_at kv (carryover_key i)"
      using stored(1) unfolding stored(2) by blast
    ultimately show ?thesis using stored(4) unfolding Pair prod.case by blast
  qed (auto simp: Pair)
qed


text \<open>A run that did not succeed leaves no trace in the filter: when the
  same activation is repeated after the release it passes exactly the same items.\<close>

theorem failed_run_is_retried:
  assumes "execute_dedup lib f x kv = (Inr out, kv1)"
    and "settle_run g kv1 (node_id (nx_node x)) (run_id_of x) False = (res, kv2)"
    and "execute_dedup lib f' x kv2 = (Inr out', kv3)"
  shows "out_items out' = out_items out"
proof -
  have "kv2 (committed_key (node_id (nx_node x))) = kv (committed_key (node_id (nx_node x)))"
    using assms(2) execute_dedup_Inr(5) [OF assms(1)]
    by (auto simp: settle_run_def release_run_def kv_delete_def split: option.splits)
  then show ?thesis using execute_dedup_Inr(1) [OF assms(1)] execute_dedup_Inr(1) [OF assms(3)] by simp
qed

definition dedup_context :: "item list \<Rightarrow> exec_context" where
  "dedup_context its = context_on (mk_node ''d'' Dedup [(''key'', JString ''=item'')]) its (JObject [])"

definition fresh :: kv where
  "fresh = (\<lambda>k. None)"

definition first_run :: "(engine_error + node_output) \<times> kv" where
  "first_run = execute_dedup plain_lib no_faults
    (dedup_context [note_item ''p'', note_item ''p'', note_item ''q'']) fresh"

definition after_commit :: "settlement_result \<times> kv" where
  "after_commit = settle_run no_faults (snd first_run) ''d'' None True"

definition after_release :: "settlement_result \<times> kv" where
  "after_release = settle_run no_faults (snd first_run) ''d'' None False"

lemma first_run_ok:
  "fst first_run = Inr (output_main [note_item ''p'', note_item ''q''])"
  by code_simp

lemma after_commit_ok: "fst after_commit = Commit (Committed 2 2 None)"
  by code_simp

lemma second_run_ok:
  "fst (execute_dedup plain_lib no_faults (dedup_context [note_item ''q'', note_item ''r'']) (snd after_commit))
    = Inr (output_main [note_item ''r''])"
  by code_simp

lemma retried_run_ok:
  "fst (execute_dedup plain_lib no_faults
      (dedup_context [note_item ''p'', note_item ''p'', note_item ''q'']) (snd after_release))
    = Inr (output_main [note_item ''p'', note_item ''q''])"
  by code_simp

lemma dedup_context_sel [simp]: "node_id (nx_node (dedup_context its)) = ''d''" "run_id_of (dedup_context its) = None"
  by (simp_all add: dedup_context_def context_on_def mk_simps run_id_of_def)


theorem failed_run_is_retried_witness:
  "\<exists>kv. execute_dedup plain_lib no_faults (dedup_context [note_item ''p'', note_item ''p'', note_item ''q''])
      (snd after_release) = (Inr (output_main [note_item ''p'', note_item ''q'']), kv)
    \<and> out_items (output_main [note_item ''p'', note_item ''q'']) = [note_item ''p'', note_item ''q'']"
proof -
  obtain kv where kv: "execute_dedup plain_lib no_faults
      (dedup_context [note_item ''p'', note_item ''p'', note_item ''q'']) (snd after_release)
    = (Inr (output_main [note_item ''p'', note_item ''q'']), kv)"
    using retried_run_ok by (metis prod.collapse)
  have "out_items (output_main [note_item ''p'', note_item ''q'']) = out_items (output_main [note_item ''p'', note_item ''q''])"
    by (rule failed_run_is_retried [OF _ _ kv, of no_faults fresh "output_main [note_item ''p'', note_item ''q'']"
          "snd first_run" no_faults "fst after_release"])
       (use first_run_ok in \<open>simp_all add: first_run_def after_release_def prod_eq_iff\<close>)
  with kv show ?thesis by (simp add: output_defs)
qed

end
