(* ===== verification/Tf_Channel.thy ===== *)
theory Tf_Channel
  imports Tf_Command Tf_Json
begin

text \<open>
  Channel-per-field state, \<open>graph/channel/\<close>: the channels the runtime provides with their merge
  rules, sets of named channels with their values, and the reducer that folds the updates of a
  super-step and refuses concurrent writes to a channel that only overwrites.  The hash maps of
  channels and values are only looked up, so they are maps of HOL; the count of writes of a channel
  that has none is read as zero.  The sum of two doubles, written as a JSON number or null,
  is an argument.
\<close>

section \<open>Channels\<close>

datatype channel =
    LastValue
  | Topic
  | Delta
  | Messages
  | Ephemeral
  | Untracked
  | Barrier nat
  | NamedBarrier "string list"
  | BinaryAggregate "json \<Rightarrow> json \<Rightarrow> graph_error + json"

type_synonym f64_sum = "number \<Rightarrow> number \<Rightarrow> json"

definition append_value :: "json option \<Rightarrow> json \<Rightarrow> json" where
  "append_value current incoming = JArray
    ((case current of Some (JArray xs) \<Rightarrow> xs | Some v \<Rightarrow> [v] | None \<Rightarrow> [])
     @ (case incoming of JArray ys \<Rightarrow> ys | v \<Rightarrow> [v]))"

text \<open>The signed 64-bit value of a number, and the number of a signed value.\<close>

fun as_i64 :: "number \<Rightarrow> 64 word option" where
  "as_i64 (PosInt n) = (if 0 \<le> sint n then Some n else None)"
| "as_i64 (NegInt n) = Some n"
| "as_i64 (Float b) = None"

definition from_i64 :: "64 word \<Rightarrow> number" where
  "from_i64 w = (if 0 \<le> sint w then PosInt w else NegInt w)"

definition delta_merge :: "f64_sum \<Rightarrow> json option \<Rightarrow> json \<Rightarrow> graph_error + json" where
  "delta_merge fsum current incoming =
    (let err = GraphErr ''Delta channel only accepts numeric writes'' in
     case incoming of
       JNumber y \<Rightarrow>
         (case current of
            None \<Rightarrow> Inr incoming
          | Some (JNumber x) \<Rightarrow>
              (case (as_i64 x, as_i64 y) of
                 (Some a, Some b) \<Rightarrow> Inr (JNumber (from_i64 (a + b)))
               | _ \<Rightarrow> Inr (fsum x y))
          | Some _ \<Rightarrow> Inl err)
     | _ \<Rightarrow> Inl err)"

definition message_id :: "json \<Rightarrow> string option" where
  "message_id m = Option.bind (jget ''id'' m) as_str"

abbreviation message_index :: "json list \<Rightarrow> string \<rightharpoonup> nat" where
  "message_index ms \<equiv> map_of (rev (List.map_filter
     (\<lambda>(i, m). map_option (\<lambda>k. (k, i)) (message_id m)) (enumerate 0 ms)))"

fun put_messages :: "json list \<Rightarrow> (string \<rightharpoonup> nat) \<Rightarrow> json list \<Rightarrow> json list" where
  "put_messages ms ix [] = ms"
| "put_messages ms ix (m # inc) =
    (case message_id m of
       Some k \<Rightarrow>
         (case ix k of
            Some i \<Rightarrow> put_messages (ms[i := m]) ix inc
          | None \<Rightarrow> put_messages (ms @ [m]) (ix(k \<mapsto> length ms)) inc)
     | None \<Rightarrow> put_messages (ms @ [m]) ix inc)"

definition messages_merge :: "json option \<Rightarrow> json \<Rightarrow> graph_error + json" where
  "messages_merge current incoming =
    (case (case current of Some (JArray xs) \<Rightarrow> Some xs | Some _ \<Rightarrow> None | None \<Rightarrow> Some []) of
       None \<Rightarrow> Inl (GraphErr ''Messages channel value must be a JSON array'')
     | Some ms \<Rightarrow>
        Inr (JArray (put_messages ms (message_index ms)
          (case incoming of JArray ys \<Rightarrow> ys | v \<Rightarrow> [v]))))"

definition named_merge :: "json option \<Rightarrow> json \<Rightarrow> graph_error + json" where
  "named_merge current incoming =
    (case (case current of Some (JObject m) \<Rightarrow> Some m | Some _ \<Rightarrow> None | None \<Rightarrow> Some []) of
       None \<Rightarrow> Inl (GraphErr ''NamedBarrier channel value must be a JSON object'')
     | Some m \<Rightarrow>
        (case incoming of
           JObject kvs \<Rightarrow> Inr (JObject (fold (\<lambda>(k, v). bt_insert k v) kvs m))
         | _ \<Rightarrow> Inl (GraphErr ''NamedBarrier writes must be JSON objects of named arrivals'')))"

fun channel_merge :: "f64_sum \<Rightarrow> channel \<Rightarrow> json option \<Rightarrow> json \<Rightarrow> graph_error + json" where
  "channel_merge fsum Topic current incoming = Inr (append_value current incoming)"
| "channel_merge fsum Delta current incoming = delta_merge fsum current incoming"
| "channel_merge fsum Messages current incoming = messages_merge current incoming"
| "channel_merge fsum (Barrier n) current incoming = Inr (append_value current incoming)"
| "channel_merge fsum (NamedBarrier names) current incoming = named_merge current incoming"
| "channel_merge fsum (BinaryAggregate combine) current incoming =
    (case current of Some v \<Rightarrow> combine v incoming | None \<Rightarrow> Inr incoming)"
| "channel_merge fsum _ current incoming = Inr incoming"

fun allows_concurrent :: "channel \<Rightarrow> bool" where
  "allows_concurrent LastValue = False"
| "allows_concurrent Ephemeral = False"
| "allows_concurrent Untracked = False"
| "allows_concurrent _ = True"

fun is_ready :: "channel \<Rightarrow> json option \<Rightarrow> bool" where
  "is_ready (Barrier n) current =
    (case Option.bind current as_array of Some xs \<Rightarrow> n \<le> length xs | None \<Rightarrow> n = 0)"
| "is_ready (NamedBarrier names) current =
    (case current of
       Some (JObject m) \<Rightarrow> list_all (\<lambda>n. bt_get n m \<noteq> None) names
     | _ \<Rightarrow> names = [])"
| "is_ready _ current = True"

section \<open>Sets of channels\<close>

record channel_set =
  cs_channels :: "string \<rightharpoonup> channel"
  cs_values :: "string \<rightharpoonup> json"

record channel_update =
  cu_writes :: "(string \<times> json) list"
  cu_step :: "nat option"

record channel_state =
  ch_set :: channel_set
  ch_step :: nat
  ch_writes :: "string \<Rightarrow> nat"

abbreviation unknown_channel :: "string \<Rightarrow> graph_error" where
  "unknown_channel n \<equiv> GraphErr (''unknown channel `'' @ n @ ''`'')"

definition apply_update ::
  "f64_sum \<Rightarrow> string \<Rightarrow> json \<Rightarrow> channel_set \<Rightarrow> (graph_error + unit) \<times> channel_set" where
  "apply_update fsum n v cs =
    (case cs_channels cs n of
       None \<Rightarrow> (Inl (unknown_channel n), cs)
     | Some ch \<Rightarrow>
        (case channel_merge fsum ch (cs_values cs n) v of
           Inl e \<Rightarrow> (Inl e, cs\<lparr>cs_values := (cs_values cs)(n := None)\<rparr>)
         | Inr merged \<Rightarrow> (Inr (), cs\<lparr>cs_values := (cs_values cs)(n \<mapsto> merged)\<rparr>)))"

definition clear_ephemeral :: "channel_set \<Rightarrow> channel_set" where
  "clear_ephemeral cs = cs\<lparr>cs_values :=
     (\<lambda>n. if cs_channels cs n = Some Ephemeral then None else cs_values cs n)\<rparr>"

section \<open>The reducer\<close>

definition begin_update :: "channel_update \<Rightarrow> channel_state \<Rightarrow> channel_state" where
  "begin_update u s =
    (case cu_step u of
       Some k \<Rightarrow>
         if k \<noteq> ch_step s
         then s\<lparr>ch_set := clear_ephemeral (ch_set s), ch_step := k, ch_writes := (\<lambda>_. 0)\<rparr>
         else s
     | None \<Rightarrow> s\<lparr>ch_writes := (\<lambda>_. 0)\<rparr>)"

fun check_writes :: "channel_state \<Rightarrow> string list \<Rightarrow> graph_error option" where
  "check_writes s [] = None"
| "check_writes s (n # ns) =
    (case cs_channels (ch_set s) n of
       None \<Rightarrow> Some (unknown_channel n)
     | Some ch \<Rightarrow>
        if 1 < ch_writes s n + 1 \<and> \<not> allows_concurrent ch
        then Some (InvalidConcurrentUpdate (''channel `'' @ n @ ''` received ''
          @ show_nat (ch_writes s n + 1)
          @ '' concurrent writes in one step but is not an aggregate channel''))
        else check_writes s ns)"

fun apply_writes :: "f64_sum \<Rightarrow> (string \<times> json) list \<Rightarrow> channel_set \<Rightarrow> graph_error + channel_set" where
  "apply_writes fsum [] cs = Inr cs"
| "apply_writes fsum ((n, v) # ws) cs =
    (case apply_update fsum n v cs of
       (Inl e, _) \<Rightarrow> Inl e
     | (Inr _, cs') \<Rightarrow> apply_writes fsum ws cs')"

definition channels_merge :: "f64_sum \<Rightarrow> (channel_state, channel_update) reducer" where
  "channels_merge fsum s u =
    (let s1 = begin_update u s; names = hs_collect (map fst (cu_writes u)) in
     case check_writes s1 names of
       Some e \<Rightarrow> Inl e
     | None \<Rightarrow>
        (let counts = fold (\<lambda>n m. m(n := m n + 1)) names (ch_writes s1) in
         case apply_writes fsum (cu_writes u) (ch_set s1) of
           Inl e \<Rightarrow> Inl e
         | Inr cs \<Rightarrow> Inr (s1\<lparr>ch_set := cs, ch_writes := counts\<rparr>)))"

section \<open>Messages\<close>

text \<open>The plain reading of a keyed write: scan the list for the id.\<close>

definition upsert :: "json \<Rightarrow> json list \<Rightarrow> json list" where
  "upsert m ms =
    (if message_id m = None \<or> message_id m \<notin> message_id ` set ms then ms @ [m]
     else map (\<lambda>e. if message_id e = message_id m then m else e) ms)"

definition message_ids :: "json list \<Rightarrow> string list" where
  "message_ids ms = List.map_filter message_id ms"

lemma message_ids_simps [simp]:
  "message_ids [] = []"
  "message_ids (ms @ ns) = message_ids ms @ message_ids ns"
  "message_ids (m # ms) = (case message_id m of Some k \<Rightarrow> k # message_ids ms | None \<Rightarrow> message_ids ms)"
  by (simp_all add: message_ids_def List.map_filter_def split: option.split)

lemma set_message_ids: "k \<in> set (message_ids ms) \<longleftrightarrow> (\<exists>i < length ms. message_id (ms ! i) = Some k)"
  by (induction ms rule: rev_induct) (auto simp: nth_append less_Suc_eq split: option.splits)

lemma message_ids_nth_unique:
  assumes "distinct (message_ids ms)" "i < length ms" "j < length ms"
    "message_id (ms ! i) = Some k" "message_id (ms ! j) = Some k"
  shows "i = j"
  using assms
proof (induction ms arbitrary: i j)
  case (Cons m ms)
  then show ?case
    by (cases i; cases j) (auto simp: set_message_ids split: option.splits)
qed simp

text \<open>What the index holds: the one position of every id.\<close>

definition indexes :: "(string \<rightharpoonup> nat) \<Rightarrow> json list \<Rightarrow> bool" where
  "indexes ix ms \<longleftrightarrow> (\<forall>k i. ix k = Some i \<longleftrightarrow> i < length ms \<and> message_id (ms ! i) = Some k)"

lemma indexes_ids: "indexes ix ms \<Longrightarrow> dom ix = set (message_ids ms)"
  by (auto simp: indexes_def set_message_ids)

lemma message_index_snoc:
  "message_index (ms @ [m]) =
    (case message_id m of Some k \<Rightarrow> (message_index ms)(k \<mapsto> length ms) | None \<Rightarrow> message_index ms)"
  by (auto simp: enumerate_append_eq List.map_filter_def split: option.split)

lemma message_index_indexes: "distinct (message_ids ms) \<Longrightarrow> indexes (message_index ms) ms"
proof (induction ms rule: rev_induct)
  case Nil
  then show ?case by (simp add: indexes_def List.map_filter_def)
next
  case (snoc m ms)
  then have ix: "indexes (message_index ms) ms" by (simp split: option.splits)
  show ?case
  proof (cases "message_id m")
    case None
    with ix show ?thesis by (auto simp: indexes_def message_index_snoc nth_append less_Suc_eq)
  next
    case (Some k)
    with snoc.prems have "k \<notin> set (message_ids ms)" by simp
    with ix Some show ?thesis
      by (auto simp: indexes_def message_index_snoc nth_append less_Suc_eq set_message_ids)
  qed
qed

lemma upsert_update:
  assumes "distinct (message_ids ms)" "i < length ms" "message_id (ms ! i) = Some k" "message_id m = Some k"
  shows "upsert m ms = ms[i := m]"
proof -
  have "Some k \<in> message_id ` set ms" using assms(2,3) by (metis image_eqI nth_mem)
  moreover have "(if message_id (ms ! j) = Some k then m else ms ! j) = ms[i := m] ! j"
    if "j < length ms" for j
    using message_ids_nth_unique [OF assms(1) that assms(2)] assms(2,3) that
    by (cases "j = i") auto
  ultimately show ?thesis
    by (auto simp: upsert_def assms(4) intro!: nth_equalityI)
qed

lemma upsert_append:
  assumes "\<And>k. message_id m = Some k \<Longrightarrow> k \<notin> set (message_ids ms)"
  shows "upsert m ms = ms @ [m]"
proof -
  have "message_id m = None \<or> message_id m \<notin> message_id ` set ms"
    using assms unfolding set_message_ids by (metis imageE in_set_conv_nth not_Some_eq)
  then show ?thesis by (auto simp: upsert_def)
qed

lemma message_ids_map:
  "(\<And>e. e \<in> set ms \<Longrightarrow> message_id (f e) = message_id e) \<Longrightarrow> message_ids (map f ms) = message_ids ms"
  by (induction ms) (simp_all split: option.split)

lemma message_ids_upsert:
  assumes "distinct (message_ids ms)"
  shows "distinct (message_ids (upsert m ms))"
proof (cases "message_id m = None \<or> message_id m \<notin> message_id ` set ms")
  case True
  then have "k \<notin> set (message_ids ms)" if "message_id m = Some k" for k
    using that by (metis image_eqI nth_mem option.distinct(1) set_message_ids)
  with True assms show ?thesis by (auto simp: upsert_def split: option.split)
next
  case False
  then have "message_ids (upsert m ms) = message_ids ms"
    by (simp add: upsert_def message_ids_map)
  with assms show ?thesis by simp
qed

lemma indexes_update:
  assumes "indexes ix ms" "ix k = Some i" "message_id m = Some k"
  shows "indexes ix (ms[i := m])"
proof -
  have "(j < length ms \<and> message_id (ms[i := m] ! j) = Some k') \<longleftrightarrow> ix k' = Some j" for j k'
    using assms unfolding indexes_def by (cases "j = i") auto
  then show ?thesis by (simp add: indexes_def)
qed

lemma indexes_append:
  assumes "indexes ix ms" "message_id m = Some k" "ix k = None"
  shows "indexes (ix(k \<mapsto> length ms)) (ms @ [m])"
proof -
  have "(i < Suc (length ms) \<and> message_id ((ms @ [m]) ! i) = Some k') \<longleftrightarrow> (ix(k \<mapsto> length ms)) k' = Some i"
    for i k'
  proof (cases "i < length ms")
    case True
    with assms show ?thesis unfolding indexes_def by (cases "k' = k") (auto simp: nth_append, metis option.distinct(1))
  next
    case False
    with assms show ?thesis unfolding indexes_def by (cases "i = length ms") (auto simp: nth_append)
  qed
  then show ?thesis by (simp add: indexes_def)
qed

lemma put_messages_upsert:
  "indexes ix ms \<Longrightarrow> distinct (message_ids ms) \<Longrightarrow> put_messages ms ix inc = fold upsert inc ms"
proof (induction ms ix inc rule: put_messages.induct)
  case (2 ms ix m inc)
  have keep: "distinct (message_ids (upsert m ms))" by (rule message_ids_upsert [OF 2(5)])
  show ?case
  proof (cases "message_id m")
    case None
    then have "upsert m ms = ms @ [m]" "indexes ix (ms @ [m])"
      using 2(4) by (auto simp: upsert_def indexes_def nth_append less_Suc_eq)
    with None keep show ?thesis using "2.IH" by simp
  next
    case (Some k)
    show ?thesis
    proof (cases "ix k")
      case i: None
      then have "upsert m ms = ms @ [m]"
        using indexes_ids [OF 2(4)] Some by (intro upsert_append) auto
      with Some i keep indexes_append [OF 2(4) Some i] show ?thesis using "2.IH" by (simp add: fun_upd_def)
    next
      case i: (Some i)
      then have "i < length ms" "message_id (ms ! i) = Some k" using 2(4) by (auto simp: indexes_def)
      from upsert_update [OF 2(5) this Some] Some i keep indexes_update [OF 2(4) i Some]
      show ?thesis using "2.IH" by simp
    qed
  qed
qed simp

text \<open>C12 (messages_match_scan): on a list with one message per id, the indexed merge of a messages
  channel does what the plain scan does for every incoming message in turn, replace the message of
  that id in place or append, and again leaves one message per id.\<close>

theorem messages_match_scan:
  assumes "distinct (message_ids ms)"
  shows "messages_merge (Some (JArray ms)) (JArray inc) = Inr (JArray (fold upsert inc ms))
    \<and> distinct (message_ids (fold upsert inc ms))"
proof -
  have "distinct (message_ids (fold upsert inc ms))"
    using assms by (induction inc arbitrary: ms) (simp_all add: message_ids_upsert)
  then show ?thesis
    using put_messages_upsert [OF message_index_indexes [OF assms] assms]
    by (simp add: messages_merge_def)
qed

definition chat :: "string \<Rightarrow> string \<Rightarrow> json" where
  "chat k t = jobj [(''id'', JString k), (''text'', JString t)]"

theorem messages_match_scan_witness:
  "messages_merge (Some (JArray [chat ''a'' ''x'', JNull, chat ''b'' ''y''])) (JArray [chat ''b'' ''z'', chat ''c'' ''w''])
    = Inr (JArray [chat ''a'' ''x'', JNull, chat ''b'' ''z'', chat ''c'' ''w''])"
proof -
  have "distinct (message_ids [chat ''a'' ''x'', JNull, chat ''b'' ''y''])" by code_simp
  from messages_match_scan [OF this, of "[chat ''b'' ''z'', chat ''c'' ''w'']"]
  have "messages_merge (Some (JArray [chat ''a'' ''x'', JNull, chat ''b'' ''y''])) (JArray [chat ''b'' ''z'', chat ''c'' ''w''])
    = Inr (JArray (fold upsert [chat ''b'' ''z'', chat ''c'' ''w''] [chat ''a'' ''x'', JNull, chat ''b'' ''y'']))" by simp
  also have "fold upsert [chat ''b'' ''z'', chat ''c'' ''w''] [chat ''a'' ''x'', JNull, chat ''b'' ''y'']
    = [chat ''a'' ''x'', JNull, chat ''b'' ''z'', chat ''c'' ''w'']" by code_simp
  finally show ?thesis .
qed

section \<open>Writes of one update\<close>

text \<open>Writes to other channels neither see nor change a channel.\<close>

lemma apply_update_channels [simp]: "cs_channels (snd (apply_update fsum n v cs)) = cs_channels cs"
  by (simp add: apply_update_def split: option.split sum.split)

lemma apply_update_InrD:
  assumes "apply_update fsum n v cs = (Inr x, cs')"
  obtains ch w where "cs_channels cs n = Some ch" "channel_merge fsum ch (cs_values cs n) v = Inr w"
    "cs' = cs\<lparr>cs_values := (cs_values cs)(n \<mapsto> w)\<rparr>"
  using assms by (auto simp: apply_update_def split: option.splits sum.splits)

lemma apply_update_Inr:
  "cs_channels cs n = Some ch \<Longrightarrow> channel_merge fsum ch (cs_values cs n) v = Inr w \<Longrightarrow>
    apply_update fsum n v cs = (Inr (), cs\<lparr>cs_values := (cs_values cs)(n \<mapsto> w)\<rparr>)"
  by (simp add: apply_update_def)

lemma apply_writes_ConsD:
  assumes "apply_writes fsum ((n, v) # ws) cs = Inr cs'"
  obtains ch w where "cs_channels cs n = Some ch" "channel_merge fsum ch (cs_values cs n) v = Inr w"
    "apply_writes fsum ws (cs\<lparr>cs_values := (cs_values cs)(n \<mapsto> w)\<rparr>) = Inr cs'"
  using assms by (auto simp: apply_update_def split: option.splits sum.splits)

lemma apply_writes_frame:
  "apply_writes fsum ws cs = Inr cs' \<Longrightarrow> cs_channels cs' = cs_channels cs
    \<and> (\<forall>n. n \<notin> fst ` set ws \<longrightarrow> cs_values cs' n = cs_values cs n)"
proof (induction ws arbitrary: cs)
  case (Cons e ws)
  obtain n v where e: "e = (n, v)" by force
  from Cons.prems show ?case unfolding e
    by (rule apply_writes_ConsD) (auto dest: Cons.IH)
qed simp

lemma apply_writes_append:
  "apply_writes fsum (us @ vs) cs =
    (case apply_writes fsum us cs of Inl e \<Rightarrow> Inl e | Inr cs' \<Rightarrow> apply_writes fsum vs cs')"
  by (induction fsum us cs rule: apply_writes.induct) (auto split: prod.split sum.split)

text \<open>A write moves past writes to other channels.\<close>

lemma apply_writes_move:
  assumes "apply_writes fsum ((n, v) # ws) cs = Inr cs'" "n \<notin> fst ` set ws"
  shows "apply_writes fsum (ws @ [(n, v)]) cs = Inr cs'"
  using assms
proof (induction ws arbitrary: cs)
  case (Cons e ws)
  obtain m x where e: "e = (m, x)" by force
  have mn: "m \<noteq> n" using Cons.prems(2) e by auto
  from Cons.prems(1) obtain ch w where n: "cs_channels cs n = Some ch"
      "channel_merge fsum ch (cs_values cs n) v = Inr w"
      "apply_writes fsum ((m, x) # ws) (cs\<lparr>cs_values := (cs_values cs)(n \<mapsto> w)\<rparr>) = Inr cs'"
    unfolding e by (rule apply_writes_ConsD)
  from n(3) obtain ch' w' where m: "cs_channels cs m = Some ch'"
      "channel_merge fsum ch' (cs_values cs m) x = Inr w'"
      "apply_writes fsum ws (cs\<lparr>cs_values := (cs_values cs)(n \<mapsto> w, m \<mapsto> w')\<rparr>) = Inr cs'"
    by (rule apply_writes_ConsD) (use mn in simp)
  let ?cs = "cs\<lparr>cs_values := (cs_values cs)(m \<mapsto> w')\<rparr>"
  have "apply_writes fsum ((n, v) # ws) ?cs = Inr cs'"
    using n m mn by (simp add: apply_update_def fun_upd_twist)
  then have "apply_writes fsum (ws @ [(n, v)]) ?cs = Inr cs'" using Cons.IH Cons.prems(2) by auto
  then show ?case unfolding e using m by (simp add: apply_update_def)
qed simp

lemma apply_writes_commute:
  assumes "apply_writes fsum (us @ vs) cs = Inr cs'" "fst ` set us \<inter> fst ` set vs = {}"
  shows "apply_writes fsum (vs @ us) cs = Inr cs'"
  using assms
proof (induction us arbitrary: cs)
  case (Cons u us)
  obtain n v where u: "u = (n, v)" by force
  from Cons.prems(1) obtain ch w where n: "cs_channels cs n = Some ch"
      "channel_merge fsum ch (cs_values cs n) v = Inr w"
      "apply_writes fsum (us @ vs) (cs\<lparr>cs_values := (cs_values cs)(n \<mapsto> w)\<rparr>) = Inr cs'"
    unfolding u append_Cons by (rule apply_writes_ConsD)
  from Cons.IH [OF n(3)] Cons.prems(2)
  have "apply_writes fsum (vs @ us) (cs\<lparr>cs_values := (cs_values cs)(n \<mapsto> w)\<rparr>) = Inr cs'" by auto
  with n have "apply_writes fsum (((n, v) # vs) @ us) cs = Inr cs'" by (simp add: apply_update_def)
  then obtain cs2 where cs2: "apply_writes fsum ((n, v) # vs) cs = Inr cs2" "apply_writes fsum us cs2 = Inr cs'"
    unfolding apply_writes_append by (auto split: sum.splits)
  have "apply_writes fsum (vs @ [(n, v)]) cs = Inr cs2"
    using apply_writes_move [OF cs2(1)] Cons.prems(2) u by auto
  with cs2(2) have "apply_writes fsum ((vs @ [(n, v)]) @ us) cs = Inr cs'"
    by (simp only: apply_writes_append sum.case)
  then show ?case by (simp add: u)
qed simp

section \<open>Concurrent updates\<close>

abbreviation at_step :: "nat \<Rightarrow> (string \<times> json) list \<Rightarrow> channel_update" where
  "at_step k ws \<equiv> \<lparr>cu_writes = ws, cu_step = Some k\<rparr>"

definition overwrites :: "channel_state \<Rightarrow> string \<Rightarrow> bool" where
  "overwrites s n \<longleftrightarrow> (case cs_channels (ch_set s) n of Some ch \<Rightarrow> \<not> allows_concurrent ch | None \<Rightarrow> False)"

definition counted :: "string list \<Rightarrow> (string \<Rightarrow> nat) \<Rightarrow> string \<Rightarrow> nat" where
  "counted ns m = fold (\<lambda>n m. m(n := m n + 1)) ns m"

lemma counted_apply:
  "distinct ns \<Longrightarrow> counted ns m n = m n + (if n \<in> set ns then 1 else 0)"
  unfolding counted_def by (induction ns arbitrary: m) auto

lemma counted_commute:
  "distinct ns \<Longrightarrow> distinct ms \<Longrightarrow> counted ns (counted ms m) = counted ms (counted ns m)"
  by (rule ext) (simp add: counted_apply)

lemma check_writes_None:
  "check_writes s ns = None \<longleftrightarrow>
    (\<forall>n \<in> set ns. cs_channels (ch_set s) n \<noteq> None \<and> \<not> (overwrites s n \<and> 0 < ch_writes s n))"
  by (induction ns) (auto simp: overwrites_def split: option.split)

lemma check_writes_conflict:
  assumes "\<forall>n \<in> set ns. cs_channels (ch_set s) n \<noteq> None" "n \<in> set ns" "overwrites s n" "0 < ch_writes s n"
  shows "\<exists>m. check_writes s ns = Some (InvalidConcurrentUpdate m)"
  using assms by (induction ns) (auto simp: overwrites_def split: option.splits)

lemma channels_merge_iff:
  "channels_merge fsum s u = Inr s' \<longleftrightarrow>
    (\<exists>cs. check_writes (begin_update u s) (hs_collect (map fst (cu_writes u))) = None
      \<and> apply_writes fsum (cu_writes u) (ch_set (begin_update u s)) = Inr cs
      \<and> s' = (begin_update u s)\<lparr>ch_set := cs,
          ch_writes := counted (hs_collect (map fst (cu_writes u))) (ch_writes (begin_update u s))\<rparr>)"
  by (auto simp: channels_merge_def Let_def counted_def split: option.splits sum.splits)

lemma begin_update_same [simp]: "ch_step s = k \<Longrightarrow> begin_update (at_step k ws) s = s"
  by (simp add: begin_update_def)

lemma begin_update_step [simp]: "ch_step (begin_update (at_step k ws) s) = k"
  by (simp add: begin_update_def)

lemma begin_update_channels [simp]: "cs_channels (ch_set (begin_update u s)) = cs_channels (ch_set s)"
  by (simp add: begin_update_def clear_ephemeral_def split: option.split)

text \<open>The stamp decides what an update begins with; the writes do not.\<close>

lemma begin_update_writes: "begin_update (at_step k ws) s = begin_update (at_step k ws') s"
  by (simp add: begin_update_def)

lemma distinct_names [simp]: "distinct (hs_collect xs)"
  by (simp add: hs_collect_def distinct_fold_hs_insert)

lemma merged_counts:
  assumes "channels_merge fsum s (at_step k ws) = Inr s'"
  shows "ch_step s' = k" "cs_channels (ch_set s') = cs_channels (ch_set s)"
    "ch_writes s' n = ch_writes (begin_update (at_step k ws) s) n + (if n \<in> fst ` set ws then 1 else 0)"
proof -
  from assms obtain cs where "apply_writes fsum ws (ch_set (begin_update (at_step k ws) s)) = Inr cs"
    and s': "s' = (begin_update (at_step k ws) s)\<lparr>ch_set := cs,
      ch_writes := counted (hs_collect (map fst ws)) (ch_writes (begin_update (at_step k ws) s))\<rparr>"
    by (auto simp: channels_merge_iff)
  then show "ch_step s' = k" "cs_channels (ch_set s') = cs_channels (ch_set s)"
    using apply_writes_frame by fastforce+
  show "ch_writes s' n = ch_writes (begin_update (at_step k ws) s) n + (if n \<in> fst ` set ws then 1 else 0)"
    unfolding s' by (simp add: counted_apply)
qed

text \<open>C11 (channel_conflicts_exact): within one stamped step the reducer refuses a second update
  exactly when both updates write a channel that only overwrites.  Every other second update is
  folded write by write, and only the rule of a channel it writes can still reject it.\<close>

theorem channel_conflicts_exact:
  assumes "ch_step s \<noteq> k" "channels_merge fsum s (at_step k us) = Inr s'"
    "fst ` set vs \<subseteq> dom (cs_channels (ch_set s))"
  shows "if \<exists>n \<in> fst ` set us \<inter> fst ` set vs. overwrites s n
    then \<exists>m. channels_merge fsum s' (at_step k vs) = Inl (InvalidConcurrentUpdate m)
    else map_sum id ch_set (channels_merge fsum s' (at_step k vs)) = apply_writes fsum vs (ch_set s')"
proof -
  note s' = merged_counts [OF assms(2)]
  have same: "begin_update (at_step k vs) s' = s'" using s'(1) by simp
  have fresh: "ch_writes (begin_update (at_step k us) s) n = 0" for n
    using assms(1) by (simp add: begin_update_def)
  have over: "overwrites s' n = overwrites s n" for n by (simp add: overwrites_def s'(2))
  have known: "\<forall>n \<in> set (hs_collect (map fst vs)). cs_channels (ch_set s') n \<noteq> None"
    using assms(3) by (auto simp: s'(2))
  show ?thesis
  proof (cases "\<exists>n \<in> fst ` set us \<inter> fst ` set vs. overwrites s n")
    case True
    then obtain n where n: "n \<in> fst ` set us" "n \<in> fst ` set vs" "overwrites s n" by blast
    then have "\<exists>m. check_writes s' (hs_collect (map fst vs)) = Some (InvalidConcurrentUpdate m)"
      by (intro check_writes_conflict [OF known, of n]) (auto simp: over s'(3) fresh)
    with True same show ?thesis by (auto simp: channels_merge_def Let_def)
  next
    case False
    then have "check_writes s' (hs_collect (map fst vs)) = None"
      using known by (auto simp: check_writes_None over s'(3) fresh)
    with same have "map_sum id ch_set (channels_merge fsum s' (at_step k vs)) = apply_writes fsum vs (ch_set s')"
      by (simp add: channels_merge_def Let_def split: sum.split)
    with False show ?thesis by auto
  qed
qed

text \<open>The updates of two branches of a step that write different channels
  can be folded in either order: where one order succeeds the other does, with the same state.\<close>

theorem branch_updates_commute:
  assumes "reduce_all (channels_merge fsum) s [at_step k us, at_step k vs] = Inr s'"
    "fst ` set us \<inter> fst ` set vs = {}"
  shows "reduce_all (channels_merge fsum) s [at_step k vs, at_step k us] = Inr s'"
proof -
  let ?b = "begin_update (at_step k us) s"
  let ?N = "\<lambda>ws. hs_collect (map fst ws)"
  from assms(1) obtain s1 where s1: "channels_merge fsum s (at_step k us) = Inr s1"
      "channels_merge fsum s1 (at_step k vs) = Inr s'" by (auto split: sum.splits)
  note c1 = merged_counts [OF s1(1)]
  from s1(1) obtain cs1 where u: "check_writes ?b (?N us) = None" "apply_writes fsum us (ch_set ?b) = Inr cs1"
      "s1 = ?b\<lparr>ch_set := cs1, ch_writes := counted (?N us) (ch_writes ?b)\<rparr>"
    by (auto simp: channels_merge_iff)
  from s1(2) obtain cs2 where v: "check_writes s1 (?N vs) = None" "apply_writes fsum vs cs1 = Inr cs2"
      "s' = s1\<lparr>ch_set := cs2, ch_writes := counted (?N vs) (ch_writes s1)\<rparr>"
    using c1(1) u(3) by (auto simp: channels_merge_iff)
  have "apply_writes fsum (us @ vs) (ch_set ?b) = Inr cs2" using u(2) v(2) by (simp add: apply_writes_append)
  from apply_writes_commute [OF this assms(2)] obtain cs3
    where w: "apply_writes fsum vs (ch_set ?b) = Inr cs3" "apply_writes fsum us cs3 = Inr cs2"
    by (auto simp: apply_writes_append split: sum.splits)
  let ?s3 = "?b\<lparr>ch_set := cs3, ch_writes := counted (?N vs) (ch_writes ?b)\<rparr>"
  have sep: "n \<notin> fst ` set us" if "n \<in> fst ` set vs" for n using that assms(2) by auto
  have cs3: "cs_channels cs3 = cs_channels (ch_set ?b)" using apply_writes_frame [OF w(1)] by simp
  have "check_writes ?b (?N vs) = None"
    unfolding check_writes_None
  proof
    fix n assume n: "n \<in> set (?N vs)"
    then have "cs_channels (ch_set s1) n \<noteq> None \<and> \<not> (overwrites s1 n \<and> 0 < ch_writes s1 n)"
      using v(1) unfolding check_writes_None by blast
    with n sep show "cs_channels (ch_set ?b) n \<noteq> None \<and> \<not> (overwrites ?b n \<and> 0 < ch_writes ?b n)"
      by (simp add: overwrites_def c1(2,3))
  qed
  then have m1: "channels_merge fsum s (at_step k vs) = Inr ?s3"
    unfolding channels_merge_iff begin_update_writes [where k = k and ws = vs and ws' = us and s = s]
    using w(1) by simp
  have "check_writes ?s3 (?N us) = None"
    unfolding check_writes_None
  proof
    fix n assume n: "n \<in> set (?N us)"
    then have "n \<notin> set (?N vs)" using sep by auto
    moreover have "cs_channels (ch_set ?b) n \<noteq> None \<and> \<not> (overwrites ?b n \<and> 0 < ch_writes ?b n)"
      using u(1) n unfolding check_writes_None by blast
    ultimately show "cs_channels (ch_set ?s3) n \<noteq> None \<and> \<not> (overwrites ?s3 n \<and> 0 < ch_writes ?s3 n)"
      by (simp add: overwrites_def cs3 counted_apply)
  qed
  moreover have "begin_update (at_step k us) ?s3 = ?s3" by (intro begin_update_same) simp
  ultimately have "channels_merge fsum ?s3 (at_step k us) = Inr s'"
    unfolding channels_merge_iff using w(2)
    by (simp add: v(3) u(3) counted_commute [of "?N us" "?N vs"])
  with m1 show ?thesis by simp
qed

text \<open>A value of an ephemeral channel is gone once a later step commits anything
  without writing it.\<close>

lemma ephemeral_cleared:
  assumes "channels_merge fsum s (at_step k ws) = Inr s'" "k \<noteq> ch_step s"
    "cs_channels (ch_set s) n = Some Ephemeral" "n \<notin> fst ` set ws"
  shows "cs_values (ch_set s') n = None"
proof -
  from assms(1) have "apply_writes fsum ws (ch_set (begin_update (at_step k ws) s)) = Inr (ch_set s')"
    by (auto simp: channels_merge_iff)
  with apply_writes_frame assms(4)
  have "cs_values (ch_set s') n = cs_values (ch_set (begin_update (at_step k ws) s)) n" by blast
  with assms(2,3) show ?thesis by (simp add: begin_update_def clear_ephemeral_def)
qed

text \<open>Readiness of a named barrier does not depend on the order of its arrivals: after any list of
  object writes it is ready exactly when every name it waits for has been written.\<close>

lemma named_merge_object:
  "named_merge (Some (JObject m)) (JObject kvs) = Inr (JObject (fold (\<lambda>(k, v). bt_insert k v) kvs m))"
  by (simp add: named_merge_def)

lemma get_build_None:
  "bt_get n (fold (\<lambda>(k, v). bt_insert k v) kvs m) = None \<longleftrightarrow> n \<notin> fst ` set kvs \<and> bt_get n m = None"
  using map_of_eq_None_iff [of "rev kvs" n] by (cases "map_of (rev kvs) n") (simp_all add: bt.get_build)

theorem named_barrier_ready:
  "\<exists>v. reduce_all (\<lambda>cur inc. channel_merge fsum (NamedBarrier names) (Some cur) inc) (JObject []) (map JObject ws) = Inr v
    \<and> (is_ready (NamedBarrier names) (Some v) \<longleftrightarrow> set names \<subseteq> (\<Union>kvs \<in> set ws. fst ` set kvs))"
proof -
  have "\<exists>m'. reduce_all (\<lambda>cur inc. channel_merge fsum (NamedBarrier names) (Some cur) inc) (JObject m) (map JObject ws)
      = Inr (JObject m') \<and> (\<forall>n. bt_get n m' \<noteq> None \<longleftrightarrow> bt_get n m \<noteq> None \<or> n \<in> (\<Union>kvs \<in> set ws. fst ` set kvs))"
    for m
  proof (induction ws arbitrary: m)
    case (Cons kvs ws)
    let ?m = "fold (\<lambda>(k, v). bt_insert k v) kvs m"
    obtain m' where "reduce_all (\<lambda>cur inc. channel_merge fsum (NamedBarrier names) (Some cur) inc) (JObject ?m) (map JObject ws)
        = Inr (JObject m')" "\<forall>n. bt_get n m' \<noteq> None \<longleftrightarrow> bt_get n ?m \<noteq> None \<or> n \<in> (\<Union>kvs \<in> set ws. fst ` set kvs)"
      using Cons.IH by blast
    then show ?case
      by (intro exI [of _ m']) (auto simp: named_merge_object get_build_None simp del: not_None_eq)
  qed simp
  from this [of "[]"] show ?thesis by (force simp: list_all_iff)
qed

section \<open>Concrete states\<close>

definition no_sum :: f64_sum where
  "no_sum x y = JNull"

definition ch_sample :: channel_state where
  "ch_sample = \<lparr>ch_set = \<lparr>cs_channels = [''last'' \<mapsto> LastValue, ''log'' \<mapsto> Topic, ''sum'' \<mapsto> Delta],
     cs_values = Map.empty\<rparr>, ch_step = 0, ch_writes = (\<lambda>_. 0)\<rparr>"

definition ch_first :: channel_state where
  "ch_first = ch_sample\<lparr>ch_set := \<lparr>cs_channels = cs_channels (ch_set ch_sample),
     cs_values = [''last'' \<mapsto> JBool True, ''log'' \<mapsto> JArray [JNull]]\<rparr>, ch_step := 1,
     ch_writes := (\<lambda>_. 0)(''last'' := 1, ''log'' := 1)\<rparr>"

lemma ch_first_reached:
  "channels_merge no_sum ch_sample (at_step 1 [(''last'', JBool True), (''log'', JNull)]) = Inr ch_first"
  by (simp add: channels_merge_def begin_update_def ch_sample_def ch_first_def hs_collect_def hs_insert_def
      apply_update_def append_value_def clear_ephemeral_def fun_eq_iff)

theorem channel_conflicts_exact_witness:
  "(\<exists>m. channels_merge no_sum ch_first (at_step 1 [(''log'', JNull), (''last'', JNull)])
      = Inl (InvalidConcurrentUpdate m))
    \<and> map_sum id ch_set (channels_merge no_sum ch_first (at_step 1 [(''log'', JNull)]))
      = apply_writes no_sum [(''log'', JNull)] (ch_set ch_first)"
proof -
  have "ch_step ch_sample \<noteq> 1" by (simp add: ch_sample_def)
  note conflict = channel_conflicts_exact [OF this ch_first_reached]
  show ?thesis
    using conflict [of "[(''log'', JNull), (''last'', JNull)]"] conflict [of "[(''log'', JNull)]"]
    by (auto simp: overwrites_def ch_sample_def)
qed

text \<open>An unstamped update between two stamped ones forgets the writes of the
  step, so a second write to an overwriting channel within one step is then accepted.\<close>

theorem unstamped_hides_conflict:
  "isl (reduce_all (channels_merge no_sum) ch_first [at_step 1 [(''last'', JNull)]])
    \<and> \<not> isl (reduce_all (channels_merge no_sum) ch_first
        [\<lparr>cu_writes = [], cu_step = None\<rparr>, at_step 1 [(''last'', JNull)]])"
  by (simp add: channels_merge_def begin_update_def ch_sample_def ch_first_def hs_collect_def hs_insert_def
      apply_update_def)

text \<open>The integer sum of a delta channel is not guarded: past the largest
  signed value it wraps to a negative one.\<close>

theorem delta_wraps:
  "delta_merge no_sum (Some (JNumber (PosInt 9223372036854775807))) (JNumber (PosInt 1))
    = Inr (JNumber (NegInt 9223372036854775808))"
  by (simp add: delta_merge_def from_i64_def)

end
