(* ===== verification/Spec2Isabelle.thy ===== *)
theory Spec2Isabelle
  imports Tf_StateApi Tf_Admission Tf_Continue Tf_Dedup Tf_Channel
begin

text \<open>
  Verification of tinyflows, a workflow engine in Rust (\<^verbatim>\<open>src/crates/tinyflows/src\<close>; the paths
  below are relative to it).  A workflow is a graph of nodes joined by edges between ports.
  Validation decides which graphs are accepted.  A run lowers an accepted graph onto a state-graph
  runtime, which activates sets of nodes in super-steps, merges their updates into a JSON run state,
  persists a checkpoint at each boundary, and can pause and resume.

  \<^bold>\<open>Parts and theories.\<close>

  \<^item> \<open>Tf_Prelude\<close>: ordered maps (the Rust \<open>BTreeMap\<close> and the object of \<open>serde_json\<close>), hash maps and
    iterated hash sets as lists, and the generic lemmas on lists, options and sums.  \<open>Tf_Json\<close>: JSON
    values with their three number forms.
  \<^item> \<open>Tf_Model\<close>, \<open>Tf_Reach\<close>, \<open>Tf_Paths\<close>: graphs, nodes, edges, items, agents and declared inputs
    (\<^verbatim>\<open>model/\<close>, \<^verbatim>\<open>data.rs\<close>), with their traversals.
  \<^item> \<open>Tf_Expr\<close>: configuration expressions (\<^verbatim>\<open>expr.rs\<close>).
  \<^item> \<open>Tf_Validate\<close>: every validation pass (\<^verbatim>\<open>validate.rs\<close>, \<^verbatim>\<open>validate/\<close>).
  \<^item> \<open>Tf_BackEdges\<close>, \<open>Tf_State\<close>: back-edges, routing shapes, and the merge of updates into the run
    state (\<^verbatim>\<open>engine/routing.rs\<close>, \<^verbatim>\<open>engine/state.rs\<close>).
  \<^item> \<open>Tf_Nodes\<close>, \<open>Tf_Control\<close>, \<open>Tf_Dedup\<close>: node outputs and postconditions, the control-flow
    executors, deduplication (\<^verbatim>\<open>nodes/\<close>, \<^verbatim>\<open>postcondition.rs\<close>).
  \<^item> \<open>Tf_Activation\<close>: one activation of a node (\<^verbatim>\<open>engine/build/activation\<close>, \<^verbatim>\<open>outcome.rs\<close>,
    \<^verbatim>\<open>interception.rs\<close>).  \<open>Tf_Lower\<close>: the lowering (\<^verbatim>\<open>engine/build.rs\<close>, \<^verbatim>\<open>handlers.rs\<close>,
    \<^verbatim>\<open>wiring.rs\<close>).  \<open>Tf_Engine\<close>: starting and re-executing a run (\<^verbatim>\<open>engine.rs\<close>,
    \<^verbatim>\<open>engine/run_state.rs\<close>), with the identity and tool narrowing of agent requests.  \<open>Tf_Continue\<close>:
    continuing a checkpointed run and reading where it failed (\<^verbatim>\<open>engine/resumable.rs\<close>,
    \<^verbatim>\<open>engine/resumable/continuation.rs\<close>).
  \<^item> \<open>Tf_Command\<close>, \<open>Tf_Recursion\<close>, \<open>Tf_Builder\<close>, \<open>Tf_Routing\<close>: the vocabulary of the runtime, its
    limits, the builder, and successor resolution with barriers (\<^verbatim>\<open>graph/command\<close>,
    \<^verbatim>\<open>graph/recursion\<close>, \<^verbatim>\<open>graph/builder\<close>, \<^verbatim>\<open>graph/compiled/routing.rs\<close>).
  \<^item> \<open>Tf_Channel\<close>: channel-per-field state, an alternative reducer for graphs built on the runtime
    (\<^verbatim>\<open>graph/channel\<close>).
  \<^item> \<open>Tf_Checkpoint\<close>, \<open>Tf_Persist\<close>: the checkpointer interface with the in-memory store, and inline
    or background persistence (\<^verbatim>\<open>graph/checkpoint\<close>, \<^verbatim>\<open>persistence.rs\<close>).
  \<^item> \<open>Tf_Exec\<close>, \<open>Tf_Admission\<close>, \<open>Tf_Run\<close>, \<open>Tf_RunLaws\<close>: running an active set, the bounded window,
    the super-step loop and its laws (\<^verbatim>\<open>graph/compiled/executor\<close>).
  \<^item> \<open>Tf_Resume\<close>, \<open>Tf_StateApi\<close>: resume, retry, fork and edits (\<^verbatim>\<open>executor/api.rs\<close>,
    \<^verbatim>\<open>state_api.rs\<close>).

  \<^bold>\<open>Correspondence.\<close>  A struct is a record, an enum a datatype, and an operation keeps the name it
  has in Rust unless that clashes.  Every \<open>Result\<close> is a sum with the error on the left.  Numbers
  read from data are \<open>64 word\<close>; counters of a run are naturals.  What a run asks of the outside is a
  function field of a record: \<open>host\<close> for executors, timers, cancellation and interception,
  \<open>runtime\<close> and \<open>world\<close> for handlers, clocks and the store, \<open>expr_lib\<close> for the jq engine and the
  rendering of JSON values, \<open>kv_faults\<close> for the failures of a key-value store.

  \<^bold>\<open>What is shown.\<close>

  \<^item> Routing and lowering (\<open>Tf_Routing\<close>, \<open>Tf_Builder\<close>, \<open>Tf_BackEdges\<close>, \<open>Tf_Lower\<close>): a barrier is
    activated when its last missing predecessor arrives, and otherwise only by a direct route from
    outside its predecessors or when each of them is accounted for, an arrival or a relief; compilation accepts exactly the sound
    topologies; an accepted workflow that uses neither sentinel name lowers to a graph that can drive
    each of its edges; the barriers of a lowered workflow do not wait for one another in a circle.
  \<^item> Runs (\<open>Tf_Exec\<close>, \<open>Tf_Admission\<close>, \<open>Tf_RunLaws\<close>, \<open>Tf_Resume\<close>, \<open>Tf_Engine\<close>,
    \<open>Tf_Continue\<close>): an iteration of the
    loop keeps its invariant and finds its handlers; a boundary accounts for every activation; a step
    without failures or pauses is the same in sequence and in parallel; the window fills every slot;
    background writes over the in-memory store refine inline ones; checkpoints form one chain; a
    resume starts from the pause; the failure boundary of a thread tells what failed and what is
    pending; a continuation decides the gates it names and no other; a run of an accepted workflow that returns stays within its limits.
  \<^item> State and checkpoints (\<open>Tf_State\<close>, \<open>Tf_Channel\<close>, \<open>Tf_Checkpoint\<close>): the updates of a step can be folded in any
    order; channels refuse exactly the second overwriting write of a step, and the indexed merge of
    messages is the plain scan; pruning keeps what a resume needs; the walk over a history returns.
  \<^item> Validation (\<open>Tf_Validate\<close>): cycles of an accepted graph pass through a loop unless the trigger
    bounds the run; lanes reach a gather or a void; memory writes stay in the flow.
  \<^item> Nodes (\<open>Tf_Nodes\<close>, \<open>Tf_Expr\<close>, \<open>Tf_Activation\<close>, \<open>Tf_Control\<close>, \<open>Tf_Dedup\<close>): the postcondition
    gate, traced resolution, retries and approval gates; an activation without an interceptor writes
    its own slot only; a scatter partitions its input and a gather restores the order; passes of a
    loop are bounded; a key is passed once, and a failed settlement loses none.
  \<^item> Behaviour that differs from what the code means or documents is stated on concrete inputs:
    results mixed by the window, a retry that loses a task, a gather that counts another scatter or
    emits a stale lane, a reserved node id, the gate of an edit.

  The contracts between components are locales, each interpreted on the model: \<open>keyed_map\<close> (ordered
  and hash maps), \<open>reach_test\<close> (graph searches), \<open>commuting_reducer\<close> (the merge of slot updates),
  \<open>checkpointer_laws\<close> and \<open>reliable_put\<close> (the in-memory store), \<open>self_counter\<close> (the counts of loop
  heads and gathers).

  \<^bold>\<open>Bounds.\<close>  No definition carries fuel.  The super-step loop ends because each iteration that
  continues uses one step of the step limit, which the loop itself checks.  The graph searches, the
  lane split and the resolution of expressions have termination measures.  The walk over a
  checkpoint history may follow any parent pointers a backend returns, so it is a partial function,
  and is shown to return over the in-memory store.  The window is a step relation, since the
  scheduler chooses which branch finishes.  Handlers and executors are functions, so a node that
  never returns is outside the model.

  \<^bold>\<open>Not modelled.\<close>  Event sinks, journals, status records and step reports, which only observers
  read.  Executors that call host capabilities (agents, tools, HTTP, code, shell, memory,
  sub-workflows), whose results enter as host functions.  The entry points that only choose a
  checkpointer, journal, observer or token.  Double arithmetic, which enters as a function.  Authoring reports, migrations and rendering, and the crates around the engine for
  scheduling, storage, catalogues and adaptation.
\<close>

end
